(* ===== verification/Prelude.thy ===== *)
theory Prelude
  imports Main "HOL-Library.Word"
begin

text \<open>
  Shared vocabulary of the development: the machine types of the C++ sources, the parts of the
  C++ standard library they call on strings and numbers (\<open>std::to_string\<close>, \<open>std::stoul\<close>,
  \<open>isdigit\<close>, \<open>tolower\<close>, \<open>std::string::find\<close>), arithmetic on \<open>size_t\<close>, an action type for
  code that mutates state and may throw, and the generic lemmas the components use.

  A \<open>char\<close> is a byte and a \<open>string\<close> a list of bytes, as \<open>std::string\<close> is. Sizes are natural
  numbers; wherever the sources add or subtract two \<open>size_t\<close> values whose result may leave the
  64-bit range, the reduction modulo \<open>2 ^ 64\<close> is written out.
\<close>

section \<open>Types\<close>

type_synonym u16 = "16 word"
type_synonym u32 = "32 word"
type_synonym u64 = "64 word"

text \<open>The failures of the standard library and the exceptions derived from \<open>std::exception\<close>.\<close>

datatype std_error = Invalid_argument | Out_of_range | Runtime_error string | Logic_error string

named_theorems eval_simps "equations that evaluate the model on concrete bytes"

text \<open>
  \<open>static_cast<uint32_t>(difftime(time(nullptr), 0) + .5)\<close> for the value \<open>t\<close> of \<open>time\<close>, and the
  64-bit key both protocols make of a request's id and time stamp,
  \<open>id | (time_stamp << 32)\<close>.
\<close>

unbundle bit_operations_syntax

definition stamp :: "int \<Rightarrow> u32" where
  "stamp t = word_of_int t"

definition id_time_key :: "u32 \<Rightarrow> u32 \<Rightarrow> u64" where
  "id_time_key i t = (ucast i :: u64) OR push_bit 32 (ucast t :: u64)"

lemma bit_id_time_key:
  "bit (id_time_key i t) n \<longleftrightarrow> (n < 32 \<and> bit i n) \<or> (32 \<le> n \<and> n < 64 \<and> bit t (n - 32))"
  by (auto simp: id_time_key_def bit_simps dest: bit_imp_le_length)

lemma key_id [simp]: "ucast (id_time_key i t) = i"
  by (rule bit_word_eqI) (auto simp: bit_ucast_iff bit_id_time_key)

lemma key_time [simp]: "drop_bit 32 (id_time_key i t) = (ucast t :: u64)"
  by (rule bit_word_eqI) (auto simp: bit_simps bit_id_time_key dest: bit_imp_le_length)

lemma key_inject [simp]: "id_time_key i t = id_time_key i' t' \<longleftrightarrow> i = i' \<and> t = t'"
proof
  assume eq: "id_time_key i t = id_time_key i' t'"
  have "i = i'" using arg_cong [OF eq, of "\<lambda>k. ucast k :: u32"] by simp
  moreover have "bit t n = bit t' n" if "n < 32" for n
    using that arg_cong [OF eq, of "\<lambda>k. bit k (n + 32)"] by (simp add: bit_id_time_key)
  then have "t = t'" by (intro bit_word_eqI) simp
  ultimately show "i = i' \<and> t = t'" by simp
qed simp

section \<open>Arithmetic on size\_t\<close>

definition size_range :: nat where
  "size_range = 2 ^ 64"

definition SIZE_MAX :: nat where
  "SIZE_MAX = size_range - 1"

definition size_add :: "nat \<Rightarrow> nat \<Rightarrow> nat" where
  "size_add a b = (a + b) mod size_range"

definition size_sub :: "nat \<Rightarrow> nat \<Rightarrow> nat" where
  "size_sub a b = (a + (size_range - b mod size_range)) mod size_range"

lemma size_range_pos [simp]: "0 < size_range"
  by (simp add: size_range_def)

lemma size_add_le_SIZE_MAX [simp]: "size_add a b \<le> SIZE_MAX"
proof -
  have "size_add a b < size_range" by (simp add: size_add_def)
  then show ?thesis by (simp add: SIZE_MAX_def)
qed

lemma size_sub_less_range [simp]: "size_sub a b < size_range"
  by (simp add: size_sub_def)

lemma size_sub_exact [simp]:
  assumes "b \<le> a" and "a < size_range"
  shows "size_sub a b = a - b"
proof -
  have "b < size_range" using assms by simp
  then have "a + (size_range - b mod size_range) = (a - b) + size_range"
    using assms by simp
  then have "size_sub a b = ((a - b) + size_range) mod size_range"
    by (simp only: size_sub_def)
  also have "\<dots> = (a - b) mod size_range" by (rule mod_add_self2)
  also have "\<dots> = a - b" using assms by (intro mod_less) simp
  finally show ?thesis .
qed

lemma size_add_exact [simp]: "a + b < size_range \<Longrightarrow> size_add a b = a + b"
  by (simp add: size_add_def)

section \<open>Characters\<close>

definition NUL :: char where
  "NUL = CHR 0x00"

definition CR :: char where
  "CR = CHR 0x0D"

definition LF :: char where
  "LF = CHR 0x0A"

definition CRLF :: string where
  "CRLF = [CR, LF]"

definition isdigit :: "char \<Rightarrow> bool" where
  "isdigit c \<longleftrightarrow> 48 \<le> (of_char c :: nat) \<and> (of_char c :: nat) \<le> 57"

definition isspace :: "char \<Rightarrow> bool" where
  "isspace c \<longleftrightarrow> (of_char c :: nat) = 32 \<or> (9 \<le> (of_char c :: nat) \<and> (of_char c :: nat) \<le> 13)"

definition tolower :: "char \<Rightarrow> char" where
  "tolower c = (if 65 \<le> (of_char c :: nat) \<and> (of_char c :: nat) \<le> 90
                then char_of ((of_char c :: nat) + 32) else c)"

text \<open>The value of a character as a digit of base 10 or 16, as \<open>strtoul\<close> reads it.\<close>

definition digit_val :: "nat \<Rightarrow> char \<Rightarrow> nat option" where
  "digit_val base c =
     (let n = of_char c :: nat;
          v = (if 48 \<le> n \<and> n \<le> 57 then n - 48
               else if 97 \<le> n \<and> n \<le> 122 then n - 87
               else if 65 \<le> n \<and> n \<le> 90 then n - 55
               else base)
      in if v < base then Some v else None)"

lemma digit_val_10: "digit_val 10 c = (if isdigit c then Some ((of_char c :: nat) - 48) else None)"
  by (auto simp: digit_val_def isdigit_def Let_def)

section \<open>std::to\_string and std::stoul\<close>

definition digit_char :: "nat \<Rightarrow> char" where
  "digit_char d = char_of (48 + d)"

fun to_dec :: "nat \<Rightarrow> string" where
  "to_dec n = (if n < 10 then [digit_char n] else to_dec (n div 10) @ [digit_char (n mod 10)])"

declare to_dec.simps [simp del]

definition digits_value :: "nat \<Rightarrow> string \<Rightarrow> nat" where
  "digits_value base ds = foldl (\<lambda>a c. a * base + the (digit_val base c)) 0 ds"

text \<open>
  \<open>std::stoul(s, nullptr, base)\<close> on a platform whose \<open>unsigned long\<close> has 64 bits: leading white
  space, an optional sign (a minus sign negates modulo \<open>2 ^ 64\<close>), an optional \<open>0x\<close> for base 16,
  then the longest run of digits; anything after it is ignored.
\<close>

definition skip_sign :: "string \<Rightarrow> bool \<times> string" where
  "skip_sign s =
     (case s of
        [] \<Rightarrow> (False, [])
      | c # cs \<Rightarrow> if c = CHR ''-'' then (True, cs) else if c = CHR ''+'' then (False, cs) else (False, s))"

definition skip_hex_prefix :: "string \<Rightarrow> string" where
  "skip_hex_prefix s =
     (case s of
        z # x # h # r \<Rightarrow>
          if z = CHR ''0'' \<and> (x = CHR ''x'' \<or> x = CHR ''X'') \<and> digit_val 16 h \<noteq> None then h # r else s
      | _ \<Rightarrow> s)"

definition stoul_base :: "nat \<Rightarrow> string \<Rightarrow> std_error + nat" where
  "stoul_base base s =
     (let (neg, s1) = skip_sign (dropWhile isspace s);
          s2 = (if base = 16 then skip_hex_prefix s1 else s1);
          ds = takeWhile (\<lambda>c. digit_val base c \<noteq> None) s2;
          v = digits_value base ds
      in if ds = [] then Inl Invalid_argument
         else if v \<ge> size_range then Inl Out_of_range
         else Inr (if neg then (size_range - v) mod size_range else v))"

abbreviation stoul :: "string \<Rightarrow> std_error + nat" where
  "stoul \<equiv> stoul_base 10"

lemma of_char_digit_char [simp]: "d < 10 \<Longrightarrow> (of_char (digit_char d) :: nat) = 48 + d"
  by (simp add: digit_char_def)

lemma isdigit_digit_char [simp]: "d < 10 \<Longrightarrow> isdigit (digit_char d)"
  by (simp add: isdigit_def)

lemma to_dec_digits: "c \<in> set (to_dec n) \<Longrightarrow> isdigit c"
proof (induction n rule: to_dec.induct)
  case (1 n)
  then show ?case
    by (cases "n < 10") (auto simp: to_dec.simps [of n])
qed

lemma to_dec_not_Nil [simp]: "to_dec n \<noteq> []"
  by (subst to_dec.simps) simp

lemma digits_value_append:
  "digits_value b (xs @ [c]) = digits_value b xs * b + the (digit_val b c)"
  by (simp add: digits_value_def)

lemma digits_value_to_dec [simp]: "digits_value 10 (to_dec n) = n"
proof (induction n rule: to_dec.induct)
  case (1 n)
  show ?case
  proof (cases "n < 10")
    case True
    then show ?thesis
      by (simp add: to_dec.simps [of n] digits_value_def digit_val_10)
  next
    case False
    with 1 have "digits_value 10 (to_dec (n div 10)) = n div 10" by simp
    with False show ?thesis
      by (simp add: to_dec.simps [of n] digits_value_append digit_val_10)
  qed
qed

lemma digit_not_space: "isdigit c \<Longrightarrow> \<not> isspace c"
  by (auto simp: isdigit_def isspace_def)

lemma digit_not_sign: "isdigit c \<Longrightarrow> c \<noteq> CHR ''-'' \<and> c \<noteq> CHR ''+''"
  by (auto simp: isdigit_def)

lemma stoul_digits:
  assumes "ds \<noteq> []" and "\<And>c. c \<in> set ds \<Longrightarrow> isdigit c"
  shows "stoul ds = (if digits_value 10 ds \<ge> size_range then Inl Out_of_range
                     else Inr (digits_value 10 ds))"
proof -
  obtain d ds' where ds: "ds = d # ds'" using assms(1) by (cases ds) auto
  have d: "isdigit d" using assms(2) ds by simp
  have dw: "dropWhile isspace ds = ds" using d by (simp add: ds digit_not_space)
  have sg: "skip_sign ds = (False, ds)"
    using digit_not_sign [OF d] by (simp add: skip_sign_def ds)
  have tw: "takeWhile (\<lambda>c. digit_val 10 c \<noteq> None) ds = ds"
    using assms(2) by (auto simp: takeWhile_eq_all_conv digit_val_10)
  show ?thesis using assms(1) by (simp add: stoul_base_def Let_def dw sg tw del: not_None_eq)
qed

lemma stoul_to_dec [simp]: "n < size_range \<Longrightarrow> stoul (to_dec n) = Inr n"
  by (simp add: stoul_digits to_dec_digits)

lemma stoul_range: "stoul_base b s = Inr n \<Longrightarrow> n < size_range"
  by (auto simp: stoul_base_def Let_def split: prod.splits if_splits)

lemma stoul_Nil [simp]: "stoul_base b [] = Inl Invalid_argument"
  by (simp add: stoul_base_def skip_sign_def skip_hex_prefix_def)

section \<open>std::string::find\<close>

text \<open>Position of the first occurrence of a character; \<open>None\<close> is \<open>npos\<close>.\<close>

fun find_char :: "char \<Rightarrow> string \<Rightarrow> nat option" where
  "find_char c [] = None"
| "find_char c (x # xs) = (if x = c then Some 0 else map_option Suc (find_char c xs))"

text \<open>Position of the first occurrence of a two-character pattern.\<close>

fun find_pair :: "char \<Rightarrow> char \<Rightarrow> string \<Rightarrow> nat option" where
  "find_pair a b (x # y # r) =
     (if x = a \<and> y = b then Some 0 else map_option Suc (find_pair a b (y # r)))"
| "find_pair a b _ = None"

lemma find_char_None [simp]: "find_char c s = None \<longleftrightarrow> c \<notin> set s"
  by (induction s) auto

lemma find_char_append [simp]:
  "c \<notin> set a \<Longrightarrow> find_char c (a @ b) = map_option (\<lambda>i. length a + i) (find_char c b)"
proof (induction a)
  case Nil
  have "(\<lambda>i::nat. length ([] :: string) + i) = (\<lambda>i. i)" by simp
  then show ?case by (simp only: append_Nil option.map_ident)
next
  case (Cons x xs)
  then have "find_char c ((x # xs) @ b) = map_option Suc (map_option (\<lambda>i. length xs + i) (find_char c b))"
    by auto
  then show ?case by (cases "find_char c b") simp_all
qed

lemma find_char_Some:
  "find_char c s = Some i \<Longrightarrow> i < length s \<and> s ! i = c \<and> c \<notin> set (take i s)"
proof (induction s arbitrary: i)
  case (Cons x xs)
  then show ?case
    by (cases i) (auto split: if_splits)
qed simp

lemma find_pair_append:
  "a \<notin> set xs \<Longrightarrow> find_pair a b (xs @ a # b # r) = Some (length xs)"
proof (induction xs)
  case (Cons x xs)
  then show ?case by (cases xs) auto
qed simp

section \<open>Mutating code that may throw\<close>

text \<open>
  An action runs on a state and ends with a value or with an exception; the mutations made
  before a throw stay, as they do in C++.
\<close>

type_synonym ('s, 'e, 'a) action = "'s \<Rightarrow> 's \<times> ('e + 'a)"

definition ret :: "'a \<Rightarrow> ('s, 'e, 'a) action" where
  "ret x s = (s, Inr x)"

definition raise :: "'e \<Rightarrow> ('s, 'e, 'a) action" where
  "raise e s = (s, Inl e)"

definition modify :: "('s \<Rightarrow> 's) \<Rightarrow> ('s, 'e, unit) action" where
  "modify f s = (f s, Inr ())"

definition bnd :: "('s, 'e, 'a) action \<Rightarrow> ('a \<Rightarrow> ('s, 'e, 'b) action) \<Rightarrow> ('s, 'e, 'b) action" where
  "bnd m f s = (case m s of (s', Inl e) \<Rightarrow> (s', Inl e) | (s', Inr x) \<Rightarrow> f x s')"

text \<open>Every state the action leaves behind, thrown or not, satisfies \<open>I\<close> again.\<close>

definition keeps :: "('s \<Rightarrow> bool) \<Rightarrow> ('s, 'e, 'a) action \<Rightarrow> bool" where
  "keeps I m \<longleftrightarrow> (\<forall>s. I s \<longrightarrow> I (fst (m s)))"

lemma keepsD: "keeps I m \<Longrightarrow> I s \<Longrightarrow> I (fst (m s))"
  by (simp add: keeps_def)

lemma keeps_ret [simp]: "keeps I (ret x)"
  by (simp add: keeps_def ret_def)

lemma keeps_raise [simp]: "keeps I (raise e)"
  by (simp add: keeps_def raise_def)

lemma keeps_bnd: "keeps I m \<Longrightarrow> (\<And>x. keeps I (f x)) \<Longrightarrow> keeps I (bnd m f)"
  by (fastforce simp: keeps_def bnd_def split: prod.splits sum.splits)

lemma bnd_assoc: "bnd (bnd m f) g = bnd m (\<lambda>x. bnd (f x) g)"
  by (rule ext) (simp add: bnd_def split: prod.split sum.split)

section \<open>Results up to the kind of error\<close>

text \<open>Two runs agree when both fail, or both succeed with the same value.\<close>

definition res_opt :: "'e + 'a \<Rightarrow> 'a option" where
  "res_opt r = (case r of Inl _ \<Rightarrow> None | Inr x \<Rightarrow> Some x)"

lemma res_opt_simps [simp]: "res_opt (Inl e) = None" "res_opt (Inr x) = Some x"
  by (simp_all add: res_opt_def)

lemma res_opt_None [simp]: "res_opt r = None \<longleftrightarrow> (\<exists>e. r = Inl e)"
  by (cases r) auto

lemma res_opt_Some [simp]: "res_opt r = Some x \<longleftrightarrow> r = Inr x"
  by (cases r) auto

section \<open>Evaluation on concrete bytes\<close>

lemma to_dec_rec: "to_dec n = (if n < 10 then [digit_char n] else to_dec (n div 10) @ [digit_char (n mod 10)])"
  by (rule to_dec.simps)

lemma size_range_numeral: "size_range = 18446744073709551616"
  by (simp add: size_range_def)

lemma SIZE_MAX_numeral: "SIZE_MAX = 18446744073709551615"
  by (simp add: SIZE_MAX_def size_range_def)

lemma digit_char_table [eval_simps]:
  "digit_char 0 = CHR ''0''" "digit_char 1 = CHR ''1''" "digit_char (Suc 0) = CHR ''1''"
  "digit_char 2 = CHR ''2''" "digit_char 3 = CHR ''3''" "digit_char 4 = CHR ''4''"
  "digit_char 5 = CHR ''5''" "digit_char 6 = CHR ''6''" "digit_char 7 = CHR ''7''"
  "digit_char 8 = CHR ''8''" "digit_char 9 = CHR ''9''"
  by code_simp+

lemmas [eval_simps] = numeral_2_eq_2 [symmetric] stoul_base_def skip_sign_def skip_hex_prefix_def digits_value_def digit_val_def
  isdigit_def isspace_def tolower_def to_dec_rec size_range_numeral SIZE_MAX_numeral
  size_add_def size_sub_def NUL_def CR_def LF_def CRLF_def Let_def

end
