(* ===== verification/Streaming.thy ===== *)
theory Streaming
  imports Prelude
begin

text \<open>
  The contract between a stream socket and a protocol parser. A \<open>ZMQ_STREAM\<close> socket coalesces
  and splits messages at will (the note at the top of \<open>prime_server.hpp\<close>), so a parser is called
  once per piece and keeps what is not yet whole. This theory states what such a parser owes its
  caller, \<open>chunked_parser\<close>: how the bytes are cut into pieces makes no difference. A parser that
  agrees with a machine that reads one byte at a time satisfies it, \<open>byte_refined\<close>.
\<close>

section \<open>Feeding a parser piece by piece\<close>

type_synonym ('s, 'c, 'e, 'o) feed = "'s \<Rightarrow> 'c list \<Rightarrow> 's \<times> ('e + 'o list)"

text \<open>
  Successive calls on successive pieces, as the server and the clients make them: the outputs
  are collected, the first exception ends the session.
\<close>

fun feed_all :: "('s, 'c, 'e, 'o) feed \<Rightarrow> ('s, 'c list, 'e, 'o) feed" where
  "feed_all f s [] = (s, Inr [])"
| "feed_all f s (x # xs) =
     (case f s x of
        (s1, Inl e) \<Rightarrow> (s1, Inl e)
      | (s1, Inr os) \<Rightarrow>
          (case feed_all f s1 xs of
             (s2, Inl e) \<Rightarrow> (s2, Inl e)
           | (s2, Inr os') \<Rightarrow> (s2, Inr (os @ os'))))"

text \<open>
  What a caller can tell apart: whether the input was rejected, and if not the outputs and the
  state left behind, read through \<open>nrm\<close>.
\<close>

definition outcome :: "('s \<Rightarrow> 'n) \<Rightarrow> 's \<times> ('e + 'o list) \<Rightarrow> ('n \<times> 'o list) option" where
  "outcome nrm r = (case r of (s, Inl e) \<Rightarrow> None | (s, Inr os) \<Rightarrow> Some (nrm s, os))"

lemma outcome_simps [simp]:
  "outcome nrm (s, Inl e) = None"
  "outcome nrm (s, Inr os) = Some (nrm s, os)"
  by (simp_all add: outcome_def)

lemma outcome_eq_None: "outcome nrm r = None \<longleftrightarrow> (\<exists>s e. r = (s, Inl e))"
  by (cases r) (auto simp: outcome_def split: sum.splits)

lemma outcome_eq_Some: "outcome nrm r = Some (t, os) \<longleftrightarrow> (\<exists>s. r = (s, Inr os) \<and> t = nrm s)"
  by (cases r) (auto simp: outcome_def split: sum.splits)

lemma outcome_id_Some [simp]: "outcome (\<lambda>s. s) r = Some (t, os) \<longleftrightarrow> r = (t, Inr os)"
  by (auto simp: outcome_eq_Some)

lemma outcome_feed_all_Cons:
  "f s x = (s1, Inr os) \<Longrightarrow>
     outcome nrm (feed_all f s (x # xs)) =
       map_option (\<lambda>(s2, os'). (s2, os @ os')) (outcome nrm (feed_all f s1 xs))"
  by (auto simp: outcome_def split: prod.splits sum.splits)

lemma outcome_feed_all_single: "outcome nrm (feed_all f s [x]) = outcome nrm (f s x)"
  by (auto simp: outcome_def split: prod.splits sum.splits)

section \<open>The contract\<close>

locale chunked_parser =
  fixes feed :: "('s, 'c, 'e, 'o) feed"
    and good :: "'s \<Rightarrow> bool"
    and nrm :: "'s \<Rightarrow> 'n"
  assumes feed_Nil: "good s \<Longrightarrow> feed s [] = (s, Inr [])"
    and feed_good: "good s \<Longrightarrow> feed s xs = (s', Inr os) \<Longrightarrow> good s'"
    and feed_append: "good s \<Longrightarrow>
          outcome nrm (feed s (xs @ ys)) = outcome nrm (feed_all feed s [xs, ys])"
begin

lemma feed_all_good: "good s \<Longrightarrow> feed_all feed s xss = (s', Inr os) \<Longrightarrow> good s'"
proof (induction xss arbitrary: s os)
  case (Cons x xss)
  then show ?case
    by (auto split: prod.splits sum.splits dest: feed_good)
qed simp

lemma feed_all_concat: "good s \<Longrightarrow> outcome nrm (feed_all feed s xss) = outcome nrm (feed s (concat xss))"
proof (induction xss arbitrary: s)
  case Nil
  then show ?case by (simp add: feed_Nil)
next
  case (Cons x xss)
  obtain s1 r where x: "feed s x = (s1, r)" by fastforce
  show ?case
  proof (cases r)
    case (Inl e)
    then show ?thesis using x feed_append [OF Cons.prems, of x "concat xss"] by simp
  next
    case (Inr os)
    then have "good s1" using feed_good [OF Cons.prems] x by simp
    then have "outcome nrm (feed_all feed s1 xss) = outcome nrm (feed s1 (concat xss))"
      by (rule Cons.IH)
    then show ?thesis
      using x Inr feed_append [OF Cons.prems, of x "concat xss"]
      by (simp add: outcome_feed_all_Cons outcome_feed_all_single del: feed_all.simps)
  qed
qed

lemma same_bytes_same_outcome:
  "good s \<Longrightarrow> concat xss = concat yss \<Longrightarrow>
     outcome nrm (feed_all feed s xss) = outcome nrm (feed_all feed s yss)"
  by (simp add: feed_all_concat)

end

section \<open>Machines that read one byte at a time\<close>

fun run :: "('s \<Rightarrow> 'c \<Rightarrow> ('s \<times> 'o list) option) \<Rightarrow> 's \<Rightarrow> 'c list \<Rightarrow> ('s \<times> 'o list) option" where
  "run step s [] = Some (s, [])"
| "run step s (c # cs) =
     (case step s c of
        None \<Rightarrow> None
      | Some (s1, os) \<Rightarrow> map_option (\<lambda>(s2, os'). (s2, os @ os')) (run step s1 cs))"

lemma run_append:
  "run step s (xs @ ys) =
     (case run step s xs of
        None \<Rightarrow> None
      | Some (s1, os) \<Rightarrow> map_option (\<lambda>(s2, os'). (s2, os @ os')) (run step s1 ys))"
proof (induction xs arbitrary: s)
  case Nil
  show ?case by (cases "run step s ys") auto
next
  case (Cons x xs)
  then show ?case
    by (auto split: option.splits simp: option.map_comp comp_def case_prod_beta)
qed

locale byte_refined =
  fixes feed :: "('s, 'c, 'e, 'o) feed"
    and good :: "'s \<Rightarrow> bool"
    and step :: "'s \<Rightarrow> 'c \<Rightarrow> ('s \<times> 'o list) option"
  assumes feed_run: "good s \<Longrightarrow> outcome (\<lambda>s. s) (feed s xs) = run step s xs"
    and step_good: "good s \<Longrightarrow> step s c = Some (s', os) \<Longrightarrow> good s'"
begin

lemma run_good: "good s \<Longrightarrow> run step s xs = Some (s', os) \<Longrightarrow> good s'"
proof (induction xs arbitrary: s os)
  case (Cons x xs)
  then show ?case by (auto split: option.splits dest: step_good)
qed simp

lemma feed_Inr_run: "good s \<Longrightarrow> feed s xs = (s', Inr os) \<longleftrightarrow> run step s xs = Some (s', os)"
  using feed_run [of s xs] by (metis outcome_id_Some)

lemma feed_Inl_run: "good s \<Longrightarrow> (\<exists>s' e. feed s xs = (s', Inl e)) \<longleftrightarrow> run step s xs = None"
  using feed_run [of s xs] by (metis outcome_eq_None)

end

sublocale byte_refined \<subseteq> chunks: chunked_parser feed good "\<lambda>s. s"
proof (unfold_locales, goal_cases)
  case (1 s)
  then show ?case by (simp add: feed_Inr_run)
next
  case (2 s xs s' os)
  then show ?case by (auto simp: feed_Inr_run dest: run_good)
next
  case (3 s xs ys)
  obtain s1 r where x: "feed s xs = (s1, r)" by fastforce
  show ?case
  proof (cases r)
    case (Inl e)
    then have "run step s xs = None" using x 3 feed_Inl_run by blast
    then show ?thesis using x Inl 3 by (simp add: feed_run run_append)
  next
    case (Inr os)
    then have r: "run step s xs = Some (s1, os)" using x 3 by (simp add: feed_Inr_run)
    then have "good s1" using 3 run_good by blast
    then have "outcome (\<lambda>s. s) (feed_all feed s [xs, ys]) =
        map_option (\<lambda>(s2, os'). (s2, os @ os')) (run step s1 ys)"
      using x Inr by (simp add: outcome_feed_all_Cons outcome_feed_all_single feed_run del: feed_all.simps)
    then show ?thesis using 3 r by (simp add: feed_run run_append del: feed_all.simps)
  qed
qed

end
