(* ===== verification/Netstring.thy ===== *)
theory Netstring
  imports Streaming
begin

text \<open>
  The netstring protocol, \<open>netstring_protocol.hpp\<close> and \<open>netstring_protocol.cpp\<close>: the entity
  that is both a message and the streaming parser's state, the request info, the parser
  \<open>from_stream\<close>, and the client's \<open>stream_responses\<close>. The parser is proved equivalent to a
  machine that reads one byte at a time, which gives the streaming contract; the serialiser and
  the parser are proved inverse on non-empty bodies.
\<close>

section \<open>Data\<close>

record netstring_request_info =
  ns_id :: u32
  ns_time_stamp :: u32

record netstring_entity =
  ns_body :: string
  ns_body_length :: nat
  ns_enqueued :: "u64 list"

text \<open>The four constants the parser throws, all of type \<open>request_exception_t\<close>.\<close>

datatype netstring_exception = BAD_LENGTH | TOO_LONG | BAD_BODY_SEPARATOR | BAD_MESSAGE_SEPARATOR

definition ns_keep_alive :: "netstring_request_info \<Rightarrow> bool" where
  "ns_keep_alive info = True"

definition ns_key :: "netstring_request_info \<Rightarrow> u64" where
  "ns_key info = id_time_key (ns_id info) (ns_time_stamp info)"

section \<open>Operations\<close>

definition ns_entity :: netstring_entity where
  "ns_entity = \<lparr>ns_body = [], ns_body_length = 0, ns_enqueued = []\<rparr>"

definition ns_to_info :: "int \<Rightarrow> netstring_entity \<Rightarrow> u32 \<Rightarrow> netstring_request_info" where
  "ns_to_info now e i = \<lparr>ns_id = i, ns_time_stamp = stamp now\<rparr>"

text \<open>The static overload of \<open>to_string\<close>, and the member that calls the same expression.\<close>

definition ns_string :: "string \<Rightarrow> string" where
  "ns_string b = to_dec (length b) @ '':'' @ b @ '',''"

definition ns_to_string :: "netstring_entity \<Rightarrow> string" where
  "ns_to_string e = to_dec (length (ns_body e)) @ '':'' @ ns_body e @ '',''"

definition ns_response :: "netstring_exception \<Rightarrow> string" where
  "ns_response x = ns_string
     (case x of
        BAD_LENGTH \<Rightarrow> ''BAD_REQUEST: Non-numeric length''
      | TOO_LONG \<Rightarrow> ''BAD_REQUEST: Request exceeded maximum length''
      | BAD_BODY_SEPARATOR \<Rightarrow> ''BAD_REQUEST: Missing '' @ [CHR 0x27] @ '':'' @ [CHR 0x27] @ '' between length and body''
      | BAD_MESSAGE_SEPARATOR \<Rightarrow> ''BAD_REQUEST: Missing '' @ [CHR 0x27] @ '','' @ [CHR 0x27] @ '' after body'')"

definition ns_timeout :: "netstring_request_info \<Rightarrow> string" where
  "ns_timeout info = ''7:TIMEOUT,''"

definition ns_flush_stream :: "netstring_entity \<Rightarrow> netstring_entity" where
  "ns_flush_stream e = e\<lparr>ns_body_length := 0, ns_body := []\<rparr>"

definition ns_size :: "netstring_entity \<Rightarrow> nat" where
  "ns_size e = length (ns_body e)"

text \<open>
  The loop of \<open>from_stream\<close>: \<open>d\<close> is the input from \<open>start\<close> on, so its length is \<open>length\<close>; \<open>i\<close>
  is the position the length is being read at; \<open>rs\<close> the requests found so far. An exception
  leaves the entity as the mutations before the throw have left it.
\<close>

definition ns_message :: "string \<Rightarrow> netstring_entity" where
  "ns_message b = ns_entity\<lparr>ns_body := b, ns_body_length := 0\<rparr>"

function ns_loop :: "nat \<Rightarrow> netstring_entity \<Rightarrow> string \<Rightarrow> nat \<Rightarrow> netstring_entity list
    \<Rightarrow> netstring_entity \<times> (netstring_exception + netstring_entity list)" where
  "ns_loop max_size e d i rs =
     (if i < length d then
        if ns_body_length e = 0 then
          if \<not> isdigit (d ! i) then
            if d ! i = CHR '':'' then
              (case stoul (ns_body e @ take i d) of
                 Inl _ \<Rightarrow> (e\<lparr>ns_body := ns_body e @ take i d\<rparr>, Inl BAD_LENGTH)
               | Inr n \<Rightarrow>
                   if n > max_size then
                     (e\<lparr>ns_body := ns_body e @ take i d, ns_body_length := n\<rparr>, Inl TOO_LONG)
                   else ns_loop max_size (e\<lparr>ns_body_length := n, ns_body := []\<rparr>) (drop (i + 1) d) 0 rs)
            else if i > 0 then (e, Inl BAD_BODY_SEPARATOR)
            else (e, Inl BAD_LENGTH)
          else ns_loop max_size e d (i + 1) rs
        else
          (let remaining = size_sub (ns_body_length e) (length (ns_body e)) in
           if remaining < length d then
             if d ! remaining = CHR '','' then
               ns_loop max_size (ns_flush_stream e) (drop (remaining + 1) d) 0
                 (rs @ [ns_message (ns_body e @ take remaining d)])
             else (e, Inl BAD_MESSAGE_SEPARATOR)
           else (e\<lparr>ns_body := ns_body e @ d\<rparr>, Inr rs))
      else (e\<lparr>ns_body := ns_body e @ d\<rparr>, Inr rs))"
  by pat_completeness auto
termination
  by (relation "measures [\<lambda>(_, _, d, _, _). length d, \<lambda>(_, _, d, i, _). length d - i]") auto

declare ns_loop.simps [simp del]

definition ns_from_stream :: "nat \<Rightarrow> (netstring_entity, char, netstring_exception, netstring_entity) feed" where
  "ns_from_stream max_size e d = ns_loop max_size e d 0 []"

text \<open>
  \<open>from_string\<close> parses with a fresh entity and no size limit; its two ways to fail are the
  parser's exception, which is not a \<open>std::exception\<close>, and a \<open>runtime_error\<close>.
\<close>

definition ns_from_string :: "string \<Rightarrow> (netstring_exception + std_error) + netstring_entity" where
  "ns_from_string d =
     (case ns_from_stream SIZE_MAX ns_entity d of
        (_, Inl x) \<Rightarrow> Inl (Inl x)
      | (_, Inr []) \<Rightarrow> Inl (Inr (Runtime_error ''Incomplete netstring request''))
      | (_, Inr (r # _)) \<Rightarrow> Inr r)"

text \<open>
  \<open>netstring_client_t::stream_responses\<close>: the collect function of the application is a parameter
  that acts on the application's own state \<open>w\<close> and answers whether more is expected.
\<close>

fun ns_collect :: "('w \<Rightarrow> string \<Rightarrow> 'w \<times> bool) \<Rightarrow> 'w \<times> bool \<Rightarrow> netstring_entity list \<Rightarrow> 'w \<times> bool" where
  "ns_collect collect (w, mr) [] = (w, mr)"
| "ns_collect collect (w, mr) (r # rs) = ns_collect collect (collect w (ns_string (ns_body r))) rs"

definition ns_stream_responses ::
  "('w \<Rightarrow> string \<Rightarrow> 'w \<times> bool) \<Rightarrow> netstring_entity \<Rightarrow> 'w \<times> bool \<Rightarrow> string
     \<Rightarrow> netstring_entity \<times> ('w \<times> bool) \<times> (netstring_exception + nat)" where
  "ns_stream_responses collect response wm message =
     (case ns_from_stream SIZE_MAX response message of
        (e, Inl x) \<Rightarrow> (e, wm, Inl x)
      | (e, Inr rs) \<Rightarrow> (e, ns_collect collect wm rs, Inr (length rs)))"

text \<open>The lines the log functions write; \<open>ts\<close> is the logger's time stamp.\<close>

definition ns_log :: "string \<Rightarrow> u32 \<Rightarrow> netstring_entity \<Rightarrow> string" where
  "ns_log ts i e = to_dec (unat i) @ '' '' @ ts @ '' '' @ ns_body e @ [LF]"

definition ns_exception_log :: "string \<Rightarrow> u32 \<Rightarrow> netstring_exception \<Rightarrow> string" where
  "ns_exception_log ts i x =
     to_dec (unat i) @ '' '' @ ts @ '' BAD_REQ '' @ to_dec (length (ns_response x)) @ [LF]"

definition ns_info_log :: "string \<Rightarrow> netstring_request_info \<Rightarrow> nat \<Rightarrow> string" where
  "ns_info_log ts info response_size =
     to_dec (unat (ns_id info)) @ '' '' @ ts @ '' OK_RESP '' @ to_dec response_size @ [LF]"

section \<open>The byte machine\<close>

text \<open>
  The protocol as its grammar has it, one byte at a time: digits, a colon, that many bytes, a
  comma. A length of zero reads as "no length yet", as it does in the parser.
\<close>

definition ns_step :: "nat \<Rightarrow> netstring_entity \<Rightarrow> char \<Rightarrow> (netstring_entity \<times> netstring_entity list) option" where
  "ns_step max_size e c =
     (if ns_body_length e = 0 then
        if isdigit c then Some (e\<lparr>ns_body := ns_body e @ [c]\<rparr>, [])
        else if c = CHR '':'' then
          (case stoul (ns_body e) of
             Inl _ \<Rightarrow> None
           | Inr n \<Rightarrow> if n > max_size then None else Some (e\<lparr>ns_body_length := n, ns_body := []\<rparr>, []))
        else None
      else if length (ns_body e) < ns_body_length e then Some (e\<lparr>ns_body := ns_body e @ [c]\<rparr>, [])
      else if c = CHR '','' then Some (ns_flush_stream e, [ns_message (ns_body e)])
      else None)"

text \<open>What the parser keeps true of its state: the body never outgrows the announced length.\<close>

definition ns_good :: "netstring_entity \<Rightarrow> bool" where
  "ns_good e \<longleftrightarrow> ns_body_length e < size_range \<and>
     (ns_body_length e = 0 \<or> length (ns_body e) \<le> ns_body_length e)"

lemma ns_good_fresh [simp]: "ns_good ns_entity"
  by (simp add: ns_good_def ns_entity_def)

lemma ns_step_good: "ns_good e \<Longrightarrow> ns_step m e c = Some (e', os) \<Longrightarrow> ns_good e'"
  by (auto simp: ns_step_def ns_good_def ns_flush_stream_def
      split: if_splits sum.splits dest: stoul_range)

lemma ns_run_Cons:
  "run (ns_step m) e (c # cs) =
     (if ns_body_length e = 0 then
        if isdigit c then run (ns_step m) (e\<lparr>ns_body := ns_body e @ [c]\<rparr>) cs
        else if c = CHR '':'' then
          (case stoul (ns_body e) of
             Inl _ \<Rightarrow> None
           | Inr n \<Rightarrow> if n > m then None else run (ns_step m) (e\<lparr>ns_body_length := n, ns_body := []\<rparr>) cs)
        else None
      else if length (ns_body e) < ns_body_length e then run (ns_step m) (e\<lparr>ns_body := ns_body e @ [c]\<rparr>) cs
      else if c = CHR '','' then
        map_option (\<lambda>(s, os). (s, ns_message (ns_body e) # os)) (run (ns_step m) (ns_flush_stream e) cs)
      else None)"
  by (simp add: ns_step_def [of m e c] option.map_id split: sum.split)

lemma ns_run_body:
  "ns_body_length e \<noteq> 0 \<Longrightarrow> length (ns_body e) + length xs \<le> ns_body_length e \<Longrightarrow>
     run (ns_step m) e (xs @ ys) = run (ns_step m) (e\<lparr>ns_body := ns_body e @ xs\<rparr>) ys"
proof (induction xs arbitrary: e)
  case (Cons x xs)
  have "run (ns_step m) e ((x # xs) @ ys) = run (ns_step m) (e\<lparr>ns_body := ns_body e @ [x]\<rparr>) (xs @ ys)"
    using Cons.prems by (simp add: ns_run_Cons del: run.simps(2))
  also have "\<dots> = run (ns_step m) (e\<lparr>ns_body := ns_body e @ x # xs\<rparr>) ys"
    using Cons.prems by (subst Cons.IH) auto
  finally show ?case .
qed simp

lemma ns_run_digits:
  "ns_body_length e = 0 \<Longrightarrow> (\<And>c. c \<in> set xs \<Longrightarrow> isdigit c) \<Longrightarrow>
     run (ns_step m) e (xs @ ys) = run (ns_step m) (e\<lparr>ns_body := ns_body e @ xs\<rparr>) ys"
proof (induction xs arbitrary: e)
  case (Cons x xs)
  have "run (ns_step m) e ((x # xs) @ ys) = run (ns_step m) (e\<lparr>ns_body := ns_body e @ [x]\<rparr>) (xs @ ys)"
    using Cons.prems by (simp add: ns_run_Cons del: run.simps(2))
  also have "\<dots> = run (ns_step m) (e\<lparr>ns_body := ns_body e @ x # xs\<rparr>) ys"
    using Cons.prems by (subst Cons.IH) auto
  finally show ?case .
qed simp

text \<open>The body phase of the byte machine, taken in one go.\<close>

lemma ns_run_whole_body:
  assumes "ns_body_length e \<noteq> 0" and "length (ns_body e) + rem = ns_body_length e"
  shows "run (ns_step m) e d =
    (if rem < length d then
       if d ! rem = CHR '','' then
         map_option (\<lambda>(s, os). (s, ns_message (ns_body e @ take rem d) # os))
           (run (ns_step m) (ns_flush_stream e) (drop (rem + 1) d))
       else None
     else Some (e\<lparr>ns_body := ns_body e @ d\<rparr>, []))"
proof (cases "rem < length d")
  case False
  then have "run (ns_step m) e (d @ []) = Some (e\<lparr>ns_body := ns_body e @ d\<rparr>, [])"
    using assms by (subst ns_run_body) auto
  then show ?thesis using False by simp
next
  case True
  have split: "d = take rem d @ d ! rem # drop (rem + 1) d"
    using True by (simp add: id_take_nth_drop)
  have "run (ns_step m) e d =
      run (ns_step m) (e\<lparr>ns_body := ns_body e @ take rem d\<rparr>) (d ! rem # drop (rem + 1) d)"
    using assms True by (subst split, subst ns_run_body) auto
  then show ?thesis using True assms by (simp add: ns_step_def ns_flush_stream_def)
qed

text \<open>
  The simulation: the parser at position \<open>i\<close> of a length is the byte machine that has already
  taken those \<open>i\<close> digits.
\<close>

lemma ns_loop_run:
  assumes "ns_good e" and "i \<le> length d"
    and "ns_body_length e = 0 \<Longrightarrow> (\<forall>c \<in> set (take i d). isdigit c)"
    and "ns_body_length e \<noteq> 0 \<Longrightarrow> i = 0"
  shows "outcome (\<lambda>s. s) (ns_loop m e d i rs) =
    map_option (\<lambda>(s, os). (s, rs @ os))
      (run (ns_step m) (e\<lparr>ns_body := ns_body e @ take i d\<rparr>) (drop i d))"
  using assms
proof (induction m e d i rs rule: ns_loop.induct)
  case (1 m e d i rs)
  note unfold = ns_loop.simps [of m e d i rs]
  consider (stop) "\<not> i < length d" | (len) "i < length d" "ns_body_length e = 0"
    | (body) "i < length d" "ns_body_length e \<noteq> 0" by blast
  then show ?case
  proof cases
    case stop
    then show ?thesis using "1.prems"(2) by (simp add: ns_loop.simps)
  next
    case len
    then have drop: "drop i d = d ! i # drop (i + 1) d" by (simp add: Cons_nth_drop_Suc)
    have all: "\<forall>c \<in> set (take (i + 1) d). isdigit c" if "isdigit (d ! i)"
      using "1.prems"(3) [OF len(2)] that len(1) by (auto simp: take_Suc_conv_app_nth)
    have good: "ns_good (e\<lparr>ns_body_length := n, ns_body := []\<rparr>)"
      if "stoul (ns_body e @ take i d) = Inr n" for n
      using stoul_range [OF that] by (simp add: ns_good_def)
    show ?thesis
      using "1.IH"(1,2) "1.prems" len drop all good
      by (cases "stoul (ns_body e @ take i d)")
        (auto simp: unfold ns_step_def [of m _ "d ! i"] take_Suc_conv_app_nth option.map_comp comp_def case_prod_beta)
  next
    case body
    then have i0: "i = 0" using "1.prems"(4) by simp
    define rem where "rem = ns_body_length e - length (ns_body e)"
    have rem: "size_sub (ns_body_length e) (length (ns_body e)) = rem"
      and fill: "length (ns_body e) + rem = ns_body_length e"
      using "1.prems"(1) body(2) by (simp_all add: ns_good_def rem_def)
    have "ns_good (ns_flush_stream e)" by (simp add: ns_good_def ns_flush_stream_def)
    then show ?thesis
      using body "1.IH"(3) unfolding i0 unfold [unfolded i0]
      by (auto simp: rem ns_run_whole_body [OF body(2) fill] option.map_comp comp_def case_prod_beta)
  qed
qed

lemma ns_from_stream_run:
  "ns_good e \<Longrightarrow> outcome (\<lambda>s. s) (ns_from_stream m e d) = run (ns_step m) e d"
  by (cases "run (ns_step m) e d") (auto simp: ns_from_stream_def ns_loop_run simp del: outcome_id_Some)

text \<open>The parser meets the streaming contract, for every size limit.\<close>

interpretation netstring: byte_refined "ns_from_stream m" ns_good "ns_step m" for m
  by unfold_locales (auto simp: ns_from_stream_run dest: ns_step_good simp del: outcome_id_Some)

section \<open>Serialising and parsing back\<close>

lemma ns_run_string:
  assumes "b \<noteq> []" and "length b \<le> m" and "length b < size_range"
  shows "run (ns_step m) ns_entity (ns_string b @ ys) =
    map_option (\<lambda>(s, os). (s, ns_message b # os)) (run (ns_step m) ns_entity ys)"
proof -
  let ?len = "ns_entity\<lparr>ns_body := to_dec (length b)\<rparr>"
  let ?body = "ns_entity\<lparr>ns_body_length := length b, ns_body := []\<rparr>"
  have colon: "\<not> isdigit CHR '':''" by (simp add: isdigit_def)
  have "run (ns_step m) ns_entity (ns_string b @ ys) = run (ns_step m) ?len (CHR '':'' # b @ CHR '','' # ys)"
    by (simp add: ns_string_def ns_run_digits to_dec_digits ns_entity_def)
  also have "\<dots> = run (ns_step m) ?body (b @ CHR '','' # ys)"
    using assms colon
    by (cases "run (ns_step m) ?body (b @ CHR '','' # ys)") (auto simp: ns_step_def [of m _ "CHR '':''"] ns_entity_def)
  also have "\<dots> = map_option (\<lambda>(s, os). (s, ns_message b # os)) (run (ns_step m) ns_entity ys)"
    using assms
    by (subst ns_run_whole_body [of _ "length b"]) (auto simp: ns_entity_def ns_flush_stream_def)
  finally show ?thesis .
qed

lemma ns_run_strings:
  assumes "\<forall>b \<in> set bs. b \<noteq> [] \<and> length b \<le> m" and "m < size_range"
  shows "run (ns_step m) ns_entity (concat (map ns_string bs)) = Some (ns_entity, map ns_message bs)"
  using assms by (induction bs) (auto simp: ns_run_string)

lemmas ns_eval = eval_simps ns_entity_def ns_run_Cons ns_flush_stream_def ns_message_def ns_string_def
  ns_from_string_def ns_from_stream_def ns_loop.simps

section \<open>Properties\<close>



text \<open>
  The parser is the protocol's grammar: from every well-formed state it accepts an input
  exactly when the machine that reads one byte at a time does, with the same messages and the
  same state left over.
\<close>

theorem ns_parser_is_byte_machine:
  assumes "ns_good e"
  shows "outcome (\<lambda>s. s) (ns_from_stream max_size e d) = run (ns_step max_size) e d"
  using assms by (rule ns_from_stream_run)

theorem ns_parser_is_byte_machine_witness:
  "ns_good ns_entity \<and>
   outcome (\<lambda>s. s) (ns_from_stream 9 ns_entity ''3:abc,2:x'') =
     Some (ns_entity\<lparr>ns_body := ''x'', ns_body_length := 2\<rparr>, [ns_message ''abc''])"
proof -
  have "run (ns_step 9) ns_entity ''3:abc,2:x'' =
      Some (ns_entity\<lparr>ns_body := ''x'', ns_body_length := 2\<rparr>, [ns_message ''abc''])"
    by (simp add: ns_eval del: run.simps(2))
  then show ?thesis
    by (simp only: ns_parser_is_byte_machine [OF ns_good_fresh, of 9 "''3:abc,2:x''"] ns_good_fresh)
qed

text \<open>
  C8. Serialise and parse back: any number of non-empty bodies within the size limit, serialised
  one after the other and received in pieces cut anywhere, come out as exactly those messages in
  order, and leave the parser ready for the next one.
\<close>

theorem ns_roundtrip:
  assumes "\<forall>b \<in> set bs. b \<noteq> [] \<and> length b \<le> max_size" and "max_size < size_range"
    and "concat pieces = concat (map ns_string bs)"
  shows "feed_all (ns_from_stream max_size) ns_entity pieces = (ns_entity, Inr (map ns_message bs))"
proof -
  have "outcome (\<lambda>s. s) (feed_all (ns_from_stream max_size) ns_entity pieces) =
      run (ns_step max_size) ns_entity (concat (map ns_string bs))"
    by (simp add: netstring.chunks.feed_all_concat ns_from_stream_run assms(3) del: outcome_id_Some)
  then show ?thesis by (simp add: ns_run_strings [OF assms(1,2)])
qed

theorem ns_roundtrip_witness:
  "feed_all (ns_from_stream 5) ns_entity [''3:a'', ''bc,1'', '':,,''] =
     (ns_entity, Inr (map ns_message [''abc'', '','']))"
proof -
  have dec: "ns_string ''abc'' = ''3:abc,''" "ns_string '','' = ''1:,,''"
    by (simp_all add: ns_eval)
  show ?thesis by (rule ns_roundtrip) (simp_all add: dec size_range_def)
qed

text \<open>
  The empty body is the exception: its serialisation is refused by the parser, because the
  announced length 0 is taken for "no length read yet" and the comma for a malformed length.
\<close>

theorem ns_empty_body_rejected:
  "ns_from_string (ns_string []) = Inl (Inl BAD_LENGTH)"
  by (simp add: ns_eval)

lemma ns_run_bounded:
  assumes "ns_good e" and "ns_body_length e \<le> m" and "run (ns_step m) e d = Some (e', rs)"
  shows "(\<forall>r \<in> set rs. 0 < length (ns_body r) \<and> length (ns_body r) \<le> m) \<and> ns_body_length e' \<le> m"
  using assms
proof (induction d arbitrary: e rs)
  case (Cons c d)
  then obtain e1 os os' where st: "ns_step m e c = Some (e1, os)"
    and rest: "run (ns_step m) e1 d = Some (e', os')" and rs: "rs = os @ os'"
    by (auto split: option.splits)
  have "ns_good e1" using Cons.prems(1) st by (rule ns_step_good)
  moreover have "ns_body_length e1 \<le> m \<and> (\<forall>r \<in> set os. 0 < length (ns_body r) \<and> length (ns_body r) \<le> m)"
    using st Cons.prems(1,2)
    by (auto simp: ns_step_def ns_flush_stream_def ns_good_def ns_message_def ns_entity_def
        split: if_splits sum.splits)
  ultimately show ?case using Cons.IH [OF _ _ rest] rs by auto
qed simp

text \<open>
  The size limit on what is accepted: every message the parser hands on has a body of at least
  one and at most \<open>max_size\<close> bytes, and while a body is being collected no more than \<open>max_size\<close>
  bytes of it are held.
\<close>

theorem ns_size_limit:
  assumes "ns_good e" and "ns_body_length e \<le> max_size"
    and "ns_from_stream max_size e d = (e', Inr rs)"
  shows "(\<forall>r \<in> set rs. 0 < length (ns_body r) \<and> length (ns_body r) \<le> max_size) \<and>
         (ns_body_length e' \<noteq> 0 \<longrightarrow> length (ns_body e') \<le> max_size)"
proof -
  have r: "run (ns_step max_size) e d = Some (e', rs)"
    using assms(1,3) by (simp add: netstring.feed_Inr_run)
  have "ns_good e'" using assms(1) r by (rule netstring.run_good)
  then show ?thesis
    using ns_run_bounded [OF assms(1,2) r] by (auto simp: ns_good_def)
qed

theorem ns_size_limit_witness:
  "\<exists>e' rs. ns_from_stream 4 ns_entity ''4:abcd,3:xy'' = (e', Inr rs) \<and> rs \<noteq> [] \<and>
     (\<forall>r \<in> set rs. 0 < length (ns_body r) \<and> length (ns_body r) \<le> 4) \<and>
     (ns_body_length e' \<noteq> 0 \<longrightarrow> length (ns_body e') \<le> 4)"
proof -
  have r: "ns_from_stream 4 ns_entity ''4:abcd,3:xy'' =
      (ns_entity\<lparr>ns_body := ''xy'', ns_body_length := 3\<rparr>, Inr [ns_message ''abcd''])"
    by (simp add: ns_eval)
  show ?thesis
    using ns_size_limit [OF ns_good_fresh _ r] r by (simp add: ns_entity_def)
qed

end
