(* ===== verification/Http_Entity.thy ===== *)
theory Http_Entity
  imports Streaming
begin

text \<open>
  What HTTP requests and responses share (\<open>http_entity_t\<close> of \<open>http_protocol.hpp\<close> and
  \<open>http_protocol.cpp\<close>): the case-insensitive header map, the entity's fields with its streaming
  state, \<open>flush_stream\<close>, and \<open>consume_until\<close>, which collects bytes up to a delimiter or up to an
  announced length across calls. The pointers \<open>cursor\<close> and \<open>end\<close> are the list of bytes not yet
  consumed, which the operations take and return.

  The locale \<open>http_parser\<close> is the shape the two \<open>from_stream\<close> loops have in common: what their
  dispatch on the parser state must promise so that the streaming contract of \<open>Streaming\<close> holds.
\<close>

section \<open>Headers\<close>

type_synonym headers_t = "(string \<times> string) list"

text \<open>
  \<open>headers_t\<close> is an \<open>unordered_map\<close> with case-insensitive keys. Its entries are listed in the order
  a traversal visits them; the statements about serialised headers hold for every such list.
\<close>

definition caseless_eq :: "string \<Rightarrow> string \<Rightarrow> bool" where
  "caseless_eq lhs rhs \<longleftrightarrow> length lhs = length rhs \<and> list_all2 (\<lambda>a b. tolower a = tolower b) lhs rhs"

fun hdr_find :: "string \<Rightarrow> headers_t \<Rightarrow> string option" where
  "hdr_find k [] = None"
| "hdr_find k ((k', v) # hs) = (if caseless_eq k' k then Some v else hdr_find k hs)"

text \<open>\<open>insert\<close> and \<open>emplace\<close> keep the entry that is already there.\<close>

definition hdr_insert :: "string \<times> string \<Rightarrow> headers_t \<Rightarrow> headers_t" where
  "hdr_insert kv hs = (if hdr_find (fst kv) hs = None then hs @ [kv] else hs)"

lemma caseless_eq_map: "caseless_eq a b \<longleftrightarrow> map tolower a = map tolower b"
  by (auto simp: caseless_eq_def list_all2_conv_all_nth list_eq_iff_nth_eq)

lemma caseless_refl [simp]: "caseless_eq a a"
  by (simp add: caseless_eq_map)

lemma caseless_sym: "caseless_eq a b \<longleftrightarrow> caseless_eq b a"
  by (auto simp: caseless_eq_map)

lemma hdr_find_None: "hdr_find k hs = None \<longleftrightarrow> (\<forall>(k', v) \<in> set hs. \<not> caseless_eq k' k)"
  by (induction hs) (auto split: if_splits)

lemma hdr_find_append:
  "hdr_find k (hs @ hs') = (case hdr_find k hs of None \<Rightarrow> hdr_find k hs' | Some v \<Rightarrow> Some v)"
  by (induction hs) auto

lemma hdr_find_insert:
  "hdr_find k (hdr_insert (k', v) hs) =
     (case hdr_find k hs of Some u \<Rightarrow> Some u | None \<Rightarrow> if caseless_eq k' k then Some v else None)"
proof (cases "hdr_find k' hs")
  case None
  then show ?thesis by (simp add: hdr_insert_def hdr_find_append split: option.split)
next
  case (Some u)
  then have "caseless_eq k' k \<Longrightarrow> hdr_find k hs \<noteq> None"
    by (induction hs) (auto simp: caseless_eq_map split: if_splits)
  then show ?thesis using Some by (auto simp: hdr_insert_def split: option.split)
qed

text \<open>No two entries of a header map have keys that differ only in case.\<close>

definition hdr_wf :: "headers_t \<Rightarrow> bool" where
  "hdr_wf hs \<longleftrightarrow> distinct (map (\<lambda>kv. map tolower (fst kv)) hs)"

lemma hdr_wf_Nil [simp]: "hdr_wf []"
  by (simp add: hdr_wf_def)

lemma hdr_wf_insert: "hdr_wf hs \<Longrightarrow> hdr_wf (hdr_insert kv hs)"
  by (auto simp: hdr_wf_def hdr_insert_def hdr_find_None caseless_eq_map)

lemma hdr_wf_find: "hdr_wf (hs @ kv # hs') \<Longrightarrow> hdr_find (fst kv) hs = None"
proof -
  assume "hdr_wf (hs @ kv # hs')"
  then have "map tolower (fst kv) \<notin> (\<lambda>kv. map tolower (fst kv)) ` set hs" by (simp add: hdr_wf_def)
  then have "\<forall>x \<in> set hs. map tolower (fst x) \<noteq> map tolower (fst kv)" by (metis image_eqI)
  then show ?thesis by (auto simp: hdr_find_None caseless_eq_map)
qed

section \<open>The entity\<close>

datatype state_t = METHOD | MESSAGE | CODE | PATH | VERSION | HEADERS | BODY | CHUNK_LENGTH | CHUNK | TRAILER

record http_entity =
  version :: string
  headers :: headers_t
  body :: string
  delimiter :: string
  partial_buffer :: string
  partial_length :: nat
  parse_state :: state_t
  body_length :: nat
  consumed :: nat

definition SUPPORTED_VERSIONS :: "string list" where
  "SUPPORTED_VERSIONS = [''HTTP/1.0'', ''HTTP/1.1'']"

definition http_entity_make :: "string \<Rightarrow> headers_t \<Rightarrow> string \<Rightarrow> http_entity" where
  "http_entity_make v hs b =
     \<lparr>version = v, headers = hs, body = b, delimiter = '' '', partial_buffer = [],
      partial_length = 0, parse_state = METHOD, body_length = 0, consumed = 0\<rparr>"

definition entity_flush_stream :: "state_t \<Rightarrow> 'a http_entity_scheme \<Rightarrow> 'a http_entity_scheme" where
  "entity_flush_stream s e =
     e\<lparr>version := [], headers := [], body := [], delimiter := '' '', partial_buffer := [],
       partial_length := 0, parse_state := s, body_length := 0, consumed := 0\<rparr>"

section \<open>consume\_until\<close>

text \<open>The character \<open>*(delimiter + i)\<close> of a NUL-terminated literal.\<close>

definition cstr_at :: "string \<Rightarrow> nat \<Rightarrow> char" where
  "cstr_at dl i = (if i < length dl then dl ! i else NUL)"

text \<open>
  The loop that looks for the delimiter: how much of it has matched and how many bytes were
  passed. After a mismatch the match starts over with the next byte.
\<close>

fun scan :: "string \<Rightarrow> nat \<Rightarrow> string \<Rightarrow> nat \<times> nat" where
  "scan dl pl [] = (pl, 0)"
| "scan dl pl (x # xs) =
     (if cstr_at dl pl = NUL then (pl, 0)
      else let (pl', n) = scan dl (if cstr_at dl pl \<noteq> x then 0 else pl + 1) xs in (pl', n + 1))"

text \<open>
  \<open>consume_until\<close> on the bytes \<open>d\<close> from the cursor on: the new entity, whether the piece is whole,
  and the bytes after it.
\<close>

definition consume_until :: "'a http_entity_scheme \<Rightarrow> string \<Rightarrow> 'a http_entity_scheme \<times> bool \<times> string" where
  "consume_until e d =
     (let (skip, bl) =
            (if body_length e \<noteq> 0 then
               if length d > body_length e then (body_length e, 0)
               else (length d, body_length e - length d)
             else (0, 0));
          (pl, n) = scan (delimiter e) (partial_length e) (drop skip d);
          len = skip + n
      in if cstr_at (delimiter e) pl = NUL \<and> bl = 0 then
           (e\<lparr>partial_buffer :=
                 (if len < pl then take (length (partial_buffer e) - (pl - len)) (partial_buffer e)
                  else partial_buffer e @ take (len - pl) d),
               partial_length := 0, body_length := bl, consumed := size_add (consumed e) len\<rparr>,
            True, drop len d)
         else
           (e\<lparr>partial_buffer := partial_buffer e @ take len d, partial_length := pl,
               body_length := bl\<rparr>,
            False, d))"

subsection \<open>Facts about the scan\<close>

lemma cstr_at_space [simp]: "cstr_at '' '' i = (if i = 0 then CHR '' '' else NUL)" "CHR '' '' \<noteq> NUL"
  by (auto simp: cstr_at_def NUL_def)

lemma cstr_at_CRLF [simp]: "cstr_at CRLF i = (if i = 0 then CR else if i = 1 then LF else NUL)"
    "CR \<noteq> NUL" "LF \<noteq> NUL" "CR \<noteq> LF"
  by (auto simp: cstr_at_def CRLF_def NUL_def CR_def LF_def nth_Cons')

lemma cstr_at_empty [simp]: "cstr_at [] i = NUL"
  by (simp add: cstr_at_def)

lemma scan_le: "snd (scan dl pl d) \<le> length d"
  by (induction dl pl d rule: scan.induct) (auto split: prod.splits)

lemma scan_miss: "cstr_at dl (fst (scan dl pl d)) \<noteq> NUL \<Longrightarrow> snd (scan dl pl d) = length d"
  by (induction dl pl d rule: scan.induct) (auto split: prod.splits if_splits)

lemma scan_append:
  "scan dl pl (xs @ ys) =
     (if cstr_at dl (fst (scan dl pl xs)) = NUL then scan dl pl xs
      else (fst (scan dl (fst (scan dl pl xs)) ys), length xs + snd (scan dl (fst (scan dl pl xs)) ys)))"
proof (induction dl pl xs rule: scan.induct)
  case (1 dl pl)
  then show ?case by (cases ys) auto
next
  case (2 dl pl x xs)
  then show ?case by (auto split: prod.splits simp: Let_def)
qed

lemma scan_bound: "pl \<le> length dl \<Longrightarrow> fst (scan dl pl d) \<le> length dl"
proof (induction dl pl d rule: scan.induct)
  case (2 dl pl x xs)
  then show ?case by (auto simp: cstr_at_def split: prod.splits if_splits)
qed simp

lemma scan_hit: "cstr_at dl pl = NUL \<Longrightarrow> scan dl pl d = (pl, 0)"
  by (cases d) auto

lemma scan_zero: "snd (scan dl pl d) = 0 \<Longrightarrow> fst (scan dl pl d) = pl"
  by (cases d) (auto split: prod.splits if_splits)

subsection \<open>Facts about consume\_until\<close>

text \<open>The two ways the buffer is completed are one: the delimiter is cut off the end.\<close>

lemma cut_delimiter:
  "len \<le> length d \<Longrightarrow>
     (if len < pl then take (length pb - (pl - len)) pb else pb @ take (len - pl) d) =
       take (length pb + len - pl) (pb @ take len d)"
  by (auto simp: min_def)

text \<open>
  What a call has seen of the delimiter, and whether the piece is whole: the announced bytes
  are there and the delimiter matched after them.
\<close>

definition scanned :: "'a http_entity_scheme \<Rightarrow> string \<Rightarrow> nat \<times> nat" where
  "scanned e d = scan (delimiter e) (partial_length e) (drop (body_length e) d)"

definition whole :: "'a http_entity_scheme \<Rightarrow> string \<Rightarrow> bool" where
  "whole e d \<longleftrightarrow> body_length e \<le> length d \<and> cstr_at (delimiter e) (fst (scanned e d)) = NUL"

definition taken :: "'a http_entity_scheme \<Rightarrow> string \<Rightarrow> nat" where
  "taken e d = body_length e + snd (scanned e d)"

lemma taken_le: "whole e d \<Longrightarrow> taken e d \<le> length d"
  using scan_le [of "delimiter e" "partial_length e" "drop (body_length e) d"]
  by (auto simp: taken_def whole_def scanned_def)

lemma consume_until_eq:
  "consume_until e d =
     (if whole e d then
        (e\<lparr>partial_buffer :=
             take (length (partial_buffer e) + taken e d - fst (scanned e d)) (partial_buffer e @ take (taken e d) d),
           partial_length := 0, body_length := 0, consumed := size_add (consumed e) (taken e d)\<rparr>,
         True, drop (taken e d) d)
      else
        (e\<lparr>partial_buffer := partial_buffer e @ d, partial_length := fst (scanned e d),
           body_length := body_length e - length d\<rparr>,
         False, d))"
proof -
  let ?bl = "body_length e"
  let ?skip = "if ?bl \<le> length d then ?bl else length d"
  have sb: "(if ?bl \<noteq> 0 then if length d > ?bl then (?bl, 0) else (length d, ?bl - length d) else (0, 0))
      = (?skip, ?bl - length d)"
    by auto
  have dr: "drop ?skip d = drop ?bl d" by simp
  show ?thesis
  proof (cases "whole e d")
    case True
    then have "?skip + snd (scanned e d) = taken e d" "?bl - length d = 0" "cstr_at (delimiter e) (fst (scanned e d)) = NUL"
      by (simp_all add: whole_def taken_def)
    then show ?thesis
      using True taken_le [OF True]
      unfolding consume_until_def sb Let_def case_prod_beta fst_conv snd_conv dr scanned_def [symmetric]
      by (simp add: cut_delimiter)
  next
    case False
    then have nohit: "\<not> (cstr_at (delimiter e) (fst (scanned e d)) = NUL \<and> ?bl - length d = 0)"
      by (auto simp: whole_def)
    have "?skip + snd (scanned e d) \<ge> length d"
      using nohit scan_miss [of "delimiter e" "partial_length e" "drop ?bl d"]
      by (auto simp: scanned_def)
    then have "take (?skip + snd (scanned e d)) d = d" by simp
    then show ?thesis
      using False nohit
      unfolding consume_until_def sb Let_def case_prod_beta fst_conv snd_conv dr scanned_def [symmetric]
      by (simp only: if_False)
  qed
qed

lemma scanned_append_whole: "whole e xs \<Longrightarrow> scanned e (xs @ ys) = scanned e xs"
  by (simp add: whole_def scanned_def scan_append)

lemma whole_append: "whole e xs \<Longrightarrow> whole e (xs @ ys)"
  by (auto simp: scanned_append_whole whole_def [of e "xs @ ys"]) (simp_all add: whole_def)

text \<open>A piece that is whole stays as it is when more bytes follow.\<close>

lemma consume_until_whole:
  assumes "consume_until e xs = (e1, True, r)"
  shows "consume_until e (xs @ ys) = (e1, True, r @ ys)"
proof -
  have w: "whole e xs" using assms by (simp add: consume_until_eq split: if_splits)
  then have t: "taken e (xs @ ys) = taken e xs" by (simp add: taken_def scanned_append_whole)
  show ?thesis
    using assms taken_le [OF w]
    by (simp add: consume_until_eq w whole_append scanned_append_whole t)
qed

text \<open>
  Two entities that differ at most in \<open>consumed\<close> parse alike: the counter is only compared with
  the size limit.
\<close>

definition forget :: "'a http_entity_scheme \<Rightarrow> 'a http_entity_scheme" where
  "forget e = e\<lparr>consumed := 0\<rparr>"

lemma forget_forget [simp]: "forget (forget e) = forget e"
  by (simp add: forget_def)

lemma scanned_rest:
  assumes "\<not> whole e xs" and "consume_until e xs = (e1, f, r)"
  shows "whole e (xs @ ys) = whole e1 ys" and "fst (scanned e (xs @ ys)) = fst (scanned e1 ys)"
    and "whole e1 ys \<Longrightarrow> taken e (xs @ ys) = length xs + taken e1 ys"
proof -
  let ?bl = "body_length e"
  have e1: "e1 = e\<lparr>partial_buffer := partial_buffer e @ xs, partial_length := fst (scanned e xs),
      body_length := ?bl - length xs\<rparr>"
    using assms by (auto simp: consume_until_eq)
  have sc: "scanned e (xs @ ys) =
      (if ?bl < length xs then (fst (scanned e1 ys), length xs - ?bl + snd (scanned e1 ys)) else scanned e1 ys)"
    using assms(1) by (auto simp: e1 scanned_def scan_append whole_def scan_hit)
  show "fst (scanned e (xs @ ys)) = fst (scanned e1 ys)" by (simp add: sc)
  then show "whole e (xs @ ys) = whole e1 ys" by (auto simp: whole_def e1)
  show "whole e1 ys \<Longrightarrow> taken e (xs @ ys) = length xs + taken e1 ys"
    by (auto simp: taken_def sc e1)
qed

text \<open>A piece that is not whole yet is completed by the next call as if it had come in one.\<close>

lemma consume_until_partial:
  assumes "consume_until e xs = (e1, False, r)"
  shows "(\<exists>e2 e2' r2. consume_until e1 ys = (e2, True, r2) \<and> consume_until e (xs @ ys) = (e2', True, r2) \<and>
            forget e2' = forget e2) \<or>
         (\<exists>e2 r2 r2'. consume_until e1 ys = (e2, False, r2) \<and> consume_until e (xs @ ys) = (e2, False, r2'))"
proof -
  have nw: "\<not> whole e xs" using assms by (simp add: consume_until_eq split: if_splits)
  note rest = scanned_rest [OF nw assms, of ys]
  have e1: "e1 = e\<lparr>partial_buffer := partial_buffer e @ xs, partial_length := fst (scanned e xs),
      body_length := body_length e - length xs\<rparr>"
    using assms nw by (auto simp: consume_until_eq)
  show ?thesis
  proof (cases "whole e1 ys")
    case True
    have pb1: "partial_buffer e1 = partial_buffer e @ xs" by (simp add: e1)
    have "take (length xs + taken e1 ys) (xs @ ys) = xs @ take (taken e1 ys) ys" by simp
    then have buf: "take (length (partial_buffer e) + taken e (xs @ ys) - n) (partial_buffer e @ take (taken e (xs @ ys)) (xs @ ys))
        = take (length (partial_buffer e1) + taken e1 ys - n) (partial_buffer e1 @ take (taken e1 ys) ys)" for n
      by (simp only: rest(3) [OF True] pb1 length_append append_assoc add.assoc)
    have "drop (taken e (xs @ ys)) (xs @ ys) = drop (taken e1 ys) ys"
      by (simp add: rest(3) [OF True])
    then show ?thesis
      unfolding consume_until_eq [of e1 ys] consume_until_eq [of e "xs @ ys"] rest(1,2) buf
      using True by (simp add: forget_def) (simp add: e1)
  next
    case False
    then show ?thesis
      using rest by (simp add: consume_until_eq) (simp add: e1)
  qed
qed

lemma forget_eqE:
  assumes "forget e = forget e'"
  obtains n where "e' = e\<lparr>consumed := n\<rparr>"
proof -
  have "(forget e)\<lparr>consumed := consumed e'\<rparr> = (forget e')\<lparr>consumed := consumed e'\<rparr>"
    using assms by simp
  then have "e' = e\<lparr>consumed := consumed e'\<rparr>" by (cases e') (simp add: forget_def)
  then show ?thesis by (rule that)
qed

lemma forget_set_buffer:
  assumes "forget e = forget e'"
  shows "forget (e\<lparr>partial_buffer := b\<rparr>) = forget (e'\<lparr>partial_buffer := b\<rparr>)"
proof -
  obtain n where "e' = e\<lparr>consumed := n\<rparr>" using assms by (rule forget_eqE)
  then show ?thesis by (simp add: forget_def)
qed

lemma consume_until_forget:
  assumes "forget e = forget e'" and "consume_until e d = (e1, f, r)"
  shows "\<exists>e1'. consume_until e' d = (e1', f, r) \<and> forget e1' = forget e1"
proof -
  obtain n where "e' = e\<lparr>consumed := n\<rparr>" using assms(1) by (rule forget_eqE)
  then show ?thesis
    using assms(2) by (auto simp: consume_until_eq forget_def whole_def scanned_def taken_def split: if_splits)
qed

subsection \<open>Pieces that arrive whole\<close>

lemma scan_CRLF: "CR \<notin> set l \<Longrightarrow> scan CRLF 0 (l @ CR # LF # r) = (2, length l + 2)"
proof (induction l)
  case Nil
  show ?case by (cases r) simp_all
next
  case (Cons x l)
  then show ?case by auto
qed

lemma scan_space: "CHR '' '' \<notin> set l \<Longrightarrow> scan '' '' 0 (l @ CHR '' '' # r) = (1, length l + 1)"
proof (induction l)
  case Nil
  show ?case by (cases r) simp_all
next
  case (Cons x l)
  then show ?case by auto
qed

lemma consume_line:
  assumes "delimiter e = CRLF" "partial_length e = 0" "body_length e = 0" "partial_buffer e = []" "CR \<notin> set l"
  shows "consume_until e (l @ CR # LF # r) =
    (e\<lparr>partial_buffer := l, consumed := size_add (consumed e) (length l + 2)\<rparr>, True, r)"
  using assms scan_CRLF [OF assms(5), of r]
  by (simp add: consume_until_eq whole_def scanned_def taken_def)

lemma consume_word:
  assumes "delimiter e = '' ''" "partial_length e = 0" "body_length e = 0" "partial_buffer e = []"
    "CHR '' '' \<notin> set l"
  shows "consume_until e (l @ CHR '' '' # r) =
    (e\<lparr>partial_buffer := l, consumed := size_add (consumed e) (length l + 1)\<rparr>, True, r)"
  using assms scan_space [OF assms(5), of r]
  by (simp add: consume_until_eq whole_def scanned_def taken_def)

lemma consume_bytes:
  assumes "delimiter e = []" "partial_length e = 0" "body_length e = length b" "partial_buffer e = []"
  shows "consume_until e (b @ r) =
    (e\<lparr>partial_buffer := b, body_length := 0, consumed := size_add (consumed e) (length b)\<rparr>, True, r)"
  using assms by (simp add: consume_until_eq whole_def scanned_def taken_def scan_hit)

lemma consume_nothing:
  assumes "delimiter e = '' ''" "partial_length e = 0" "body_length e = 0" "partial_buffer e = []"
  shows "consume_until e [] = (e, False, [])"
  using assms by (simp add: consume_until_eq whole_def scanned_def)

section \<open>Termination of the from\_stream loops\<close>

text \<open>
  The loops run \<open>while (start != end)\<close>, and neither pointer changes inside: they end only because
  \<open>consume_until\<close> runs out of bytes. A turn may consume nothing when the delimiter is the empty
  literal (a body that is complete); the rank shows that such turns come to an end too.
\<close>

definition state_rank :: "state_t \<Rightarrow> nat" where
  "state_rank s = (case s of MESSAGE \<Rightarrow> 4 | HEADERS \<Rightarrow> 3 | TRAILER \<Rightarrow> 3 | CHUNK \<Rightarrow> 2 | _ \<Rightarrow> 1)"

definition idle_rank :: "'a http_entity_scheme \<Rightarrow> nat" where
  "idle_rank e =
     (if cstr_at (delimiter e) 0 = NUL
      then (if partial_buffer e = [] then 0 else 10) + state_rank (parse_state e) else 0)"

definition parse_rank :: "'a http_entity_scheme \<Rightarrow> string \<Rightarrow> nat" where
  "parse_rank e d = 40 * length d + (if partial_length e = 0 then 0 else 20) + idle_rank e"

lemma idle_rank_le: "idle_rank e \<le> 14"
  by (simp add: idle_rank_def state_rank_def split: state_t.split)

lemma consume_until_idle:
  assumes "consume_until e d = (e1, True, d')"
  shows "length d' < length d \<or>
    d' = d \<and> delimiter e1 = delimiter e \<and> (partial_length e = 0 \<longrightarrow>
      cstr_at (delimiter e) 0 = NUL \<and> idle_rank e1 = idle_rank e)"
proof (cases "taken e d = 0")
  case True
  have w: "whole e d" using assms by (simp add: consume_until_eq split: if_splits)
  have "fst (scanned e d) = partial_length e"
    using True by (auto simp: taken_def scanned_def intro: scan_zero)
  then show ?thesis
    using assms w True
    by (cases "partial_length e = 0") (auto simp: consume_until_eq whole_def idle_rank_def)
next
  case False
  have w: "whole e d" using assms by (simp add: consume_until_eq split: if_splits)
  then show ?thesis using assms False taken_le [OF w] by (auto simp: consume_until_eq)
qed

lemma parse_rank_decreases:
  assumes c: "consume_until e d = (e1, True, d')" and pl: "partial_length e2 = 0"
    and r: "cstr_at (delimiter e1) 0 = NUL \<longrightarrow> idle_rank e2 < idle_rank e1"
  shows "parse_rank e2 d' < parse_rank e d"
proof (cases "length d' < length d")
  case True
  then show ?thesis using idle_rank_le [of e2] by (simp add: parse_rank_def pl)
next
  case False
  then have idle: "d' = d" "delimiter e1 = delimiter e"
    "partial_length e = 0 \<longrightarrow> cstr_at (delimiter e) 0 = NUL \<and> idle_rank e1 = idle_rank e"
    using consume_until_idle [OF c] by auto
  then show ?thesis using r pl idle_rank_le [of e2] by (auto simp: parse_rank_def)
qed

lemma consume_until_partial_length: "consume_until e d = (e1, True, d') \<Longrightarrow> partial_length e1 = 0"
  by (auto simp: consume_until_eq split: if_splits)

section \<open>The common shape of the from\_stream loops\<close>

text \<open>
  \<open>dispatch\<close> is the switch on the parser state once a piece is whole, \<open>stalled\<close> the check made
  when the input runs out in the middle of one. The laws: the switch makes progress and does not
  look at \<open>consumed\<close>; the invariant \<open>inv\<close> is kept; and what is refused as stalled would have been
  refused as well had the rest come with it.
\<close>

locale http_parser =
  fixes loop :: "'a http_entity_scheme \<Rightarrow> string \<Rightarrow> 'o list \<Rightarrow> 'a http_entity_scheme \<times> ('e + 'o list)"
    and dispatch :: "'a http_entity_scheme \<Rightarrow> 'a http_entity_scheme \<times> ('e + 'o list)"
    and stalled :: "'a http_entity_scheme \<Rightarrow> 'e option"
    and inv :: "'a http_entity_scheme \<Rightarrow> bool"
  assumes loop_unfold: "loop e d rs =
      (case consume_until e d of
         (e1, found, d') \<Rightarrow>
           if \<not> found then (case stalled e1 of Some x \<Rightarrow> (e1, Inl x) | None \<Rightarrow> (e1, Inr rs))
           else (case dispatch e1 of
                   (e2, Inl x) \<Rightarrow> (e2, Inl x)
                 | (e2, Inr os) \<Rightarrow> loop (e2\<lparr>partial_buffer := []\<rparr>) d' (rs @ os)))"
    and dispatch_progress: "partial_length e1 = 0 \<Longrightarrow> dispatch e1 = (e2, Inr os) \<Longrightarrow>
      partial_length e2 = 0 \<and>
      (cstr_at (delimiter e1) 0 = NUL \<longrightarrow> idle_rank (e2\<lparr>partial_buffer := []\<rparr>) < idle_rank e1)"
    and dispatch_forget: "forget e = forget e' \<Longrightarrow> outcome forget (dispatch e) = outcome forget (dispatch e')"
    and stalled_forget: "forget e = forget e' \<Longrightarrow> stalled e = stalled e'"
    and inv_dispatch: "inv e \<Longrightarrow> consume_until e d = (e1, True, d') \<Longrightarrow> dispatch e1 = (e2, Inr os) \<Longrightarrow>
      inv (e2\<lparr>partial_buffer := []\<rparr>)"
    and inv_stall: "inv e \<Longrightarrow> consume_until e d = (e1, False, d') \<Longrightarrow> inv e1"
    and stalled_rejects: "inv e \<Longrightarrow> \<not> whole e [] \<Longrightarrow> stalled e \<noteq> None \<Longrightarrow> outcome forget (loop e d rs) = None"
begin

lemma rank_decreases:
  assumes "consume_until e d = (e1, True, d')" and "dispatch e1 = (e2, Inr os)"
  shows "parse_rank (e2\<lparr>partial_buffer := []\<rparr>) d' < parse_rank e d"
  using dispatch_progress [OF consume_until_partial_length [OF assms(1)] assms(2)]
  by (intro parse_rank_decreases [OF assms(1)]) auto

text \<open>Induction along the turns of the loop.\<close>

lemma loop_induct [case_names turn]:
  assumes "\<And>e d. (\<And>e1 d' e2 os. consume_until e d = (e1, True, d') \<Longrightarrow> dispatch e1 = (e2, Inr os) \<Longrightarrow>
      P (e2\<lparr>partial_buffer := []\<rparr>) d') \<Longrightarrow> P e d"
  shows "P e d"
proof (induction "parse_rank e d" arbitrary: e d rule: less_induct)
  case less
  show ?case by (rule assms) (rule less.hyps [OF rank_decreases])
qed

text \<open>One turn of the loop, case by case.\<close>

lemma loop_cases:
  obtains (stall) e1 where "consume_until e d = (e1, False, d)"
      "\<And>rs. loop e d rs = (case stalled e1 of Some x \<Rightarrow> (e1, Inl x) | None \<Rightarrow> (e1, Inr rs))"
  | (fail) e1 d' e2 x where "consume_until e d = (e1, True, d')" "dispatch e1 = (e2, Inl x)"
      "\<And>rs. loop e d rs = (e2, Inl x)"
  | (turn) e1 d' e2 os where "consume_until e d = (e1, True, d')" "dispatch e1 = (e2, Inr os)"
      "\<And>rs. loop e d rs = loop (e2\<lparr>partial_buffer := []\<rparr>) d' (rs @ os)"
proof (cases "whole e d")
  case False
  then obtain e1 where c: "consume_until e d = (e1, False, d)" by (simp add: consume_until_eq)
  then show ?thesis by (intro stall) (auto simp: loop_unfold [of e d])
next
  case True
  then obtain e1 d' where c: "consume_until e d = (e1, True, d')" by (simp add: consume_until_eq)
  obtain e2 r where d: "dispatch e1 = (e2, r)" by fastforce
  show ?thesis
  proof (cases r)
    case (Inl x)
    then show ?thesis using c d by (intro fail) (auto simp: loop_unfold [of e d])
  next
    case (Inr os)
    then show ?thesis using c d by (intro turn) (auto simp: loop_unfold [of e d])
  qed
qed

lemma loop_acc:
  "outcome nrm (loop e d rs) = map_option (\<lambda>(s, os). (s, rs @ os)) (outcome nrm (loop e d []))"
proof (induction e d arbitrary: rs rule: loop_induct)
  case (turn e d)
  show ?case
  proof (cases rule: loop_cases [of e d])
    case (turn e1 d' e2 os)
    then show ?thesis
      using turn.IH [OF turn(1,2), of "rs @ os"] turn.IH [OF turn(1,2), of os]
      by (simp add: option.map_comp comp_def case_prod_beta)
  qed (auto split: option.split)
qed

text \<open>The counter \<open>consumed\<close> makes no difference.\<close>

lemma loop_forget: "forget e = forget e' \<Longrightarrow> outcome forget (loop e d rs) = outcome forget (loop e' d rs)"
proof (induction e d arbitrary: e' rs rule: loop_induct)
  case (turn e d)
  note same = turn.prems
  show ?case
  proof (cases rule: loop_cases [of e d])
    case (stall e1)
    then obtain e1' where c': "consume_until e' d = (e1', False, d)" and f: "forget e1' = forget e1"
      using consume_until_forget [OF same] by blast
    then show ?thesis
      using stall stalled_forget [OF f] by (simp add: loop_unfold [of e' d] split: option.split)
  next
    case (fail e1 d' e2 x)
    then obtain e1' where c': "consume_until e' d = (e1', True, d')" and f: "forget e1' = forget e1"
      using consume_until_forget [OF same] by blast
    then have "outcome forget (dispatch e1') = None" using dispatch_forget [OF f] fail by simp
    then show ?thesis using c' fail by (auto simp: loop_unfold [of e' d] outcome_eq_None)
  next
    case (turn e1 d' e2 os)
    then obtain e1' where c': "consume_until e' d = (e1', True, d')" and f: "forget e1' = forget e1"
      using consume_until_forget [OF same] by blast
    then have "outcome forget (dispatch e1') = Some (forget e2, os)" using dispatch_forget [OF f] turn by simp
    then obtain e2' where d': "dispatch e1' = (e2', Inr os)" and "forget e2 = forget e2'"
      by (auto simp: outcome_eq_Some)
    then have "forget (e2\<lparr>partial_buffer := []\<rparr>) = forget (e2'\<lparr>partial_buffer := []\<rparr>)"
      by (intro forget_set_buffer)
    then show ?thesis using turn.IH [OF turn(1,2)] turn(3) c' d' by (simp add: loop_unfold [of e' d])
  qed
qed

text \<open>Input that stops in the middle of a piece: the next call goes on where it was.\<close>

lemma loop_partial:
  assumes "consume_until e xs = (e1, False, r)"
  shows "outcome forget (loop e (xs @ ys) rs) = outcome forget (loop e1 ys rs)"
proof -
  consider (whole) e2 e2' r2 where "consume_until e1 ys = (e2, True, r2)"
      "consume_until e (xs @ ys) = (e2', True, r2)" "forget e2' = forget e2"
    | (stall) e2 r2 r2' where "consume_until e1 ys = (e2, False, r2)" "consume_until e (xs @ ys) = (e2, False, r2')"
    using consume_until_partial [OF assms, of ys] by blast
  then show ?thesis
  proof cases
    case stall
    then show ?thesis by (simp add: loop_unfold [of e] loop_unfold [of e1])
  next
    case whole
    show ?thesis
    proof (cases "outcome forget (dispatch e2)")
      case None
      then show ?thesis
        using whole dispatch_forget [OF whole(3)]
        by (auto simp: loop_unfold [of e] loop_unfold [of e1] outcome_eq_None)
    next
      case (Some q)
      then obtain e3 e3' os where "dispatch e2 = (e3, Inr os)" "dispatch e2' = (e3', Inr os)" "forget e3 = forget e3'"
        using dispatch_forget [OF whole(3)] by (cases q) (auto simp: outcome_eq_Some)
      moreover from this have "forget (e3'\<lparr>partial_buffer := []\<rparr>) = forget (e3\<lparr>partial_buffer := []\<rparr>)"
        by (intro forget_set_buffer) simp
      then have "outcome forget (loop (e3'\<lparr>partial_buffer := []\<rparr>) r2 (rs @ os)) =
          outcome forget (loop (e3\<lparr>partial_buffer := []\<rparr>) r2 (rs @ os))" by (rule loop_forget)
      ultimately show ?thesis
        using whole by (simp add: loop_unfold [of e "xs @ ys"] loop_unfold [of e1 ys])
    qed
  qed
qed

lemma stall_not_whole: "consume_until e d = (e1, False, d') \<Longrightarrow> \<not> whole e1 []"
  using scanned_rest(1) [of e d e1 False d' "[]"] by (auto simp: consume_until_eq split: if_splits)

lemma loop_append:
  "inv e \<Longrightarrow> outcome forget (loop e (xs @ ys) rs) =
     outcome forget (case loop e xs rs of (e', Inl x) \<Rightarrow> (e', Inl x) | (e', Inr rs') \<Rightarrow> loop e' ys rs')"
proof (induction e xs arbitrary: rs rule: loop_induct)
  case (turn e xs)
  show ?case
  proof (cases rule: loop_cases [of e xs])
    case (stall e1)
    have "inv e1" using turn.prems stall(1) by (rule inv_stall)
    then show ?thesis
      using stall loop_partial [OF stall(1)] stalled_rejects [OF _ stall_not_whole [OF stall(1)]]
      by (cases "stalled e1") auto
  next
    case (fail e1 d' e2 x)
    then show ?thesis using consume_until_whole [OF fail(1)] by (simp add: loop_unfold [of e "xs @ ys"])
  next
    case (turn e1 d' e2 os)
    then show ?thesis
      using turn.IH [OF turn(1,2)] inv_dispatch [OF turn.prems turn(1,2)]
        consume_until_whole [OF turn(1), of ys]
      by (simp add: loop_unfold [of e "xs @ ys"])
  qed
qed

text \<open>The states a call leaves behind.\<close>

definition resting :: "'a http_entity_scheme \<Rightarrow> bool" where
  "resting e \<longleftrightarrow> inv e \<and> \<not> whole e [] \<and> stalled e = None"

lemma loop_resting: "inv e \<Longrightarrow> loop e d rs = (e', Inr os) \<Longrightarrow> resting e'"
proof (induction e d arbitrary: rs rule: loop_induct)
  case (turn e d)
  show ?case
  proof (cases rule: loop_cases [of e d])
    case (stall e1)
    then show ?thesis
      using turn.prems(2) inv_stall [OF turn.prems(1) stall(1)] stall_not_whole [OF stall(1)]
      by (auto simp: resting_def split: option.splits)
  next
    case (fail e1 d' e2 x)
    then show ?thesis using turn.prems by simp
  next
    case (turn e1 d' e2 os')
    then show ?thesis
      using turn.IH [OF turn(1,2)] inv_dispatch [OF turn.prems(1) turn(1,2)] turn.prems(2) by simp
  qed
qed

lemma loop_Nil: "resting e \<Longrightarrow> loop e [] rs = (e, Inr rs)"
  by (simp add: loop_unfold [of e "[]"] resting_def consume_until_eq scanned_def)

lemma enter_loop: "resting e \<Longrightarrow> (if d = [] then (e, Inr []) else loop e d []) = loop e d []"
  using loop_Nil [of e "[]"] by simp

end

text \<open>\<open>from_stream\<close> enters the loop only on non-empty input.\<close>

sublocale http_parser \<subseteq> stream: chunked_parser "\<lambda>e d. if d = [] then (e, Inr []) else loop e d []" resting forget
proof (unfold_locales, goal_cases)
  case (2 s xs s' os)
  then show ?case by (auto simp: resting_def split: if_splits dest: loop_resting)
next
  case (3 s xs ys)
  have inv: "inv s" using 3 by (simp add: resting_def)
  obtain e' r where xs: "loop s xs [] = (e', r)" by fastforce
  show ?case
  proof (cases r)
    case (Inl x)
    then have "xs \<noteq> []" using xs loop_Nil [OF 3] by auto
    then show ?thesis using 3 xs Inl loop_append [of s xs ys "[]"] by (simp add: resting_def)
  next
    case (Inr os)
    then have "resting e'" using 3 xs loop_resting by (auto simp: resting_def)
    then show ?thesis
      using 3 xs Inr inv loop_append [of s xs ys "[]"] loop_acc [of forget e' ys os]
      by (subst outcome_feed_all_Cons [where ?s1.0 = e' and os = os])
        (auto simp: enter_loop loop_Nil outcome_feed_all_single simp del: feed_all.simps)
  qed
qed simp

end
