(* ===== verification/Http_Response.thy ===== *)
theory Http_Response
  imports Http_Entity
begin

text \<open>
  \<open>http_response_t\<close> of \<open>http_protocol.hpp\<close> and \<open>http_protocol.cpp\<close>: the response, its serialiser
  \<open>generic\<close>, its streaming parser and \<open>from_info\<close>, with the request info the server attaches to
  every request. Shown here: the parser's loop terminates on every state and input and meets the
  streaming contract, and a serialised response parses back.
\<close>

section \<open>Data\<close>

text \<open>
  \<open>http_request_info_t\<close>: the bit fields \<open>version\<close> (3 bits) and \<open>response_code\<close> (10 bits) are
  numbers reduced where the code stores them, the one-bit fields are booleans.
\<close>

record http_request_info =
  info_id :: u32
  info_time_stamp :: u32
  info_version :: nat
  info_keep_alive :: bool
  info_close :: bool
  info_response_code :: nat

definition http_keep_alive :: "http_request_info \<Rightarrow> bool" where
  "http_keep_alive i \<longleftrightarrow> (info_version i = 0 \<and> info_keep_alive i) \<or> (info_version i = 1 \<and> \<not> info_close i)"

definition http_key :: "http_request_info \<Rightarrow> u64" where
  "http_key i = id_time_key (info_id i) (info_time_stamp i)"

record http_response = http_entity +
  code :: u16
  message :: string

section \<open>Construction and serialisation\<close>

definition rsp_flush_stream :: "http_response \<Rightarrow> http_response" where
  "rsp_flush_stream e = (entity_flush_stream VERSION e)\<lparr>message := []\<rparr>"

definition rsp_make :: "u16 \<Rightarrow> string \<Rightarrow> string \<Rightarrow> headers_t \<Rightarrow> string \<Rightarrow> http_response" where
  "rsp_make c m b hs v = http_entity.extend (http_entity_make v hs b) \<lparr>code = c, message = m\<rparr>"

text \<open>The default constructor leaves \<open>code\<close> unset; nothing reads it before the parser sets it.\<close>

definition rsp_new :: http_response where
  "rsp_new = rsp_flush_stream (rsp_make 0 [] [] [] [])"

definition header_line :: "string \<times> string \<Rightarrow> string" where
  "header_line kv = fst kv @ '': '' @ snd kv @ CRLF"

definition rsp_generic :: "u16 \<Rightarrow> string \<Rightarrow> headers_t \<Rightarrow> string \<Rightarrow> string \<Rightarrow> string" where
  "rsp_generic c m hs b v =
     v @ '' '' @ to_dec (unat c) @ '' '' @ m @ CRLF @
     concat (map header_line (filter (\<lambda>kv. fst kv \<noteq> ''Content-Length'') hs)) @
     ''Content-Length: '' @ to_dec (length b) @ CRLF @ CRLF @ b"

definition rsp_to_string :: "http_response \<Rightarrow> string" where
  "rsp_to_string r = rsp_generic (code r) (message r) (headers r) (body r) (version r)"

definition rsp_from_info :: "http_response \<Rightarrow> http_request_info \<Rightarrow> http_response \<times> http_request_info" where
  "rsp_from_info r i =
     (let r1 = r\<lparr>version := (if info_version i \<noteq> 0 then ''HTTP/1.1'' else ''HTTP/1.0'')\<rparr>;
          r2 = (if info_keep_alive i
                then r1\<lparr>headers := hdr_insert (''Connection'', ''Keep-Alive'') (headers r1)\<rparr> else r1);
          r3 = (if info_close i
                then r2\<lparr>headers := hdr_insert (''Connection'', ''Close'') (headers r2)\<rparr> else r2)
      in (r3, i\<lparr>info_response_code := unat (code r3) mod 1024\<rparr>))"

section \<open>The streaming parser\<close>

text \<open>The switch on the parser state, once \<open>consume_until\<close> has filled \<open>partial_buffer\<close>.\<close>

definition rsp_emit :: "http_response \<Rightarrow> http_response" where
  "rsp_emit e = rsp_make (code e) (message e) (body e) (headers e) (version e)"

definition rsp_headers_end :: "http_response \<Rightarrow> http_response \<times> (std_error + http_response list)" where
  "rsp_headers_end e =
     (if parse_state e \<noteq> TRAILER \<and> hdr_find ''Content-Length'' (headers e) \<noteq> None then
        (case stoul (the (hdr_find ''Content-Length'' (headers e))) of
           Inl x \<Rightarrow> (e, Inl x)
         | Inr n \<Rightarrow> (e\<lparr>body_length := n, delimiter := [], parse_state := BODY\<rparr>, Inr []))
      else if parse_state e \<noteq> TRAILER \<and> hdr_find ''Transfer-Encoding'' (headers e) = Some ''chunked'' then
        (e\<lparr>parse_state := CHUNK_LENGTH\<rparr>, Inr [])
      else (rsp_flush_stream e, Inr [rsp_emit e]))"

definition rsp_dispatch :: "http_response \<Rightarrow> http_response \<times> (std_error + http_response list)" where
  "rsp_dispatch e =
     (case parse_state e of
        METHOD \<Rightarrow> (e, Inl (Runtime_error ''invalid state''))
      | PATH \<Rightarrow> (e, Inl (Runtime_error ''invalid state''))
      | MESSAGE \<Rightarrow>
          (e\<lparr>message := partial_buffer e, partial_buffer := message e, parse_state := HEADERS\<rparr>, Inr [])
      | CODE \<Rightarrow>
          (case stoul (partial_buffer e) of
             Inl x \<Rightarrow> (e, Inl x)
           | Inr n \<Rightarrow> (e\<lparr>code := word_of_nat n, delimiter := CRLF, parse_state := MESSAGE\<rparr>, Inr []))
      | VERSION \<Rightarrow>
          if partial_buffer e \<notin> set SUPPORTED_VERSIONS then (e, Inl (Runtime_error ''Unknown http version''))
          else (e\<lparr>version := partial_buffer e, partial_buffer := version e, parse_state := CODE\<rparr>, Inr [])
      | BODY \<Rightarrow>
          (let e1 = e\<lparr>body := partial_buffer e, partial_buffer := body e\<rparr>
           in (rsp_flush_stream e1, Inr [rsp_emit e1]))
      | CHUNK_LENGTH \<Rightarrow>
          (case stoul_base 16 (partial_buffer e) of
             Inl x \<Rightarrow> (e, Inl (Runtime_error ''Expected chunk length''))
           | Inr n \<Rightarrow> (e\<lparr>body_length := n, parse_state := (if n \<noteq> 0 then CHUNK else TRAILER)\<rparr>, Inr []))
      | CHUNK \<Rightarrow> (e\<lparr>body := body e @ partial_buffer e, parse_state := CHUNK_LENGTH\<rparr>, Inr [])
      | _ \<Rightarrow> \<comment> \<open>HEADERS and TRAILER\<close>
          if partial_buffer e \<noteq> [] then
            (case find_pair CHR '':'' CHR '' '' (partial_buffer e) of
               None \<Rightarrow> (e, Inl (Runtime_error ''Expected http header''))
             | Some pos \<Rightarrow>
                 (e\<lparr>headers := hdr_insert (take pos (partial_buffer e), drop (pos + 2) (partial_buffer e)) (headers e)\<rparr>,
                  Inr []))
          else rsp_headers_end e)"

lemmas rsp_dispatch_defs = rsp_dispatch_def rsp_headers_end_def rsp_flush_stream_def entity_flush_stream_def Let_def

lemma rsp_dispatch_progress:
  assumes "partial_length e1 = 0" and "rsp_dispatch e1 = (e2, Inr os)"
  shows "partial_length e2 = 0 \<and>
    (cstr_at (delimiter e1) 0 = NUL \<longrightarrow> idle_rank (e2\<lparr>partial_buffer := []\<rparr>) < idle_rank e1)"
  using assms
  by (cases "parse_state e1")
    (auto simp: rsp_dispatch_defs idle_rank_def state_rank_def cstr_at_space cstr_at_CRLF SUPPORTED_VERSIONS_def
      split: sum.splits if_splits option.splits)

lemma rsp_turn_rank:
  assumes "consume_until e d = (e1, True, d')" and "rsp_dispatch e1 = (e2, Inr os)"
  shows "parse_rank (e2\<lparr>partial_buffer := []\<rparr>) d' < parse_rank e d"
  using rsp_dispatch_progress [OF consume_until_partial_length [OF assms(1)] assms(2)]
  by (intro parse_rank_decreases [OF assms(1)]) auto

function rsp_loop :: "http_response \<Rightarrow> string \<Rightarrow> http_response list \<Rightarrow> http_response \<times> (std_error + http_response list)" where
  "rsp_loop e d rs =
     (case consume_until e d of
        (e1, found, d') \<Rightarrow>
          if \<not> found then (e1, Inr rs)
          else (case rsp_dispatch e1 of
                  (e2, Inl x) \<Rightarrow> (e2, Inl x)
                | (e2, Inr os) \<Rightarrow> rsp_loop (e2\<lparr>partial_buffer := []\<rparr>) d' (rs @ os)))"
  by pat_completeness auto
termination
  by (relation "measure (\<lambda>(e, d, rs). parse_rank e d)")
    (auto intro: rsp_turn_rank [OF sym sym])

declare rsp_loop.simps [simp del]

definition rsp_from_stream :: "(http_response, char, std_error, http_response) feed" where
  "rsp_from_stream e d = (if d = [] then (e, Inr []) else rsp_loop e d [])"

definition rsp_from_string :: "string \<Rightarrow> std_error + http_response" where
  "rsp_from_string d =
     (case rsp_from_stream rsp_new d of
        (_, Inl x) \<Rightarrow> Inl x
      | (_, Inr []) \<Rightarrow> Inl (Runtime_error ''Incomplete http request'')
      | (_, Inr (r # _)) \<Rightarrow> Inr r)"

section \<open>The streaming contract\<close>

lemma rsp_dispatch_forget:
  assumes "forget e = forget e'"
  shows "outcome forget (rsp_dispatch e) = outcome forget (rsp_dispatch e')"
proof -
  obtain n where "e' = e\<lparr>consumed := n\<rparr>" using assms by (rule forget_eqE)
  then show ?thesis
    by (cases "parse_state e")
      (auto simp: rsp_dispatch_defs rsp_emit_def forget_def split: sum.split option.split)
qed

interpretation response: http_parser rsp_loop rsp_dispatch "\<lambda>_. None" "\<lambda>_. True"
proof (unfold_locales, goal_cases)
  case (1 e d rs)
  show ?case by (subst rsp_loop.simps) (simp split: prod.split)
next
  case (2 e1 e2 os)
  then show ?case by (rule rsp_dispatch_progress)
next
  case (3 e e')
  then show ?case by (rule rsp_dispatch_forget)
qed simp_all

lemma rsp_from_stream_eq: "rsp_from_stream = (\<lambda>e d. if d = [] then (e, Inr []) else rsp_loop e d [])"
  by (intro ext) (simp add: rsp_from_stream_def)

section \<open>Serialising and parsing back\<close>

text \<open>The parser between two header lines, with the headers \<open>hs\<close> read so far.\<close>

definition in_headers :: "string \<Rightarrow> u16 \<Rightarrow> string \<Rightarrow> headers_t \<Rightarrow> nat \<Rightarrow> http_response" where
  "in_headers v c m hs n = rsp_new\<lparr>version := v, code := c, message := m, headers := hs,
     delimiter := CRLF, parse_state := HEADERS, consumed := n\<rparr>"

lemmas rsp_state_defs = in_headers_def rsp_new_def rsp_make_def http_entity_make_def http_entity.defs
  rsp_flush_stream_def entity_flush_stream_def

lemma rsp_loop_turn:
  "consume_until e d = (e1, True, d') \<Longrightarrow> rsp_dispatch e1 = (e2, Inr os) \<Longrightarrow>
     rsp_loop e d rs = rsp_loop (e2\<lparr>partial_buffer := []\<rparr>) d' (rs @ os)"
  by (simp add: rsp_loop.simps [of e d])

lemma rsp_loop_step:
  "consume_until e d = (e1, True, d') \<Longrightarrow>
     rsp_loop e d rs = (case rsp_dispatch e1 of
         (e2, Inl x) \<Rightarrow> (e2, Inl x)
       | (e2, Inr os) \<Rightarrow> rsp_loop (e2\<lparr>partial_buffer := []\<rparr>) d' (rs @ os))"
  by (simp add: rsp_loop.simps [of e d])

text \<open>A header that survives serialisation: no line break in it, no colon in its name.\<close>

definition plain_header :: "string \<times> string \<Rightarrow> bool" where
  "plain_header kv \<longleftrightarrow> CHR '':'' \<notin> set (fst kv) \<and> CR \<notin> set (fst kv) \<and> CR \<notin> set (snd kv)"

lemma rsp_loop_header:
  assumes "plain_header kv" and "hdr_find (fst kv) hs = None"
  shows "\<exists>n'. rsp_loop (in_headers v c m hs n) (header_line kv @ r) rs =
    rsp_loop (in_headers v c m (hs @ [kv]) n') r rs"
proof -
  obtain k x where kv: "kv = (k, x)" by fastforce
  let ?l = "k @ '': '' @ x" and ?e = "in_headers v c m hs n"
  have cr: "CR \<notin> set ?l" using assms(1) by (auto simp: plain_header_def kv CR_def)
  have c: "consume_until ?e (?l @ CR # LF # r) =
      (?e\<lparr>partial_buffer := ?l, consumed := size_add n (length ?l + 2)\<rparr>, True, r)"
    by (subst consume_line [OF _ _ _ _ cr]) (simp_all add: rsp_state_defs)
  have "find_pair CHR '':'' CHR '' '' ?l = Some (length k)"
    using assms(1) by (auto simp: plain_header_def kv intro: find_pair_append)
  then have "rsp_dispatch (?e\<lparr>partial_buffer := ?l, consumed := size_add n (length ?l + 2)\<rparr>) =
      (?e\<lparr>partial_buffer := ?l, consumed := size_add n (length ?l + 2), headers := hs @ [kv]\<rparr>, Inr [])"
    using assms(2) by (simp add: rsp_dispatch_def rsp_state_defs hdr_insert_def kv)
  from rsp_loop_turn [OF c this] show ?thesis
    by (auto simp: kv header_line_def CRLF_def rsp_state_defs)
qed

lemma rsp_loop_headers:
  assumes "\<forall>kv \<in> set hs'. plain_header kv" and "hdr_wf (hs @ hs')"
  shows "\<exists>n'. rsp_loop (in_headers v c m hs n) (concat (map header_line hs') @ r) rs =
    rsp_loop (in_headers v c m (hs @ hs') n') r rs"
  using assms
proof (induction hs' arbitrary: hs n)
  case (Cons kv hs')
  have "hdr_find (fst kv) hs = None"
    using Cons.prems(2) by (rule hdr_wf_find)
  then obtain n1 where n1: "rsp_loop (in_headers v c m hs n) (header_line kv @ concat (map header_line hs') @ r) rs =
      rsp_loop (in_headers v c m (hs @ [kv]) n1) (concat (map header_line hs') @ r) rs"
    using rsp_loop_header [of kv hs] Cons.prems(1) by fastforce
  have "\<exists>n2. rsp_loop (in_headers v c m (hs @ [kv]) n1) (concat (map header_line hs') @ r) rs =
      rsp_loop (in_headers v c m ((hs @ [kv]) @ hs') n2) r rs"
    by (rule Cons.IH) (use Cons.prems in auto)
  then show ?case by (simp only: n1 list.map concat.simps append_assoc append_Cons append_Nil)
qed auto

lemma rsp_loop_status_line:
  assumes "v \<in> set SUPPORTED_VERSIONS" and "CR \<notin> set m"
  shows "\<exists>n. rsp_loop (rsp_new\<lparr>code := c0\<rparr>) (v @ '' '' @ to_dec (unat c) @ '' '' @ m @ CRLF @ r) rs =
    rsp_loop (in_headers v c m [] n) r rs"
proof -
  let ?e0 = "rsp_new\<lparr>code := c0\<rparr>"
  let ?e1 = "?e0\<lparr>version := v, parse_state := CODE, consumed := length v + 1\<rparr>"
  let ?e2 = "?e1\<lparr>code := c, delimiter := CRLF, parse_state := MESSAGE,
      consumed := size_add (length v + 1) (length (to_dec (unat c)) + 1)\<rparr>"
  have sp: "CHR '' '' \<notin> set v" and len: "length v + 1 < size_range"
    using assms(1) by (auto simp: SUPPORTED_VERSIONS_def size_range_def)
  have dec: "CHR '' '' \<notin> set (to_dec (unat c))" using to_dec_digits by (force simp: isdigit_def)
  have "unat c < 2 ^ 16" using unsigned_less [where ?'a = nat, of c] by simp
  then have "unat c < size_range" by (simp add: size_range_def)
  then have cd: "stoul (to_dec (unat c)) = Inr (unat c)" by simp
  have "rsp_loop ?e0 (v @ CHR '' '' # r1) rs = rsp_loop ?e1 r1 rs" for r1
    by (subst rsp_loop_step [OF consume_word [OF _ _ _ _ sp]])
      (use assms(1) len in \<open>simp_all add: rsp_state_defs rsp_dispatch_def\<close>)
  moreover have "rsp_loop ?e1 (to_dec (unat c) @ CHR '' '' # r1) rs = rsp_loop ?e2 r1 rs" for r1
    by (subst rsp_loop_step [OF consume_word [OF _ _ _ _ dec]])
      (simp_all add: rsp_state_defs rsp_dispatch_def cd)
  moreover have "rsp_loop ?e2 (m @ CR # LF # r) rs =
      rsp_loop (in_headers v c m [] (size_add (consumed ?e2) (length m + 2))) r rs"
    by (subst rsp_loop_step [OF consume_line [OF _ _ _ _ assms(2)]])
      (simp_all add: rsp_state_defs rsp_dispatch_def)
  ultimately show ?thesis by (auto simp: CRLF_def)
qed

lemma rsp_loop_body:
  assumes "hdr_find ''Content-Length'' hs = Some (to_dec (length b))" and "length b < size_range"
  shows "rsp_loop (in_headers v c m hs n) (CRLF @ b @ r) rs =
    rsp_loop (rsp_new\<lparr>code := c\<rparr>) r (rs @ [rsp_make c m b hs v])"
proof -
  let ?e = "in_headers v c m hs n"
  let ?e1 = "?e\<lparr>body_length := length b, delimiter := [], parse_state := BODY, consumed := size_add n 2\<rparr>"
  have "rsp_loop ?e (CR # LF # b @ r) rs = rsp_loop ?e1 (b @ r) rs"
    by (subst rsp_loop_step [OF consume_line [of _ "[]", simplified]])
      (use assms in \<open>simp_all add: rsp_state_defs rsp_dispatch_def rsp_headers_end_def numeral_2_eq_2\<close>)
  also have "\<dots> = rsp_loop (rsp_new\<lparr>code := c\<rparr>) r (rs @ [rsp_make c m b hs v])"
    by (subst rsp_loop_step [OF consume_bytes])
      (simp_all add: rsp_state_defs rsp_dispatch_def rsp_emit_def)
  finally show ?thesis by (simp add: CRLF_def)
qed

text \<open>What the serialiser needs of a response so that the parser can read it back.\<close>

definition rsp_plain :: "http_response \<Rightarrow> bool" where
  "rsp_plain r \<longleftrightarrow> version r \<in> set SUPPORTED_VERSIONS \<and> CR \<notin> set (message r) \<and>
     length (body r) < size_range \<and> hdr_wf (headers r) \<and>
     (\<forall>kv \<in> set (headers r). plain_header kv \<and>
        (caseless_eq (fst kv) ''Content-Length'' \<longrightarrow> fst kv = ''Content-Length''))"

text \<open>The response as it comes back: the length header is the one the serialiser wrote.\<close>

definition rsp_received :: "http_response \<Rightarrow> http_response" where
  "rsp_received r = rsp_make (code r) (message r) (body r)
     (filter (\<lambda>kv. fst kv \<noteq> ''Content-Length'') (headers r) @ [(''Content-Length'', to_dec (length (body r)))])
     (version r)"

lemma rsp_loop_response:
  assumes "rsp_plain r"
  shows "rsp_loop (rsp_new\<lparr>code := c0\<rparr>) (rsp_to_string r @ rest) rs =
    rsp_loop (rsp_new\<lparr>code := code r\<rparr>) rest (rs @ [rsp_received r])"
proof -
  let ?v = "version r" and ?c = "code r" and ?m = "message r" and ?b = "body r"
  let ?cl = "(''Content-Length'', to_dec (length ?b))"
  let ?hs = "filter (\<lambda>kv. fst kv \<noteq> ''Content-Length'') (headers r)"
  have none: "hdr_find ''Content-Length'' ?hs = None"
    using assms by (auto simp: rsp_plain_def hdr_find_None)
  have "map tolower ''Content-Length'' \<notin> (\<lambda>kv. map tolower (fst kv)) ` set ?hs"
    using assms by (auto simp: rsp_plain_def caseless_eq_map)
  then have wf: "hdr_wf (?hs @ [?cl])"
    using assms by (simp add: rsp_plain_def hdr_wf_def distinct_map_filter)
  have "CR \<notin> set (to_dec (length ?b))" using to_dec_digits by (force simp: isdigit_def CR_def)
  then have plain: "\<forall>kv \<in> set (?hs @ [?cl]). plain_header kv"
    using assms by (auto simp: rsp_plain_def plain_header_def CR_def)
  have str: "rsp_to_string r @ rest = ?v @ '' '' @ to_dec (unat ?c) @ '' '' @ ?m @ CRLF @
      (concat (map header_line (?hs @ [?cl])) @ (CRLF @ ?b @ rest))"
    by (simp add: rsp_to_string_def rsp_generic_def header_line_def)
  obtain n1 where "rsp_loop (rsp_new\<lparr>code := c0\<rparr>) (rsp_to_string r @ rest) rs =
      rsp_loop (in_headers ?v ?c ?m [] n1) (concat (map header_line (?hs @ [?cl])) @ (CRLF @ ?b @ rest)) rs"
    unfolding str using rsp_loop_status_line assms unfolding rsp_plain_def by blast
  moreover obtain n2 where "rsp_loop (in_headers ?v ?c ?m [] n1)
        (concat (map header_line (?hs @ [?cl])) @ (CRLF @ ?b @ rest)) rs =
      rsp_loop (in_headers ?v ?c ?m (?hs @ [?cl]) n2) (CRLF @ ?b @ rest) rs"
    using rsp_loop_headers [OF plain, of "[]"] wf by (simp only: append_Nil) blast
  moreover have "hdr_find ''Content-Length'' (?hs @ [?cl]) = Some (to_dec (length ?b))"
    using none by (simp add: hdr_find_append)
  ultimately show ?thesis
    using rsp_loop_body assms by (simp add: rsp_plain_def rsp_received_def)
qed

lemma rsp_loop_responses:
  "\<forall>r \<in> set rps. rsp_plain r \<Longrightarrow>
     \<exists>c. rsp_loop (rsp_new\<lparr>code := c0\<rparr>) (concat (map rsp_to_string rps)) rs =
       (rsp_new\<lparr>code := c\<rparr>, Inr (rs @ map rsp_received rps))"
proof (induction rps arbitrary: c0 rs)
  case Nil
  have "consume_until (rsp_new\<lparr>code := c0\<rparr>) [] = (rsp_new\<lparr>code := c0\<rparr>, False, [])"
    by (rule consume_nothing) (simp_all add: rsp_state_defs)
  then show ?case by (intro exI [of _ c0]) (simp add: rsp_loop.simps)
next
  case (Cons r rps)
  then obtain c where "rsp_loop (rsp_new\<lparr>code := code r\<rparr>) (concat (map rsp_to_string rps)) (rs @ [rsp_received r]) =
      (rsp_new\<lparr>code := c\<rparr>, Inr ((rs @ [rsp_received r]) @ map rsp_received rps))"
    by (metis list.set_intros(2))
  then show ?case using Cons.prems by (intro exI [of _ c]) (simp add: rsp_loop_response)
qed

section \<open>Properties\<close>

text \<open>
  C26. The response parser does not depend on how the stream is cut into pieces: fed piece by piece
  or in one call, the same streams are refused and the others give the same responses. The states
  agree up to the byte counter \<open>consumed\<close>, which the response parser never reads.
\<close>

theorem rsp_chunking:
  assumes "\<not> whole e []"
  shows "outcome forget (feed_all rsp_from_stream e pieces) =
         outcome forget (rsp_from_stream e (concat pieces))"
  unfolding rsp_from_stream_eq
  using assms by (intro response.stream.feed_all_concat) (simp add: response.resting_def)

theorem rsp_chunking_witness:
  "\<not> whole rsp_new [] \<and>
   outcome forget (feed_all rsp_from_stream rsp_new [''HTTP/1.0 2'', ''00 OK'' @ [CR], [LF, CR, LF] @ ''HTT'']) =
   outcome forget (rsp_from_stream rsp_new (concat [''HTTP/1.0 2'', ''00 OK'' @ [CR], [LF, CR, LF] @ ''HTT'']))"
proof -
  have ready: "\<not> whole rsp_new []" by (simp add: whole_def scanned_def rsp_state_defs)
  show ?thesis by (rule conjI [OF ready rsp_chunking [OF ready]])
qed

text \<open>
  C27. Serialise and parse back: any sequence of responses with plain headers, written one after the
  other and received in pieces cut anywhere, is parsed as exactly those responses in order; each
  comes back with its \<open>Content-Length\<close> header set to the length of its body.
\<close>

theorem rsp_roundtrip:
  assumes "\<forall>r \<in> set rps. rsp_plain r" and "concat pieces = concat (map rsp_to_string rps)"
  shows "\<exists>e. feed_all rsp_from_stream rsp_new pieces = (e, Inr (map rsp_received rps))"
proof -
  have ready: "response.resting rsp_new" by (simp add: response.resting_def whole_def scanned_def rsp_state_defs)
  have "rsp_new\<lparr>code := 0\<rparr> = rsp_new" by (simp add: rsp_state_defs)
  then obtain c where "rsp_loop rsp_new (concat (map rsp_to_string rps)) [] =
      (rsp_new\<lparr>code := c\<rparr>, Inr (map rsp_received rps))"
    using rsp_loop_responses [OF assms(1), of 0 "[]"] by auto
  then have "outcome forget (rsp_from_stream rsp_new (concat pieces)) =
      Some (forget (rsp_new\<lparr>code := c\<rparr>), map rsp_received rps)"
    unfolding rsp_from_stream_def response.enter_loop [OF ready] assms(2) by simp
  then have "outcome forget (feed_all rsp_from_stream rsp_new pieces) =
      Some (forget (rsp_new\<lparr>code := c\<rparr>), map rsp_received rps)"
    unfolding rsp_from_stream_eq using response.stream.feed_all_concat [OF ready, of pieces] by simp
  then show ?thesis by (auto simp: outcome_eq_Some)
qed

theorem rsp_roundtrip_witness:
  "\<exists>e. feed_all rsp_from_stream rsp_new
     [''HTTP/1.1 200 OK'' @ CRLF @ ''A: b'' @ [CR], [LF] @ ''Content-Length: 2'' @ CRLF @ CRLF @ ''h'', ''i''] =
     (e, Inr (map rsp_received [rsp_make 200 ''OK'' ''hi'' [(''A'', ''b'')] ''HTTP/1.1'']))"
proof (rule rsp_roundtrip)
  show "\<forall>r \<in> set [rsp_make 200 ''OK'' ''hi'' [(''A'', ''b'')] ''HTTP/1.1'']. rsp_plain r"
    by (simp add: rsp_plain_def rsp_make_def http_entity_make_def http_entity.defs plain_header_def
        SUPPORTED_VERSIONS_def hdr_wf_def caseless_eq_def eval_simps)
qed (simp add: rsp_to_string_def rsp_generic_def rsp_make_def http_entity_make_def http_entity.defs
      header_line_def eval_simps)

end
