(* ===== verification/Http_Query.thy ===== *)
theory Http_Query
  imports Prelude
begin

text \<open>
  Query strings of \<open>http_protocol.cpp\<close>: \<open>split_path_query\<close>, which takes a decoded request target
  apart, and the part of \<open>http_request_t::to_string\<close> that writes one. The parse is shown equal to a
  reference definition without positions, and to undo the writing.
\<close>

section \<open>Query strings\<close>

type_synonym query_t = "(string \<times> string list) list"

text \<open>\<open>query[key]\<close> makes an entry with no values; \<open>query[key].emplace_back(v)\<close> adds a value.\<close>

fun query_touch :: "string \<Rightarrow> query_t \<Rightarrow> query_t" where
  "query_touch k [] = [(k, [])]"
| "query_touch k ((k', vs) # q) = (if k' = k then (k', vs) # q else (k', vs) # query_touch k q)"

fun query_push :: "string \<Rightarrow> string \<Rightarrow> query_t \<Rightarrow> query_t" where
  "query_push k v [] = [(k, [v])]"
| "query_push k v ((k', vs) # q) = (if k' = k then (k', vs @ [v]) # q else (k', vs) # query_push k v q)"

definition substr :: "string \<Rightarrow> nat \<Rightarrow> nat \<Rightarrow> string" where
  "substr s a b = drop a (take b s)"

text \<open>
  The loop of \<open>split_path_query\<close>. Iterators are positions: \<open>c\<close> the current one, with \<open>rest\<close> the
  characters from it on; \<open>kv\<close> is the key whose entry the next value goes to, if any.
\<close>

fun spq_loop :: "string \<Rightarrow> string \<Rightarrow> nat \<Rightarrow> nat \<Rightarrow> nat \<Rightarrow> string option \<Rightarrow> query_t
    \<Rightarrow> nat \<times> nat \<times> string option \<times> query_t" where
  "spq_loop path [] c key_start value_start kv q = (key_start, value_start, kv, q)"
| "spq_loop path (x # rest) c key_start value_start kv q =
     (if x = CHR ''&'' then
        spq_loop path rest (c + 1) (c + 1) value_start None
          (case kv of
             Some k \<Rightarrow> query_push k (substr path value_start c) q
           | None \<Rightarrow> query_push (substr path key_start c) [] q)
      else if x = CHR ''='' then
        (case kv of
           None \<Rightarrow> spq_loop path rest (c + 1) key_start (c + 1) (Some (substr path key_start c))
                     (query_touch (substr path key_start c) q)
         | Some k \<Rightarrow> spq_loop path rest (c + 1) key_start value_start kv q)
      else spq_loop path rest (c + 1) key_start value_start kv q)"

text \<open>
  \<open>path.begin() + query_begin + 1\<close> with \<open>query_begin = npos\<close>, the largest \<open>size_t\<close>, is
  \<open>path.begin()\<close> again: without a question mark the loop runs over the whole path.
\<close>

definition split_path_query :: "string \<Rightarrow> query_t \<times> string" where
  "split_path_query path =
     (let query_begin = find_char CHR ''?'' path;
          start = (case query_begin of None \<Rightarrow> size_add SIZE_MAX 1 | Some i \<Rightarrow> i + 1);
          (key_start, value_start, kv, q) =
             spq_loop path (drop start path) start start (length path) None [];
          q' = (if key_start < length path then
                  (case kv of
                     Some k \<Rightarrow> query_push k (substr path value_start (length path)) q
                   | None \<Rightarrow> query_push (substr path key_start (length path)) [] q)
                else q)
      in (q', case query_begin of None \<Rightarrow> path | Some i \<Rightarrow> take i path))"

section \<open>Writing a query\<close>

text \<open>\<open>amp\<close> is whether a parameter has been written already.\<close>

fun query_values :: "string \<Rightarrow> bool \<Rightarrow> string list \<Rightarrow> string" where
  "query_values k amp [] = []"
| "query_values k amp (v # vs) = (if amp then ''&'' else []) @ k @ ''='' @ v @ query_values k True vs"

fun query_string :: "bool \<Rightarrow> query_t \<Rightarrow> string" where
  "query_string amp [] = []"
| "query_string amp ((k, vs) # q) = query_values k amp vs @ query_string (amp \<or> vs \<noteq> []) q"

definition path_query :: "string \<Rightarrow> query_t \<Rightarrow> string" where
  "path_query p q = p @ (if q \<noteq> [] then ''?'' @ query_string False q else [])"

section \<open>The reference parse\<close>

text \<open>
  What \<open>split_path_query\<close> promises, without positions: the text after the first question mark is
  cut at every ampersand, a trailing empty segment is ignored, and each segment is a key up to its
  first equals sign with the rest as its value.
\<close>

fun split_at :: "char \<Rightarrow> string \<Rightarrow> string list" where
  "split_at x [] = [[]]"
| "split_at x (y # s) = (if y = x then [] # split_at x s else (y # hd (split_at x s)) # tl (split_at x s))"

definition segments :: "string \<Rightarrow> string list" where
  "segments s = (let ss = split_at CHR ''&'' s in if last ss = [] then butlast ss else ss)"

definition push_param :: "string \<Rightarrow> query_t \<Rightarrow> query_t" where
  "push_param s = query_push (takeWhile (\<lambda>c. c \<noteq> CHR ''='') s) (drop 1 (dropWhile (\<lambda>c. c \<noteq> CHR ''='') s))"

definition parse_query :: "string \<Rightarrow> query_t" where
  "parse_query s = fold push_param (segments s) []"

lemma split_at_ne [simp]: "split_at x s \<noteq> []"
  by (cases s) auto

lemma split_at_append: "x \<notin> set a \<Longrightarrow> split_at x (a @ s) = (a @ hd (split_at x s)) # tl (split_at x s)"
  by (induction a) auto

lemma split_at_none: "x \<notin> set a \<Longrightarrow> split_at x a = [a]"
  using split_at_append [of x a "[]"] by simp

lemma segments_cut: "CHR ''&'' \<notin> set a \<Longrightarrow> segments (a @ CHR ''&'' # s) = a # segments s"
  by (auto simp: segments_def split_at_append Let_def)

lemma segments_last: "CHR ''&'' \<notin> set a \<Longrightarrow> segments a = (if a = [] then [] else [a])"
  by (auto simp: segments_def split_at_none Let_def)

lemma push_touch: "query_push k v (query_touch k q) = query_push k v q"
  by (induction k q rule: query_touch.induct) auto

text \<open>The loop in the middle of a segment \<open>cur\<close>, with the parameters before it in \<open>q\<close>.\<close>

definition seg_state :: "string \<Rightarrow> string \<Rightarrow> nat \<Rightarrow> string option \<Rightarrow> bool" where
  "seg_state pre cur value_start kv \<longleftrightarrow> CHR ''&'' \<notin> set cur \<and>
     (case kv of
        None \<Rightarrow> CHR ''='' \<notin> set cur
      | Some k \<Rightarrow> CHR ''='' \<notin> set k \<and> (\<exists>v. cur = k @ ''='' @ v) \<and> value_start = length pre + length k + 1)"

definition touched :: "string option \<Rightarrow> query_t \<Rightarrow> query_t" where
  "touched kv q = (case kv of None \<Rightarrow> q | Some k \<Rightarrow> query_touch k q)"

definition close_seg :: "string \<Rightarrow> nat \<Rightarrow> nat \<Rightarrow> nat \<Rightarrow> string option \<Rightarrow> query_t \<Rightarrow> query_t" where
  "close_seg p key_start value_start c kv q =
     (case kv of
        Some k \<Rightarrow> query_push k (substr p value_start c) q
      | None \<Rightarrow> query_push (substr p key_start c) [] q)"

lemma close_seg_push:
  assumes "seg_state pre cur vs kv"
  shows "close_seg (pre @ cur @ rest) (length pre) vs (length pre + length cur) kv (touched kv q) = push_param cur q"
proof (cases kv)
  case None
  then have "CHR ''='' \<notin> set cur" using assms by (simp add: seg_state_def)
  then have tw: "takeWhile (\<lambda>c. c \<noteq> CHR ''='') cur = cur" "dropWhile (\<lambda>c. c \<noteq> CHR ''='') cur = []"
    by (simp_all only: takeWhile_eq_all_conv dropWhile_eq_Nil_conv) blast+
  show ?thesis using None by (simp add: close_seg_def touched_def push_param_def substr_def tw)
next
  case (Some k)
  then obtain v where "CHR ''='' \<notin> set k" "cur = k @ ''='' @ v" "vs = length pre + length k + 1"
    using assms by (auto simp: seg_state_def)
  moreover from this have "takeWhile (\<lambda>c. c \<noteq> CHR ''='') cur = k" "dropWhile (\<lambda>c. c \<noteq> CHR ''='') cur = CHR ''='' # v"
    by (auto simp: takeWhile_append dropWhile_append)
  ultimately show ?thesis using Some by (simp add: close_seg_def touched_def push_param_def substr_def push_touch)
qed

definition spq_finish :: "string \<Rightarrow> nat \<times> nat \<times> string option \<times> query_t \<Rightarrow> query_t" where
  "spq_finish p r = (case r of (ks, vs, kv, q) \<Rightarrow>
     if ks < length p then close_seg p ks vs (length p) kv q else q)"

lemma spq_loop_segments:
  assumes "p = pre @ cur @ rest" and "seg_state pre cur vs kv"
  shows "spq_finish p (spq_loop p rest (length pre + length cur) (length pre) vs kv (touched kv q)) =
    fold push_param (segments (cur @ rest)) q"
  using assms
proof (induction rest arbitrary: pre cur vs kv q)
  case Nil
  show ?case
  proof (cases "cur = []")
    case True
    then have "kv = None" using Nil by (cases kv) (auto simp: seg_state_def)
    then show ?thesis using Nil True by (simp add: spq_finish_def touched_def segments_def)
  next
    case False
    have "CHR ''&'' \<notin> set cur" using Nil by (simp add: seg_state_def)
    then show ?thesis
      using Nil False close_seg_push [of pre cur vs kv "[]" q] by (simp add: spq_finish_def segments_last)
  qed
next
  case (Cons x rest)
  have amp: "CHR ''&'' \<notin> set cur" using Cons.prems by (simp add: seg_state_def)
  show ?case
  proof (cases "x = CHR ''&''")
    case True
    have "close_seg p (length pre) vs (length pre + length cur) kv (touched kv q) = push_param cur q"
      unfolding Cons.prems(1) by (rule close_seg_push [OF Cons.prems(2)])
    moreover have "seg_state (pre @ cur @ ''&'') [] vs None" by (simp add: seg_state_def)
    ultimately show ?thesis
      using True Cons.prems(1) Cons.IH [of "pre @ cur @ ''&''" "[]" vs None "push_param cur q"]
      by (simp add: segments_cut [OF amp] touched_def close_seg_def [symmetric])
  next
    case False
    show ?thesis
    proof (cases "x = CHR ''='' \<and> kv = None")
      case True
      then have st: "seg_state pre (cur @ ''='') (length pre + length cur + 1) (Some cur)"
        using Cons.prems by (auto simp: seg_state_def)
      show ?thesis
        using True False Cons.prems(1) Cons.IH [OF _ st, of q]
        by (simp add: touched_def substr_def)
    next
      case F: False
      then have st: "seg_state pre (cur @ [x]) vs kv"
        using Cons.prems False by (auto simp: seg_state_def split: option.splits)
      show ?thesis
        using F False Cons.prems(1) Cons.IH [OF _ st, of q] by (auto split: option.split)
    qed
  qed
qed

text \<open>Where the parse of the query starts.\<close>

definition query_start :: "string \<Rightarrow> nat" where
  "query_start p = (case find_char CHR ''?'' p of None \<Rightarrow> 0 | Some i \<Rightarrow> i + 1)"

lemma query_start_le: "query_start p \<le> length p"
  by (auto simp: query_start_def dest: find_char_Some split: option.split)

lemma fst_split_path_query: "fst (split_path_query p) = parse_query (drop (query_start p) p)"
proof -
  let ?s = "query_start p"
  have start: "(case find_char CHR ''?'' p of None \<Rightarrow> size_add SIZE_MAX 1 | Some i \<Rightarrow> i + 1) = ?s"
    by (cases "find_char CHR ''?'' p")
      (simp_all add: query_start_def size_add_def SIZE_MAX_def size_range_def del: find_char_None)
  have "fst (split_path_query p) = spq_finish p (spq_loop p (drop ?s p) ?s ?s (length p) None [])"
    unfolding split_path_query_def spq_finish_def close_seg_def Let_def start by (simp add: case_prod_beta)
  also have "\<dots> = parse_query (drop ?s p)"
    using spq_loop_segments [of p "take ?s p" "[]" "drop ?s p" "length p" None "[]"] query_start_le [of p]
    by (simp add: seg_state_def touched_def parse_query_def)
  finally show ?thesis .
qed

lemma snd_split_path_query:
  "snd (split_path_query p) = (case find_char CHR ''?'' p of None \<Rightarrow> p | Some i \<Rightarrow> take i p)"
  by (simp add: split_path_query_def Let_def case_prod_beta)

section \<open>Writing and parsing back\<close>

text \<open>A query that survives being written out: what separates parameters does not occur in them.\<close>

definition query_plain :: "query_t \<Rightarrow> bool" where
  "query_plain q \<longleftrightarrow> distinct (map fst q) \<and>
     (\<forall>(k, vs) \<in> set q. CHR ''='' \<notin> set k \<and> CHR ''&'' \<notin> set k \<and> vs \<noteq> [] \<and> (\<forall>v \<in> set vs. CHR ''&'' \<notin> set v))"

definition params :: "query_t \<Rightarrow> string list" where
  "params q = concat (map (\<lambda>(k, vs). map (\<lambda>v. k @ ''='' @ v) vs) q)"

lemma query_values_True: "query_values k True vs = concat (map (\<lambda>v. CHR ''&'' # k @ ''='' @ v) vs)"
  by (induction vs) simp_all

lemma query_string_True: "query_string True q = concat (map (Cons CHR ''&'') (params q))"
  by (induction q) (auto simp: params_def query_values_True comp_def)

lemma query_string_params:
  assumes "query_plain q" and "q \<noteq> []"
  obtains s ss where "params q = s # ss" and "query_string False q = s @ concat (map (Cons CHR ''&'') ss)"
proof -
  obtain k v vs q' where "q = (k, v # vs) # q'"
    using assms by (cases q) (auto simp: query_plain_def neq_Nil_conv)
  then show ?thesis by (intro that) (auto simp: params_def query_values_True query_string_True comp_def)
qed

lemma segments_join:
  assumes "\<forall>s \<in> set (s # ss). s \<noteq> [] \<and> CHR ''&'' \<notin> set s"
  shows "segments (s @ concat (map (Cons CHR ''&'') ss)) = s # ss"
  using assms by (induction ss arbitrary: s) (auto simp: segments_last segments_cut)

lemma query_push_new: "k \<notin> fst ` set q \<Longrightarrow> query_push k v q = q @ [(k, [v])]"
  by (induction k v q rule: query_push.induct) auto

lemma query_push_again: "k \<notin> fst ` set q \<Longrightarrow> query_push k v (q @ [(k, vs)]) = q @ [(k, vs @ [v])]"
  by (induction k v q rule: query_push.induct) auto

lemma push_param_eq:
  assumes "CHR ''='' \<notin> set k"
  shows "push_param (k @ ''='' @ v) = query_push k v"
proof -
  have "takeWhile (\<lambda>c. c \<noteq> CHR ''='') (k @ ''='' @ v) = k" "dropWhile (\<lambda>c. c \<noteq> CHR ''='') (k @ ''='' @ v) = CHR ''='' # v"
    using assms by (auto simp: takeWhile_append dropWhile_append)
  then show ?thesis by (simp add: push_param_def)
qed

lemma fold_push_more:
  assumes "CHR ''='' \<notin> set k" and "k \<notin> fst ` set q"
  shows "fold push_param (map (\<lambda>v. k @ ''='' @ v) vs) (q @ [(k, us)]) = q @ [(k, us @ vs)]"
  using assms
proof (induction vs arbitrary: us)
  case (Cons v vs)
  then show ?case using push_param_eq [of k v] by (simp add: query_push_again)
qed simp

lemma fold_push_values:
  assumes "CHR ''='' \<notin> set k" and "k \<notin> fst ` set q" and "vs \<noteq> []"
  shows "fold push_param (map (\<lambda>v. k @ ''='' @ v) vs) q = q @ [(k, vs)]"
proof -
  obtain v vs' where "vs = v # vs'" using assms(3) by (auto simp: neq_Nil_conv)
  then show ?thesis
    using fold_push_more [OF assms(1,2), of vs' "[v]"] push_param_eq [OF assms(1), of v] assms(2) by (simp add: query_push_new)
qed

lemma fold_push_params: "query_plain (q0 @ q) \<Longrightarrow> fold push_param (params q) q0 = q0 @ q"
proof (induction q arbitrary: q0)
  case (Cons kv q)
  obtain k vs where kv: "kv = (k, vs)" by fastforce
  have "CHR ''='' \<notin> set k" "k \<notin> fst ` set q0" "vs \<noteq> []" using Cons.prems by (auto simp: kv query_plain_def)
  from fold_push_values [OF this] show ?case
    using Cons.IH [of "q0 @ [kv]"] Cons.prems by (simp add: params_def kv)
qed (simp add: params_def)

lemma parse_query_string:
  assumes "query_plain q" and "q \<noteq> []"
  shows "parse_query (query_string False q) = q"
proof -
  obtain s ss where ps: "params q = s # ss" and qs: "query_string False q = s @ concat (map (Cons CHR ''&'') ss)"
    using query_string_params [OF assms] by blast
  have "\<forall>s \<in> set (params q). s \<noteq> [] \<and> CHR ''&'' \<notin> set s"
    using assms(1) by (auto simp: params_def query_plain_def)
  then have "segments (query_string False q) = params q" unfolding qs ps by (rule segments_join)
  then show ?thesis using fold_push_params [of "[]" q] assms(1) by (simp add: parse_query_def)
qed

text \<open>
  What the parser makes of the target \<open>path_query p q\<close>. Without a query the path itself is taken
  for one.
\<close>

definition received_query :: "string \<Rightarrow> query_t \<Rightarrow> query_t" where
  "received_query p q = (if q = [] then parse_query p else q)"

lemma split_path_query_roundtrip:
  assumes "CHR ''?'' \<notin> set p" and "query_plain q"
  shows "split_path_query (path_query p q) = (received_query p q, p)"
proof (cases "q = []")
  case True
  have "find_char CHR ''?'' p = None" using assms(1) by simp
  then show ?thesis using True
    by (simp only: prod_eq_iff fst_split_path_query snd_split_path_query query_start_def path_query_def received_query_def
        append_Nil2 drop_0 fst_conv snd_conv simp_thms if_True if_False option.case)
next
  case False
  have "find_char CHR ''?'' (path_query p q) = Some (length p)"
    using assms(1) False by (simp add: path_query_def)
  then show ?thesis using False parse_query_string [OF assms(2) False]
    by (simp add: prod_eq_iff fst_split_path_query snd_split_path_query query_start_def received_query_def)
      (simp add: path_query_def)
qed

section \<open>Properties\<close>

text \<open>
  C29. \<open>split_path_query\<close> computes the reference parse: path and query are cut at the first question
  mark, the query at every ampersand, each parameter at its first equals sign. In a target without
  a question mark the whole target is the path and is parsed as a query as well, because
  \<open>npos + 1\<close> is 0.
\<close>

theorem split_path_query_spec:
  "split_path_query p =
     (case find_char CHR ''?'' p of
        None \<Rightarrow> (parse_query p, p)
      | Some i \<Rightarrow> (parse_query (drop (i + 1) p), take i p))"
  using fst_split_path_query [of p] snd_split_path_query [of p]
  by (cases "find_char CHR ''?'' p") (simp_all only: query_start_def prod_eq_iff option.case fst_conv snd_conv drop_0 simp_thms)

end
