(* ===== verification/Http_Request.thy ===== *)
theory Http_Request
  imports Http_Response Http_Query
begin

text \<open>
  \<open>http_request_t\<close> of \<open>http_protocol.hpp\<close> and \<open>http_protocol.cpp\<close>: methods, the
  request with its streaming parser \<open>from_stream\<close> and serialiser \<open>to_string\<close>, the canned error
  responses, and \<open>to_info\<close>. The two functions of libcurl the code calls, \<open>curl_escape\<close> and
  \<open>curl_unescape\<close>, are parameters.
\<close>

section \<open>Methods\<close>

datatype method_t = OPTIONS | GET | HEAD | POST | PUT | DELETE | TRACE | CONNECT

definition STRING_TO_METHOD :: "(string \<times> method_t) list" where
  "STRING_TO_METHOD = [(''OPTIONS'', OPTIONS), (''GET'', GET), (''HEAD'', HEAD), (''POST'', POST),
     (''PUT'', PUT), (''DELETE'', DELETE), (''TRACE'', TRACE), (''CONNECT'', CONNECT)]"

definition METHOD_TO_STRING :: "(method_t \<times> string) list" where
  "METHOD_TO_STRING = [(OPTIONS, ''OPTIONS''), (GET, ''GET''), (HEAD, ''HEAD''), (POST, ''POST''),
     (PUT, ''PUT''), (DELETE, ''DELETE''), (TRACE, ''TRACE''), (CONNECT, ''CONNECT'')]"

definition name_max :: "string list \<Rightarrow> nat" where
  "name_max names = foldl (\<lambda>i k. max i (length k)) 0 names"

definition METHOD_MAX_SIZE :: nat where
  "METHOD_MAX_SIZE = name_max (map fst STRING_TO_METHOD) + 1"

definition VERSION_MAX_SIZE :: nat where
  "VERSION_MAX_SIZE = name_max SUPPORTED_VERSIONS + 2"

lemma METHOD_MAX_SIZE_8 [simp]: "METHOD_MAX_SIZE = 8"
  by (simp add: METHOD_MAX_SIZE_def name_max_def STRING_TO_METHOD_def)

lemma VERSION_MAX_SIZE_10 [simp]: "VERSION_MAX_SIZE = 10"
  by (simp add: VERSION_MAX_SIZE_def name_max_def SUPPORTED_VERSIONS_def)

lemma method_length: "map_of STRING_TO_METHOD s = Some m \<Longrightarrow> 0 < length s \<and> length s < 8"
  by (auto simp: STRING_TO_METHOD_def split: if_splits)

lemma version_length: "v \<in> set SUPPORTED_VERSIONS \<Longrightarrow> length v = 8"
  by (auto simp: SUPPORTED_VERSIONS_def)

section \<open>Percent encoding\<close>

text \<open>
  libcurl's functions take a C string and its length as an \<open>int\<close> and return null on failure. Both
  wrappers copy the result as a C string, that is up to its first NUL.
\<close>

record curl =
  curl_escape :: "string \<Rightarrow> int \<Rightarrow> string option"
  curl_unescape :: "string \<Rightarrow> int \<Rightarrow> string option"

definition int_size :: "string \<Rightarrow> int" where
  "int_size s = signed_take_bit 31 (int (length s))"

definition url_encode :: "curl \<Rightarrow> string \<Rightarrow> std_error + string" where
  "url_encode cu s =
     (case curl_escape cu s (int_size s) of
        None \<Rightarrow> Inl (Runtime_error ''url encoding failed'')
      | Some r \<Rightarrow> Inr (takeWhile (\<lambda>c. c \<noteq> NUL) r))"

definition url_decode :: "curl \<Rightarrow> string \<Rightarrow> std_error + string" where
  "url_decode cu s =
     (case curl_unescape cu s (int_size s) of
        None \<Rightarrow> Inl (Runtime_error ''url decoding failed'')
      | Some r \<Rightarrow> Inr (takeWhile (\<lambda>c. c \<noteq> NUL) r))"

section \<open>The request\<close>

record http_request = http_entity +
  req_method :: method_t
  path :: string
  query :: query_t
  enqueued :: "u64 list"
  log_line :: string

text \<open>
  What \<open>from_stream\<close> may throw: one of the canned \<open>request_exception_t\<close> constants, which is not a
  \<open>std::exception\<close>, or a \<open>std::exception\<close>.
\<close>

datatype http_exception = RESPONSE_400 | RESPONSE_413 | RESPONSE_500 | RESPONSE_501 | RESPONSE_504 | RESPONSE_505

datatype parse_exception = Rejected http_exception | Thrown std_error

definition CORS :: "string \<times> string" where
  "CORS = (''Access-Control-Allow-Origin'', ''*'')"

fun exception_response :: "http_exception \<Rightarrow> http_response" where
  "exception_response RESPONSE_400 =
     rsp_make 400 ''Bad Request'' ''Malformed HTTP request'' [CORS] ''HTTP/1.1''"
| "exception_response RESPONSE_413 =
     rsp_make 413 ''Request Entity Too Large'' ''The HTTP request was too large'' [CORS] ''HTTP/1.1''"
| "exception_response RESPONSE_500 =
     rsp_make 500 ''Internal Server Error''
       ''The server encountered an unexpected condition which prevented it from fulfilling the request''
       [CORS] ''HTTP/1.1''"
| "exception_response RESPONSE_501 =
     rsp_make 501 ''Not Implemented'' ''The HTTP request method is not supported'' [CORS] ''HTTP/1.1''"
| "exception_response RESPONSE_504 =
     rsp_make 504 ''Gateway Time-out'' (''The server didn'' @ [CHR 0x27] @ ''t respond in time'') [CORS] ''HTTP/1.1''"
| "exception_response RESPONSE_505 =
     rsp_make 505 ''HTTP Version Not Supported'' ''The HTTP request version is not supported'' [CORS] ''HTTP/1.1''"

text \<open>The bytes and the code a \<open>request_exception_t\<close> holds.\<close>

definition exception_bytes :: "http_exception \<Rightarrow> string" where
  "exception_bytes x = rsp_to_string (exception_response x)"

definition exception_code :: "http_exception \<Rightarrow> u16" where
  "exception_code x = code (exception_response x)"

definition req_make :: "method_t \<Rightarrow> string \<Rightarrow> string \<Rightarrow> query_t \<Rightarrow> headers_t \<Rightarrow> string \<Rightarrow> http_request" where
  "req_make m p b q hs v = http_entity.extend (http_entity_make v hs b)
     \<lparr>req_method = m, path = p, query = q, enqueued = [], log_line = []\<rparr>"

definition req_flush_stream :: "http_request \<Rightarrow> http_request" where
  "req_flush_stream e = (entity_flush_stream METHOD e)\<lparr>path := [], query := []\<rparr>"

text \<open>The default constructor leaves \<open>method\<close> unset; nothing reads it before the parser sets it.\<close>

definition req_new :: http_request where
  "req_new = req_flush_stream (req_make OPTIONS [] [] [] [] [])"

definition req_to_info :: "int \<Rightarrow> http_request \<Rightarrow> u32 \<Rightarrow> http_request_info" where
  "req_to_info now r i =
     \<lparr>info_id = i, info_time_stamp = stamp now,
      info_version = (if version r = ''HTTP/1.0'' then 0 else 1),
      info_keep_alive = (hdr_find ''Connection'' (headers r) = Some ''Keep-Alive''),
      info_close = (hdr_find ''Connection'' (headers r) = Some ''Close''),
      info_response_code = 0\<rparr>"

definition req_timeout :: "http_request_info \<Rightarrow> http_request_info \<times> string" where
  "req_timeout i =
     (i\<lparr>info_response_code := unat (exception_code RESPONSE_504) mod 1024\<rparr>, exception_bytes RESPONSE_504)"

definition req_size :: "http_request \<Rightarrow> nat" where
  "req_size r = size_add (consumed r) (length (partial_buffer r))"

section \<open>Serialisation\<close>

definition req_string :: "curl \<Rightarrow> method_t \<Rightarrow> string \<Rightarrow> string \<Rightarrow> query_t \<Rightarrow> headers_t \<Rightarrow> string \<Rightarrow> std_error + string" where
  "req_string cu m p b q hs v =
     (case map_of METHOD_TO_STRING m of
        None \<Rightarrow> Inl (Runtime_error ''Unsupported http request method'')
      | Some ms \<Rightarrow>
          (case url_encode cu (path_query p q) of
             Inl x \<Rightarrow> Inl x
           | Inr pq \<Rightarrow>
               Inr (ms @ '' '' @ pq @ '' '' @ v @ CRLF @ concat (map header_line hs) @
                 (if b \<noteq> [] then
                    (if hdr_find ''Content-Length'' hs = None
                     then ''Content-Length: '' @ to_dec (length b) @ CRLF else []) @ CRLF @ b
                  else CRLF))))"

definition req_to_string :: "curl \<Rightarrow> http_request \<Rightarrow> std_error + string" where
  "req_to_string cu r = req_string cu (req_method r) (path r) (body r) (query r) (headers r) (version r)"

section \<open>The streaming parser\<close>

definition req_emit :: "http_request \<Rightarrow> http_request" where
  "req_emit e = (req_make (req_method e) (path e) (body e) (query e) (headers e) (version e))\<lparr>log_line := log_line e\<rparr>"

definition req_finish :: "http_request \<Rightarrow> http_request \<times> (parse_exception + http_request list)" where
  "req_finish e = (req_flush_stream (e\<lparr>log_line := []\<rparr>), Inr [req_emit e])"

definition parse_header :: "string \<Rightarrow> (string \<times> string) option" where
  "parse_header l =
     (case find_char CHR '':'' l of
        None \<Rightarrow> None
      | Some field_end \<Rightarrow>
          Some (take field_end l, dropWhile (\<lambda>c. c = CHR '' '') (drop (field_end + 1) l)))"

definition req_headers_end :: "http_request \<Rightarrow> http_request \<times> (parse_exception + http_request list)" where
  "req_headers_end e =
     (if parse_state e \<noteq> TRAILER \<and> hdr_find ''Content-Length'' (headers e) \<noteq> None then
        (case stoul (the (hdr_find ''Content-Length'' (headers e))) of
           Inl x \<Rightarrow> (e, Inl (Rejected RESPONSE_400))
         | Inr n \<Rightarrow> (e\<lparr>body_length := n, delimiter := [], parse_state := BODY\<rparr>, Inr []))
      else if parse_state e \<noteq> TRAILER \<and> hdr_find ''Transfer-Encoding'' (headers e) = Some ''chunked'' then
        (e\<lparr>parse_state := CHUNK_LENGTH\<rparr>, Inr [])
      else req_finish e)"

definition req_dispatch :: "curl \<Rightarrow> http_request \<Rightarrow> http_request \<times> (parse_exception + http_request list)" where
  "req_dispatch cu e =
     (case parse_state e of
        MESSAGE \<Rightarrow> (e, Inl (Rejected RESPONSE_500))
      | CODE \<Rightarrow> (e, Inl (Rejected RESPONSE_500))
      | METHOD \<Rightarrow>
          (case map_of STRING_TO_METHOD (partial_buffer e) of
             None \<Rightarrow> (e, Inl (Rejected RESPONSE_501))
           | Some m \<Rightarrow>
               (e\<lparr>log_line := partial_buffer e @ delimiter e, req_method := m, parse_state := PATH\<rparr>, Inr []))
      | PATH \<Rightarrow>
          (let e1 = e\<lparr>log_line := log_line e @ partial_buffer e @ delimiter e\<rparr> in
           case url_decode cu (partial_buffer e) of
             Inl x \<Rightarrow> (e1, Inl (Thrown x))
           | Inr p \<Rightarrow> (e1\<lparr>path := p, delimiter := CRLF, parse_state := VERSION\<rparr>, Inr []))
      | VERSION \<Rightarrow>
          if partial_buffer e \<notin> set SUPPORTED_VERSIONS then (e, Inl (Rejected RESPONSE_505))
          else
            (e\<lparr>log_line := log_line e @ partial_buffer e, version := partial_buffer e, partial_buffer := version e,
               query := fst (split_path_query (path e)), path := snd (split_path_query (path e)),
               parse_state := HEADERS\<rparr>, Inr [])
      | BODY \<Rightarrow> req_finish (e\<lparr>body := partial_buffer e, partial_buffer := body e\<rparr>)
      | CHUNK_LENGTH \<Rightarrow>
          (case stoul_base 16 (partial_buffer e) of
             Inl x \<Rightarrow> (e, Inl (Rejected RESPONSE_400))
           | Inr n \<Rightarrow> (e\<lparr>body_length := n, parse_state := (if n \<noteq> 0 then CHUNK else TRAILER)\<rparr>, Inr []))
      | CHUNK \<Rightarrow> (e\<lparr>body := body e @ partial_buffer e, parse_state := CHUNK_LENGTH\<rparr>, Inr [])
      | _ \<Rightarrow> \<comment> \<open>HEADERS and TRAILER\<close>
          if partial_buffer e \<noteq> [] then
            (case parse_header (partial_buffer e) of
               None \<Rightarrow> (e, Inl (Rejected RESPONSE_400))
             | Some kv \<Rightarrow> (e\<lparr>headers := hdr_insert kv (headers e)\<rparr>, Inr []))
          else req_headers_end e)"

text \<open>When the input runs out: a method or a version that is already too long.\<close>

definition req_stalled :: "http_request \<Rightarrow> parse_exception option" where
  "req_stalled e =
     (if parse_state e = METHOD \<and> length (partial_buffer e) \<ge> METHOD_MAX_SIZE then Some (Rejected RESPONSE_400)
      else if parse_state e = VERSION \<and> length (partial_buffer e) \<ge> VERSION_MAX_SIZE then Some (Rejected RESPONSE_400)
      else None)"

text \<open>\<open>consumed + partial_buffer.size() + body_length > max_size\<close>, in \<open>size_t\<close>.\<close>

definition too_large :: "nat \<Rightarrow> 'a http_entity_scheme \<Rightarrow> bool" where
  "too_large max_size e \<longleftrightarrow>
     size_add (size_add (consumed e) (length (partial_buffer e))) (body_length e) > max_size"

lemmas req_dispatch_defs = req_dispatch_def req_headers_end_def req_finish_def req_flush_stream_def
  entity_flush_stream_def Let_def

lemma req_dispatch_progress:
  assumes "partial_length e1 = 0" and "req_dispatch cu e1 = (e2, Inr os)"
  shows "partial_length e2 = 0 \<and>
    (cstr_at (delimiter e1) 0 = NUL \<longrightarrow> idle_rank (e2\<lparr>partial_buffer := []\<rparr>) < idle_rank e1)"
  using assms
  by (cases "parse_state e1")
    (auto simp: req_dispatch_defs idle_rank_def state_rank_def SUPPORTED_VERSIONS_def STRING_TO_METHOD_def
      split: sum.splits if_splits option.splits)

lemma req_turn_rank:
  assumes "consume_until e d = (e1, True, d')" and "req_dispatch cu e1 = (e2, Inr os)"
  shows "parse_rank (e2\<lparr>partial_buffer := []\<rparr>) d' < parse_rank e d"
  using req_dispatch_progress [OF consume_until_partial_length [OF assms(1)] assms(2)]
  by (intro parse_rank_decreases [OF assms(1)]) auto

function req_loop :: "curl \<Rightarrow> nat \<Rightarrow> http_request \<Rightarrow> string \<Rightarrow> http_request list
    \<Rightarrow> http_request \<times> (parse_exception + http_request list)" where
  "req_loop cu max_size e d rs =
     (if too_large max_size e then (e, Inl (Rejected RESPONSE_413))
      else
        (case consume_until e d of
           (e1, found, d') \<Rightarrow>
             if \<not> found then (case req_stalled e1 of Some x \<Rightarrow> (e1, Inl x) | None \<Rightarrow> (e1, Inr rs))
             else (case req_dispatch cu e1 of
                     (e2, Inl x) \<Rightarrow> (e2, Inl x)
                   | (e2, Inr os) \<Rightarrow> req_loop cu max_size (e2\<lparr>partial_buffer := []\<rparr>) d' (rs @ os))))"
  by pat_completeness auto
termination
  by (relation "measure (\<lambda>(cu, m, e, d, rs). parse_rank e d)")
    (auto intro: req_turn_rank [OF sym sym])

declare req_loop.simps [simp del]

definition req_from_stream :: "curl \<Rightarrow> nat \<Rightarrow> (http_request, char, parse_exception, http_request) feed" where
  "req_from_stream cu max_size e d = (if d = [] then (e, Inr []) else req_loop cu max_size e d [])"

definition req_from_string :: "curl \<Rightarrow> string \<Rightarrow> parse_exception + http_request" where
  "req_from_string cu d =
     (case req_from_stream cu SIZE_MAX req_new d of
        (_, Inl x) \<Rightarrow> Inl x
      | (_, Inr []) \<Rightarrow> Inl (Thrown (Runtime_error ''Incomplete http request''))
      | (_, Inr (r # _)) \<Rightarrow> Inr r)"

text \<open>The lines the log functions write; \<open>ts\<close> is the logger's time stamp.\<close>

definition req_log :: "string \<Rightarrow> u32 \<Rightarrow> http_request \<Rightarrow> string" where
  "req_log ts i r = to_dec (unat i) @ '' '' @ ts @ '' '' @ log_line r @ [LF]"

definition exception_log :: "string \<Rightarrow> u32 \<Rightarrow> http_exception \<Rightarrow> string" where
  "exception_log ts i x = to_dec (unat i) @ '' '' @ ts @ '' '' @ to_dec (unat (exception_code x)) @ '' '' @
     to_dec (length (exception_bytes x)) @ [LF]"

definition info_log :: "string \<Rightarrow> http_request_info \<Rightarrow> nat \<Rightarrow> string" where
  "info_log ts i response_size = to_dec (unat (info_id i)) @ '' '' @ ts @ '' '' @
     to_dec (info_response_code i) @ '' '' @ to_dec response_size @ [LF]"

section \<open>The parser's invariant\<close>

text \<open>Every parser state goes with one delimiter, and only bodies and chunks announce a length.\<close>

definition state_delimiter :: "state_t \<Rightarrow> string option" where
  "state_delimiter s =
     (case s of
        METHOD \<Rightarrow> Some '' '' | PATH \<Rightarrow> Some '' '' | BODY \<Rightarrow> Some []
      | MESSAGE \<Rightarrow> None | CODE \<Rightarrow> None | _ \<Rightarrow> Some CRLF)"

definition req_inv :: "http_request \<Rightarrow> bool" where
  "req_inv e \<longleftrightarrow> state_delimiter (parse_state e) = Some (delimiter e) \<and>
     partial_length e \<le> length (delimiter e) \<and>
     (body_length e \<noteq> 0 \<longrightarrow> parse_state e = BODY \<or> parse_state e = CHUNK)"

lemma req_inv_new: "req_inv req_new"
  by (simp add: req_inv_def state_delimiter_def req_new_def req_flush_stream_def entity_flush_stream_def
      req_make_def http_entity_make_def http_entity.defs)

lemma req_inv_consume: "req_inv e \<Longrightarrow> consume_until e d = (e1, f, d') \<Longrightarrow> req_inv e1"
  by (auto simp: req_inv_def consume_until_eq scanned_def scan_bound split: if_splits)

lemma req_inv_dispatch: "req_inv e \<Longrightarrow> body_length e = 0 \<Longrightarrow> req_dispatch cu e = (e2, Inr os) \<Longrightarrow> partial_length e = 0 \<Longrightarrow> req_inv e2"
  by (cases "parse_state e")
    (auto simp: req_inv_def state_delimiter_def req_dispatch_defs split: sum.splits if_splits option.splits)

lemma consume_until_body_length: "consume_until e d = (e1, True, d') \<Longrightarrow> body_length e1 = 0"
  by (auto simp: consume_until_eq split: if_splits)

text \<open>A piece that completes takes at least one byte, and loses at most the delimiter.\<close>

lemma consume_until_length:
  assumes "req_inv e" and "\<not> whole e []" and "body_length e = 0" and "consume_until e d = (e1, True, d')"
  shows "length (partial_buffer e) + 1 \<le> length (partial_buffer e1) + length (delimiter e)"
proof -
  have w: "whole e d" using assms(4) by (simp add: consume_until_eq split: if_splits)
  have hit: "cstr_at (delimiter e) (fst (scanned e d)) = NUL" using w by (simp add: whole_def)
  have "cstr_at (delimiter e) (partial_length e) \<noteq> NUL"
    using assms(2,3) by (simp add: whole_def scanned_def)
  then have "snd (scanned e d) \<noteq> 0"
    using hit assms(3) scan_zero [of "delimiter e" "partial_length e" d] by (intro notI) (simp add: scanned_def)
  then have "taken e d \<noteq> 0" by (simp add: taken_def)
  moreover have "fst (scanned e d) \<le> length (delimiter e)"
    using assms(1) by (simp add: scanned_def req_inv_def scan_bound)
  ultimately show ?thesis
    using assms(4) w taken_le [OF w] by (auto simp: consume_until_eq)
qed

lemma req_stalled_dispatch:
  assumes "req_inv e" and "\<not> whole e []" and "req_stalled e \<noteq> None" and "consume_until e d = (e1, True, d')"
  shows "outcome nrm (req_dispatch cu e1) = None"
proof -
  have st: "parse_state e1 = parse_state e" using assms(4) by (auto simp: consume_until_eq split: if_splits)
  have "body_length e = 0" using assms(1,3) by (auto simp: req_inv_def req_stalled_def split: if_splits)
  then have len: "length (partial_buffer e) + 1 \<le> length (partial_buffer e1) + length (delimiter e)"
    using assms by (intro consume_until_length)
  show ?thesis
  proof (cases "parse_state e = METHOD")
    case True
    then have "delimiter e = '' ''" using assms(1) by (simp add: req_inv_def state_delimiter_def)
    then have "length (delimiter e) = 1" by simp
    then have "8 \<le> length (partial_buffer e1)"
      using True assms(3) len by (auto simp: req_stalled_def split: if_splits)
    then have "map_of STRING_TO_METHOD (partial_buffer e1) = None"
      using method_length [of "partial_buffer e1"] by (cases "map_of STRING_TO_METHOD (partial_buffer e1)") auto
    then show ?thesis using True st by (simp add: req_dispatch_def)
  next
    case False
    then have v: "parse_state e = VERSION" and "10 \<le> length (partial_buffer e)"
      using assms(3) by (auto simp: req_stalled_def split: if_splits)
    moreover have "delimiter e = CRLF" using assms(1) v by (simp add: req_inv_def state_delimiter_def)
    then have "length (delimiter e) = 2" by (simp add: CRLF_def)
    ultimately have "9 \<le> length (partial_buffer e1)" using len by simp
    then have "partial_buffer e1 \<notin> set SUPPORTED_VERSIONS" using version_length by fastforce
    then show ?thesis using v st by (simp add: req_dispatch_def)
  qed
qed

lemma req_stalled_grows: "req_stalled e \<noteq> None \<Longrightarrow> consume_until e d = (e1, False, d') \<Longrightarrow> req_stalled e1 \<noteq> None"
  by (auto simp: req_stalled_def consume_until_eq split: if_splits)

lemma req_dispatch_forget:
  assumes "forget e = forget e'"
  shows "outcome forget (req_dispatch cu e) = outcome forget (req_dispatch cu e')"
proof -
  obtain n where "e' = e\<lparr>consumed := n\<rparr>" using assms by (rule forget_eqE)
  then show ?thesis
    by (cases "parse_state e")
      (auto simp: req_dispatch_defs req_emit_def forget_def split: sum.split option.split)
qed

lemma too_large_SIZE_MAX [simp]: "\<not> too_large SIZE_MAX e"
  by (simp add: too_large_def not_less)

text \<open>Without a size limit the request parser meets the streaming contract.\<close>

interpretation request: http_parser "req_loop cu SIZE_MAX" "req_dispatch cu" req_stalled req_inv for cu
proof (unfold_locales, goal_cases)
  case (1 e d rs)
  show ?case unfolding req_loop.simps [of cu SIZE_MAX e d rs] by (simp only: too_large_SIZE_MAX if_False)
next
  case (2 e1 e2 os)
  then show ?case by (rule req_dispatch_progress)
next
  case (3 e e')
  then show ?case by (rule req_dispatch_forget)
next
  case (4 e e')
  then obtain n where "e' = e\<lparr>consumed := n\<rparr>" by (rule forget_eqE)
  then show ?case by (simp add: req_stalled_def)
next
  case (5 e d e1 d' e2 os)
  have "req_inv e2"
    by (rule req_inv_dispatch [OF req_inv_consume [OF 5(1,2)] consume_until_body_length [OF 5(2)] 5(3)
      consume_until_partial_length [OF 5(2)]])
  then show ?case by (simp add: req_inv_def)
next
  case (6 e d e1 d')
  then show ?case by (rule req_inv_consume)
next
  case (7 e d rs)
  obtain e1 f d' where c: "consume_until e d = (e1, f, d')" by (metis prod_cases3)
  show ?case
  proof (cases f)
    case True
    then show ?thesis
      using c req_stalled_dispatch [OF 7, of d e1 d' "\<lambda>s. s" cu]
      by (auto simp: req_loop.simps [of cu SIZE_MAX e d] outcome_eq_None)
  next
    case False
    then show ?thesis
      using c req_stalled_grows [OF 7(3), of d e1 d'] by (auto simp: req_loop.simps [of cu SIZE_MAX e d])
  qed
qed

lemma req_from_stream_eq:
  "req_from_stream cu m = (\<lambda>e d. if d = [] then (e, Inr []) else req_loop cu m e d [])"
  by (intro ext) (simp add: req_from_stream_def)

lemma req_new_resting: "request.resting req_new"
  by (simp add: request.resting_def req_inv_new)
    (simp add: whole_def scanned_def req_stalled_def req_new_def req_flush_stream_def entity_flush_stream_def
      req_make_def http_entity_make_def http_entity.defs)

section \<open>Properties\<close>


end
