(* ===== verification/Http_Roundtrip.thy ===== *)
theory Http_Roundtrip
  imports Http_Request
begin

text \<open>
  Requests written by \<open>http_request_t::to_string\<close> and read back by \<open>from_stream\<close>, which is how the
  server hands a request to a worker: what comes back, for which requests, and a kind of request
  that the server accepts and a worker cannot read.
\<close>

section \<open>Serialising and parsing back\<close>

lemmas req_state_defs = req_new_def req_make_def http_entity_make_def http_entity.defs
  req_flush_stream_def entity_flush_stream_def

lemma req_loop_step:
  "consume_until e d = (e1, True, d') \<Longrightarrow>
     req_loop cu SIZE_MAX e d rs = (case req_dispatch cu e1 of
         (e2, Inl x) \<Rightarrow> (e2, Inl x)
       | (e2, Inr os) \<Rightarrow> req_loop cu SIZE_MAX (e2\<lparr>partial_buffer := []\<rparr>) d' (rs @ os))"
  by (simp add: req_loop.simps [of cu SIZE_MAX e d])

text \<open>The parser at the start of a request, \<open>m\<close> being left over from the one before.\<close>

definition req_ready :: "method_t \<Rightarrow> http_request" where
  "req_ready m = req_new\<lparr>req_method := m\<rparr>"

text \<open>The parser between two header lines, with the headers \<open>hs\<close> read so far.\<close>

definition req_in_headers :: "method_t \<Rightarrow> string \<Rightarrow> query_t \<Rightarrow> string \<Rightarrow> string \<Rightarrow> headers_t \<Rightarrow> nat \<Rightarrow> http_request" where
  "req_in_headers m p q v l hs n = req_new\<lparr>req_method := m, path := p, query := q, version := v, log_line := l,
     headers := hs, delimiter := CRLF, parse_state := HEADERS, consumed := n\<rparr>"

text \<open>A header line that is read back as it was written.\<close>

definition req_plain_header :: "string \<times> string \<Rightarrow> bool" where
  "req_plain_header kv \<longleftrightarrow> plain_header kv \<and> (snd kv = [] \<or> hd (snd kv) \<noteq> CHR '' '')"

lemma parse_header_line:
  assumes "req_plain_header (k, x)"
  shows "parse_header (k @ '': '' @ x) = Some (k, x)"
proof -
  have "find_char CHR '':'' (k @ '': '' @ x) = Some (length k)"
    using assms by (simp add: req_plain_header_def plain_header_def)
  moreover have "dropWhile (\<lambda>c. c = CHR '' '') x = x"
    using assms by (cases x) (auto simp: req_plain_header_def)
  ultimately show ?thesis by (simp add: parse_header_def)
qed

lemma req_loop_header:
  assumes "req_plain_header kv" and "hdr_find (fst kv) hs = None"
  shows "\<exists>n'. req_loop cu SIZE_MAX (req_in_headers m p q v l hs n) (header_line kv @ r) rs =
    req_loop cu SIZE_MAX (req_in_headers m p q v l (hs @ [kv]) n') r rs"
proof -
  obtain k x where kv: "kv = (k, x)" by fastforce
  let ?l = "k @ '': '' @ x" and ?e = "req_in_headers m p q v l hs n"
  have cr: "CR \<notin> set ?l" using assms(1) by (auto simp: req_plain_header_def plain_header_def kv CR_def)
  have c: "consume_until ?e (?l @ CR # LF # r) =
      (?e\<lparr>partial_buffer := ?l, consumed := size_add n (length ?l + 2)\<rparr>, True, r)"
    by (subst consume_line [OF _ _ _ _ cr]) (simp_all add: req_in_headers_def req_state_defs)
  have "parse_header ?l = Some kv" using parse_header_line assms(1) by (simp add: kv)
  then have "req_dispatch cu (?e\<lparr>partial_buffer := ?l, consumed := size_add n (length ?l + 2)\<rparr>) =
      (?e\<lparr>partial_buffer := ?l, consumed := size_add n (length ?l + 2), headers := hs @ [kv]\<rparr>, Inr [])"
    using assms(2) by (simp add: req_dispatch_def req_in_headers_def req_state_defs hdr_insert_def)
  then show ?thesis
    using req_loop_step [OF c, of cu rs] by (auto simp: kv header_line_def CRLF_def req_in_headers_def req_state_defs)
qed

lemma req_loop_headers:
  assumes "\<forall>kv \<in> set hs'. req_plain_header kv" and "hdr_wf (hs @ hs')"
  shows "\<exists>n'. req_loop cu SIZE_MAX (req_in_headers m p q v l hs n) (concat (map header_line hs') @ r) rs =
    req_loop cu SIZE_MAX (req_in_headers m p q v l (hs @ hs') n') r rs"
  using assms
proof (induction hs' arbitrary: hs n)
  case (Cons kv hs')
  have "hdr_find (fst kv) hs = None"
    using Cons.prems(2) by (rule hdr_wf_find)
  then obtain n1 where n1: "req_loop cu SIZE_MAX (req_in_headers m p q v l hs n) (header_line kv @ concat (map header_line hs') @ r) rs =
      req_loop cu SIZE_MAX (req_in_headers m p q v l (hs @ [kv]) n1) (concat (map header_line hs') @ r) rs"
    using req_loop_header [of kv hs] Cons.prems(1) by fastforce
  have "\<exists>n2. req_loop cu SIZE_MAX (req_in_headers m p q v l (hs @ [kv]) n1) (concat (map header_line hs') @ r) rs =
      req_loop cu SIZE_MAX (req_in_headers m p q v l ((hs @ [kv]) @ hs') n2) r rs"
    by (rule Cons.IH) (use Cons.prems in auto)
  then show ?case by (simp only: n1 list.map concat.simps append_assoc append_Cons append_Nil)
qed auto

text \<open>What libcurl documents of the two functions, at the string \<open>s\<close> that \<open>t\<close> encodes.\<close>

definition curl_inverse :: "curl \<Rightarrow> string \<Rightarrow> string \<Rightarrow> bool" where
  "curl_inverse cu s t \<longleftrightarrow> curl_escape cu s (int_size s) = Some t \<and> curl_unescape cu t (int_size t) = Some s \<and>
     NUL \<notin> set t \<and> CHR '' '' \<notin> set t \<and> NUL \<notin> set s"

lemma takeWhile_not_NUL: "NUL \<notin> set s \<Longrightarrow> takeWhile (\<lambda>c. c \<noteq> NUL) s = s"
  by (subst takeWhile_eq_all_conv) blast

lemma curl_inverseD:
  assumes "curl_inverse cu s t"
  shows "url_encode cu s = Inr t" and "url_decode cu t = Inr s"
  using assms takeWhile_not_NUL [of s] takeWhile_not_NUL [of t]
  by (simp_all add: curl_inverse_def url_encode_def url_decode_def)

lemma method_table:
  "\<exists>ms. map_of METHOD_TO_STRING m = Some ms \<and> map_of STRING_TO_METHOD ms = Some m \<and> CHR '' '' \<notin> set ms"
  by (cases m) (simp_all add: METHOD_TO_STRING_def STRING_TO_METHOD_def)

definition method_name :: "method_t \<Rightarrow> string" where
  "method_name m = the (map_of METHOD_TO_STRING m)"

lemma method_name:
  "map_of METHOD_TO_STRING m = Some (method_name m)" "map_of STRING_TO_METHOD (method_name m) = Some m"
  "CHR '' '' \<notin> set (method_name m)"
  using method_table [of m] by (auto simp: method_name_def)

lemma req_loop_request_line:
  assumes "v \<in> set SUPPORTED_VERSIONS" and "curl_inverse cu s t"
  shows "\<exists>n. req_loop cu SIZE_MAX (req_ready m0) (method_name m @ '' '' @ t @ '' '' @ v @ CRLF @ r) rs =
    req_loop cu SIZE_MAX (req_in_headers m (snd (split_path_query s)) (fst (split_path_query s)) v
      (method_name m @ '' '' @ t @ '' '' @ v) [] n) r rs"
proof -
  let ?m = "method_name m"
  let ?e0 = "req_ready m0"
  let ?e1 = "?e0\<lparr>req_method := m, log_line := ?m @ '' '', parse_state := PATH, consumed := size_add 0 (length ?m + 1)\<rparr>"
  let ?e2 = "?e1\<lparr>path := s, log_line := ?m @ '' '' @ t @ '' '', delimiter := CRLF, parse_state := VERSION,
      consumed := size_add (consumed ?e1) (length t + 1)\<rparr>"
  have sp: "CHR '' '' \<notin> set t" using assms(2) by (simp add: curl_inverse_def)
  have cr: "CR \<notin> set v" using assms(1) by (auto simp: SUPPORTED_VERSIONS_def CR_def)
  have "req_loop cu SIZE_MAX ?e0 (?m @ CHR '' '' # r1) rs = req_loop cu SIZE_MAX ?e1 r1 rs" for r1
    by (subst req_loop_step [OF consume_word [OF _ _ _ _ method_name(3)]])
      (simp_all add: req_ready_def req_state_defs req_dispatch_def method_name)
  moreover have "req_loop cu SIZE_MAX ?e1 (t @ CHR '' '' # r1) rs = req_loop cu SIZE_MAX ?e2 r1 rs" for r1
    by (subst req_loop_step [OF consume_word [OF _ _ _ _ sp]])
      (simp_all add: req_ready_def req_state_defs req_dispatch_def Let_def curl_inverseD(2) [OF assms(2)])
  moreover have "req_loop cu SIZE_MAX ?e2 (v @ CR # LF # r) rs =
      req_loop cu SIZE_MAX (req_in_headers m (snd (split_path_query s)) (fst (split_path_query s)) v
        (?m @ '' '' @ t @ '' '' @ v) [] (size_add (consumed ?e2) (length v + 2))) r rs"
    by (subst req_loop_step [OF consume_line [OF _ _ _ _ cr]])
      (use assms(1) in \<open>simp_all add: req_ready_def req_in_headers_def req_state_defs req_dispatch_def\<close>)
  ultimately show ?thesis by (auto simp: CRLF_def)
qed

lemma req_loop_body:
  assumes "hdr_find ''Content-Length'' hs = Some x" and "stoul x = Inr (length b)"
  shows "req_loop cu SIZE_MAX (req_in_headers m p q v l hs n) (CRLF @ b @ r) rs =
    req_loop cu SIZE_MAX (req_ready m) r (rs @ [(req_make m p b q hs v)\<lparr>log_line := l\<rparr>])"
proof -
  let ?e = "req_in_headers m p q v l hs n"
  let ?e1 = "?e\<lparr>body_length := length b, delimiter := [], parse_state := BODY, consumed := size_add n 2\<rparr>"
  have "req_loop cu SIZE_MAX ?e (CR # LF # b @ r) rs = req_loop cu SIZE_MAX ?e1 (b @ r) rs"
    by (subst req_loop_step [OF consume_line [of _ "[]", simplified]])
      (use assms in \<open>simp_all add: req_in_headers_def req_state_defs req_dispatch_def req_headers_end_def numeral_2_eq_2\<close>)
  also have "\<dots> = req_loop cu SIZE_MAX (req_ready m) r (rs @ [(req_make m p b q hs v)\<lparr>log_line := l\<rparr>])"
    by (subst req_loop_step [OF consume_bytes])
      (simp_all add: req_in_headers_def req_ready_def req_state_defs req_dispatch_def req_finish_def req_emit_def)
  finally show ?thesis by (simp add: CRLF_def)
qed

lemma req_loop_no_body:
  assumes "hdr_find ''Content-Length'' hs = None" and "hdr_find ''Transfer-Encoding'' hs \<noteq> Some ''chunked''"
  shows "req_loop cu SIZE_MAX (req_in_headers m p q v l hs n) (CRLF @ r) rs =
    req_loop cu SIZE_MAX (req_ready m) r (rs @ [(req_make m p [] q hs v)\<lparr>log_line := l\<rparr>])"
proof -
  let ?e = "req_in_headers m p q v l hs n"
  have "req_loop cu SIZE_MAX ?e (CR # LF # r) rs =
      req_loop cu SIZE_MAX (req_ready m) r (rs @ [(req_make m p [] q hs v)\<lparr>log_line := l\<rparr>])"
    by (subst req_loop_step [OF consume_line [of _ "[]", simplified]])
      (use assms in \<open>simp_all add: req_in_headers_def req_ready_def req_state_defs req_dispatch_def req_headers_end_def
        req_finish_def req_emit_def\<close>)
  then show ?thesis by (simp add: CRLF_def)
qed

text \<open>What the serialiser needs of a request so that the parser can read it back.\<close>

definition framed :: "headers_t \<Rightarrow> string \<Rightarrow> bool" where
  "framed hs b \<longleftrightarrow>
     (case hdr_find ''Content-Length'' hs of
        Some x \<Rightarrow> stoul x = Inr (length b)
      | None \<Rightarrow> b = [] \<longrightarrow> hdr_find ''Transfer-Encoding'' hs \<noteq> Some ''chunked'')"

definition req_plain :: "curl \<Rightarrow> http_request \<Rightarrow> bool" where
  "req_plain cu r \<longleftrightarrow> version r \<in> set SUPPORTED_VERSIONS \<and> CHR ''?'' \<notin> set (path r) \<and> query_plain (query r) \<and>
     (\<exists>t. curl_inverse cu (path_query (path r) (query r)) t) \<and> length (body r) < size_range \<and>
     hdr_wf (headers r) \<and> (\<forall>kv \<in> set (headers r). req_plain_header kv) \<and> framed (headers r) (body r)"

text \<open>The request as it comes back.\<close>

definition sent_headers :: "headers_t \<Rightarrow> string \<Rightarrow> headers_t" where
  "sent_headers hs b =
     (if b \<noteq> [] \<and> hdr_find ''Content-Length'' hs = None then hs @ [(''Content-Length'', to_dec (length b))] else hs)"

definition req_received :: "curl \<Rightarrow> http_request \<Rightarrow> http_request" where
  "req_received cu r =
     (req_make (req_method r) (path r) (body r) (received_query (path r) (query r)) (sent_headers (headers r) (body r))
        (version r))
      \<lparr>log_line := method_name (req_method r) @ '' '' @
         (case url_encode cu (path_query (path r) (query r)) of Inl _ \<Rightarrow> [] | Inr t \<Rightarrow> t) @ '' '' @ version r\<rparr>"

lemma hdr_wf_length:
  assumes "hdr_wf hs" and "hdr_find k hs = None"
  shows "hdr_wf (hs @ [(k, x)])"
  using hdr_wf_insert [OF assms(1), of "(k, x)"] assms(2) by (simp add: hdr_insert_def)

lemma sent_headers_plain:
  assumes "hdr_wf hs" and "\<forall>kv \<in> set hs. req_plain_header kv"
  shows "hdr_wf (sent_headers hs b)" and "\<forall>kv \<in> set (sent_headers hs b). req_plain_header kv"
proof -
  have "hd (to_dec n) \<noteq> CHR '' ''" for n
  proof
    assume "hd (to_dec n) = CHR '' ''"
    then have "CHR '' '' \<in> set (to_dec n)" by (metis hd_in_set to_dec_not_Nil)
    from to_dec_digits [OF this] show False by (simp add: isdigit_def)
  qed
  moreover have "CR \<notin> set (to_dec n)" for n using to_dec_digits [of CR n] by (auto simp: isdigit_def CR_def)
  ultimately show "\<forall>kv \<in> set (sent_headers hs b). req_plain_header kv"
    using assms(2) by (auto simp: sent_headers_def req_plain_header_def plain_header_def CR_def)
  show "hdr_wf (sent_headers hs b)"
    using assms(1) hdr_wf_length by (simp add: sent_headers_def)
qed

lemma req_string_sent:
  assumes "url_encode cu (path_query p q) = Inr t"
  shows "req_string cu m p b q hs v =
    Inr (method_name m @ '' '' @ t @ '' '' @ v @ CRLF @ concat (map header_line (sent_headers hs b)) @ CRLF @ b)"
  using assms by (auto simp: req_string_def method_name sent_headers_def header_line_def)

lemma req_loop_end:
  assumes "framed hs b" and "length b < size_range"
  shows "req_loop cu SIZE_MAX (req_in_headers m p q v l (sent_headers hs b) n) (CRLF @ b @ r) rs =
    req_loop cu SIZE_MAX (req_ready m) r (rs @ [(req_make m p b q (sent_headers hs b) v)\<lparr>log_line := l\<rparr>])"
proof (cases "hdr_find ''Content-Length'' (sent_headers hs b)")
  case None
  then have "b = []" "sent_headers hs b = hs"
    by (auto simp: sent_headers_def hdr_find_append split: if_splits option.splits)
  then show ?thesis using None assms(1) req_loop_no_body [OF None, of cu m p q v l n r rs] by (simp add: framed_def)
next
  case (Some x)
  have "stoul x = Inr (length b)"
    using Some assms by (auto simp: sent_headers_def framed_def hdr_find_append split: if_splits option.splits)
  then show ?thesis by (rule req_loop_body [OF Some])
qed

lemma req_loop_request:
  assumes "req_plain cu r" and "req_to_string cu r = Inr s"
  shows "req_loop cu SIZE_MAX (req_ready m0) (s @ rest) rs =
    req_loop cu SIZE_MAX (req_ready (req_method r)) rest (rs @ [req_received cu r])"
proof -
  let ?hs = "sent_headers (headers r) (body r)" and ?q = "received_query (path r) (query r)"
  obtain t where t: "curl_inverse cu (path_query (path r) (query r)) t" using assms(1) by (auto simp: req_plain_def)
  note enc = curl_inverseD(1) [OF t]
  let ?l = "method_name (req_method r) @ '' '' @ t @ '' '' @ version r"
  have s: "s @ rest = method_name (req_method r) @ '' '' @ t @ '' '' @ version r @ CRLF @
      (concat (map header_line ?hs) @ (CRLF @ body r @ rest))"
    using assms(2) by (simp add: req_to_string_def req_string_sent [OF enc])
  have spq: "split_path_query (path_query (path r) (query r)) = (?q, path r)"
    using assms(1) by (simp add: req_plain_def split_path_query_roundtrip)
  obtain n1 where "req_loop cu SIZE_MAX (req_ready m0) (s @ rest) rs =
      req_loop cu SIZE_MAX (req_in_headers (req_method r) (path r) ?q (version r) ?l [] n1)
        (concat (map header_line ?hs) @ (CRLF @ body r @ rest)) rs"
    unfolding s using req_loop_request_line [OF _ t] assms(1) spq unfolding req_plain_def by fastforce
  moreover have "hdr_wf ?hs" "\<forall>kv \<in> set ?hs. req_plain_header kv"
    using assms(1) sent_headers_plain [of "headers r" "body r"] unfolding req_plain_def by blast+
  then obtain n2 where "req_loop cu SIZE_MAX (req_in_headers (req_method r) (path r) ?q (version r) ?l [] n1)
        (concat (map header_line ?hs) @ (CRLF @ body r @ rest)) rs =
      req_loop cu SIZE_MAX (req_in_headers (req_method r) (path r) ?q (version r) ?l ?hs n2) (CRLF @ body r @ rest) rs"
    using req_loop_headers [of ?hs "[]"] by (simp only: append_Nil) blast
  ultimately show ?thesis
    using assms(1) req_loop_end [of "headers r" "body r"] by (simp add: req_plain_def req_received_def enc)
qed

lemma req_loop_requests:
  "list_all2 (\<lambda>r s. req_plain cu r \<and> req_to_string cu r = Inr s) rqs ss \<Longrightarrow>
     \<exists>m. req_loop cu SIZE_MAX (req_ready m0) (concat ss) rs = (req_ready m, Inr (rs @ map (req_received cu) rqs))"
proof (induction rqs ss arbitrary: m0 rs rule: list_all2_induct)
  case Nil
  have "consume_until (req_ready m0) [] = (req_ready m0, False, [])"
    by (rule consume_nothing) (simp_all add: req_ready_def req_state_defs)
  moreover have "req_stalled (req_ready m0) = None" by (simp add: req_stalled_def req_ready_def req_state_defs)
  ultimately show ?case by (intro exI [of _ m0]) (simp add: req_loop.simps)
next
  case (Cons r rqs s ss)
  then obtain m where "req_loop cu SIZE_MAX (req_ready (req_method r)) (concat ss) (rs @ [req_received cu r]) =
      (req_ready m, Inr ((rs @ [req_received cu r]) @ map (req_received cu) rqs))" by blast
  then show ?case using Cons.hyps by (intro exI [of _ m]) (simp add: req_loop_request [of cu r s])
qed

text \<open>An instance of the two libcurl functions, for targets that need no escaping.\<close>

definition plain_curl :: curl where
  "plain_curl = \<lparr>curl_escape = (\<lambda>s n. Some s), curl_unescape = (\<lambda>s n. Some s)\<rparr>"

lemmas req_eval = req_from_stream_def req_loop.simps too_large_def consume_until_def cstr_at_def req_stalled_def
  req_dispatch_defs STRING_TO_METHOD_def SUPPORTED_VERSIONS_def url_decode_def plain_curl_def parse_header_def
  hdr_insert_def caseless_eq_def req_emit_def req_state_defs split_path_query_def substr_def eval_simps

section \<open>Properties\<close>



text \<open>
  A request whose \<open>Content-Length\<close> is not a number is serialised into something the parser
  refuses. The server does forward such requests, as the witness shows: in a chunked request the
  header can come in the trailer, where it is not looked at. A worker that calls \<open>from_string\<close> on
  the bytes then meets a \<open>request_exception_t\<close>, which is not a \<open>std::exception\<close>.
\<close>

theorem req_bad_length_unreadable:
  assumes "version r \<in> set SUPPORTED_VERSIONS" and "curl_inverse cu (path_query (path r) (query r)) t"
    and "hdr_wf (headers r)" and "\<forall>kv \<in> set (headers r). req_plain_header kv"
    and "hdr_find ''Content-Length'' (headers r) = Some x" and "stoul x = Inl err"
    and "req_to_string cu r = Inr s"
  shows "req_from_string cu s = Inl (Rejected RESPONSE_400)"
proof -
  note enc = curl_inverseD(1) [OF assms(2)]
  let ?p = "path_query (path r) (query r)"
  let ?l = "method_name (req_method r) @ '' '' @ t @ '' '' @ version r"
  let ?h = "req_in_headers (req_method r) (snd (split_path_query ?p)) (fst (split_path_query ?p)) (version r) ?l"
  have "sent_headers (headers r) (body r) = headers r" using assms(5) by (simp add: sent_headers_def)
  then have s: "s = method_name (req_method r) @ '' '' @ t @ '' '' @ version r @ CRLF @
      (concat (map header_line (headers r)) @ (CRLF @ body r))"
    using assms(7) by (simp add: req_to_string_def req_string_sent [OF enc])
  have "req_ready OPTIONS = req_new" by (simp add: req_ready_def req_state_defs)
  then obtain n1 where "req_loop cu SIZE_MAX req_new s [] =
      req_loop cu SIZE_MAX (?h [] n1) (concat (map header_line (headers r)) @ (CRLF @ body r)) []"
    unfolding s using req_loop_request_line [OF assms(1,2), of OPTIONS] by metis
  moreover obtain n2 where "req_loop cu SIZE_MAX (?h [] n1) (concat (map header_line (headers r)) @ (CRLF @ body r)) [] =
      req_loop cu SIZE_MAX (?h (headers r) n2) (CRLF @ body r) []"
    using req_loop_headers [OF assms(4), of "[]"] assms(3) by (simp only: append_Nil) blast
  moreover have "\<exists>e. req_loop cu SIZE_MAX (?h (headers r) n2) (CR # LF # body r) [] = (e, Inl (Rejected RESPONSE_400))"
    by (subst req_loop_step [OF consume_line [of _ "[]", simplified]])
      (use assms(5,6) in \<open>simp_all add: req_in_headers_def req_state_defs req_dispatch_def req_headers_end_def\<close>)
  ultimately obtain e where "req_loop cu SIZE_MAX req_new s [] = (e, Inl (Rejected RESPONSE_400))"
    by (auto simp: CRLF_def)
  then show ?thesis by (simp add: req_from_string_def req_from_stream_def s)
qed

theorem req_bad_length_unreadable_witness:
  "\<exists>r s. req_from_string plain_curl (''POST / HTTP/1.1'' @ CRLF @ ''Transfer-Encoding: chunked'' @ CRLF @ CRLF @
       ''2'' @ CRLF @ ''hi'' @ CRLF @ ''0'' @ CRLF @ ''Content-Length: x'' @ CRLF @ CRLF) = Inr r \<and>
     req_to_string plain_curl r = Inr s \<and> req_from_string plain_curl s = Inl (Rejected RESPONSE_400)"
proof -
  let ?d = "''POST / HTTP/1.1'' @ CRLF @ ''Transfer-Encoding: chunked'' @ CRLF @ CRLF @
       ''2'' @ CRLF @ ''hi'' @ CRLF @ ''0'' @ CRLF @ ''Content-Length: x'' @ CRLF @ CRLF"
  let ?r = "(req_make POST ''/'' ''hi'' [(''/'', [[]])]
      [(''Transfer-Encoding'', ''chunked''), (''Content-Length'', ''x'')] ''HTTP/1.1'')\<lparr>log_line := ''POST / HTTP/1.1''\<rparr>"
  have parsed: "req_from_string plain_curl ?d = Inr ?r"
    by (simp add: req_from_string_def req_eval)
  obtain s where s: "req_to_string plain_curl ?r = Inr s"
    by (simp add: req_to_string_def req_string_def METHOD_TO_STRING_def url_encode_def req_eval)
  have r: "version ?r = ''HTTP/1.1''" "path ?r = ''/''" "query ?r = [(''/'', [[]])]"
    "headers ?r = [(''Transfer-Encoding'', ''chunked''), (''Content-Length'', ''x'')]"
    by (simp_all add: req_state_defs)
  have "req_from_string plain_curl s = Inl (Rejected RESPONSE_400)"
  proof (rule req_bad_length_unreadable [OF _ _ _ _ _ _ s])
    show "curl_inverse plain_curl (path_query (path ?r) (query ?r)) ''/?/=''"
      by (simp add: r curl_inverse_def path_query_def plain_curl_def NUL_def)
    show "hdr_find ''Content-Length'' (headers ?r) = Some ''x''" by (simp add: r caseless_eq_def eval_simps)
    show "hdr_wf (headers ?r)" by (simp add: r hdr_wf_def eval_simps)
    show "stoul ''x'' = Inl Invalid_argument" by (simp add: eval_simps)
  qed (simp_all add: r SUPPORTED_VERSIONS_def req_plain_header_def plain_header_def eval_simps)
  then show ?thesis using parsed s by blast
qed

end
