(* ===== verification/Http_Limits.thy ===== *)
theory Http_Limits
  imports Http_Roundtrip
begin

text \<open>
  The size limit of \<open>http_request_t::from_stream\<close> (\<open>max_size\<close>): what it guarantees for a request that
  comes in one piece, and the two ways around it, a length that wraps around and a request cut into
  fragments.
\<close>

section \<open>The size limit\<close>

text \<open>In one call, all that is consumed is counted: the body is at most what has been consumed.\<close>

definition sized :: "nat \<Rightarrow> http_request \<Rightarrow> string \<Rightarrow> bool" where
  "sized n e d \<longleftrightarrow> consumed e + length d \<le> n \<and> partial_buffer e = [] \<and> length (body e) \<le> consumed e"

lemma consume_until_sized:
  assumes "sized n e d" and "n < size_range" and "consume_until e d = (e1, True, d')"
  shows "consumed e1 + length d' \<le> n" and "length (body e) + length (partial_buffer e1) \<le> consumed e1"
    and "body e1 = body e" "consumed e \<le> consumed e1" "body_length e \<le> length d"
    and "delimiter e = [] \<Longrightarrow> partial_length e = 0 \<Longrightarrow> length (partial_buffer e1) \<le> body_length e"
proof -
  have w: "whole e d" using assms(3) by (simp add: consume_until_eq split: if_splits)
  then have e1: "e1 = e\<lparr>partial_buffer :=
             take (length (partial_buffer e) + taken e d - fst (scanned e d)) (partial_buffer e @ take (taken e d) d),
           partial_length := 0, body_length := 0, consumed := size_add (consumed e) (taken e d)\<rparr>" "d' = drop (taken e d) d"
    using assms(3) by (auto simp: consume_until_eq)
  have le: "taken e d \<le> length d" by (rule taken_le [OF w])
  then have c: "size_add (consumed e) (taken e d) = consumed e + taken e d"
    using assms(1,2) by (simp add: size_add_def sized_def)
  show "consumed e1 + length d' \<le> n" "length (body e) + length (partial_buffer e1) \<le> consumed e1"
    "body e1 = body e" "consumed e \<le> consumed e1"
    using assms(1) le by (auto simp: e1 c sized_def)
  show "body_length e \<le> length d" using w by (simp add: whole_def)
  show "delimiter e = [] \<Longrightarrow> partial_length e = 0 \<Longrightarrow> length (partial_buffer e1) \<le> body_length e"
    using assms(1) by (simp add: e1 sized_def taken_def scanned_def scan_hit)
qed

lemma req_dispatch_body:
  assumes "req_dispatch cu e1 = (e2, Inr os)"
  shows "(os = [] \<and> consumed e2 = consumed e1 \<and> (body e2 = body e1 \<or> body e2 = body e1 @ partial_buffer e1)) \<or>
    (consumed e2 = 0 \<and> body e2 = [] \<and>
      (\<exists>r. os = [r] \<and> body r = (if parse_state e1 = BODY then partial_buffer e1 else body e1)))"
  using assms
  by (cases "parse_state e1")
    (auto simp: req_dispatch_defs req_emit_def req_make_def http_entity_make_def http_entity.defs
      split: sum.splits if_splits option.splits)

lemma req_loop_sized:
  assumes "sized n e d" and "n < size_range" and "req_inv e" and "partial_length e = 0"
    and "\<forall>r \<in> set rs. length (body r) \<le> m" and "req_loop cu m e d rs = (e', Inr os)"
  shows "\<forall>r \<in> set os. length (body r) \<le> m"
  using assms
proof (induction cu m e d rs rule: req_loop.induct)
  case (1 cu m e d rs)
  obtain e1 f d' where c: "consume_until e d = (e1, f, d')" by (metis prod_cases3)
  have fit: "\<not> too_large m e" using 1(7) by (auto simp: req_loop.simps [of cu m e d])
  show ?case
  proof (cases f)
    case False
    then show ?thesis
      using 1(6,7) fit c by (auto simp: req_loop.simps [of cu m e d] split: option.splits)
  next
    case True
    then have c: "consume_until e d = (e1, True, d')" using c by simp
    note s = consume_until_sized [OF 1(2,3) c]
    obtain e2 os2 where d: "req_dispatch cu e1 = (e2, Inr os2)"
      and l: "req_loop cu m (e2\<lparr>partial_buffer := []\<rparr>) d' (rs @ os2) = (e', Inr os)"
      using 1(7) fit c by (auto simp: req_loop.simps [of cu m e d] split: prod.splits sum.splits)
    have inv2: "req_inv e2" "partial_length e2 = 0"
      using req_inv_dispatch [OF req_inv_consume [OF 1(4) c] consume_until_body_length [OF c] d
          consume_until_partial_length [OF c]] req_dispatch_progress [OF consume_until_partial_length [OF c] d] by auto
    have "consumed e + body_length e \<le> m"
      using fit s(5) 1(2,3) by (auto simp: too_large_def sized_def size_add_def)
    moreover have "parse_state e1 = parse_state e" using c by (auto simp: consume_until_eq split: if_splits)
    moreover have "parse_state e = BODY \<Longrightarrow> delimiter e = []" using 1(4) by (simp add: req_inv_def state_delimiter_def)
    ultimately have small: "\<forall>r \<in> set os2. length (body r) \<le> m"
      using req_dispatch_body [OF d] s 1(2,5) by (auto simp: sized_def split: if_splits)
    have "sized n (e2\<lparr>partial_buffer := []\<rparr>) d'"
      using req_dispatch_body [OF d] s 1(2) by (auto simp: sized_def)
    then show ?thesis
      using 1(1) [OF fit c [symmetric] refl _ d [symmetric] refl] l inv2 1(3,6) small by (auto simp: req_inv_def)
  qed
qed

text \<open>
  A limit on the size makes the parser refuse more, and changes nothing else.
\<close>

lemma req_loop_limit:
  "req_loop cu m e d rs = req_loop cu SIZE_MAX e d rs \<or> (\<exists>e'. req_loop cu m e d rs = (e', Inl (Rejected RESPONSE_413)))"
proof (induction cu m e d rs rule: req_loop.induct)
  case (1 cu m e d rs)
  obtain e1 f d' where c: "consume_until e d = (e1, f, d')" by (metis prod_cases3)
  obtain e2 r where d: "req_dispatch cu e1 = (e2, r)" by fastforce
  show ?case
  proof (cases "too_large m e")
    case True
    then show ?thesis by (simp add: req_loop.simps [of cu m e d])
  next
    case False
    then show ?thesis
      using c d 1 [OF False c [symmetric] refl] 
      by (cases r) (auto simp: req_loop.simps [of cu m e d] req_loop.simps [of cu SIZE_MAX e d])
  qed
qed

text \<open>
  The sum that is compared with the limit wraps around: with \<open>body_length\<close> the largest \<open>size_t\<close>
  it stays below \<open>consumed\<close> however many bytes have been buffered.
\<close>

definition wrapping :: "nat \<Rightarrow> http_request \<Rightarrow> bool" where
  "wrapping m e \<longleftrightarrow> parse_state e = BODY \<and> delimiter e = [] \<and> partial_length e = 0 \<and>
     0 < consumed e \<and> consumed e \<le> m \<and> consumed e < size_range \<and>
     length (partial_buffer e) + body_length e = SIZE_MAX"

lemma wrapping_fits: "wrapping m e \<Longrightarrow> \<not> too_large m e"
proof -
  assume w: "wrapping m e"
  then obtain c where c: "consumed e = Suc c" by (cases "consumed e") (auto simp: wrapping_def)
  have "size_add (size_add (consumed e) (length (partial_buffer e))) (body_length e) =
      (consumed e + (length (partial_buffer e) + body_length e)) mod size_range"
    by (simp add: size_add_def mod_simps add.assoc)
  also have "\<dots> = (c + size_range) mod size_range"
    using w size_range_pos by (simp add: wrapping_def SIZE_MAX_def c)
  also have "\<dots> = c" using w by (simp add: wrapping_def c)
  finally show ?thesis using w by (simp add: too_large_def wrapping_def c)
qed

lemma req_from_stream_wrapping:
  assumes "wrapping m e" and "length d < body_length e"
  shows "req_from_stream cu m e d =
    (e\<lparr>partial_buffer := partial_buffer e @ d, body_length := body_length e - length d\<rparr>, Inr [])"
  using assms wrapping_fits [OF assms(1)]
  by (auto simp: req_from_stream_def req_loop.simps [of cu m e d] consume_until_eq whole_def scanned_def scan_hit
      wrapping_def req_stalled_def)

lemma feed_all_wrapping:
  assumes "wrapping m e" and "length (concat pieces) < body_length e"
  shows "feed_all (req_from_stream cu m) e pieces =
    (e\<lparr>partial_buffer := partial_buffer e @ concat pieces, body_length := body_length e - length (concat pieces)\<rparr>, Inr [])"
  using assms
proof (induction pieces arbitrary: e)
  case (Cons p ps)
  let ?e = "e\<lparr>partial_buffer := partial_buffer e @ p, body_length := body_length e - length p\<rparr>"
  have "wrapping m ?e" using Cons.prems by (simp add: wrapping_def)
  then show ?case
    using Cons.IH [of ?e] Cons.prems req_from_stream_wrapping [OF Cons.prems(1), of p cu] by simp
qed simp

section \<open>Properties\<close>

text \<open>
  The size limit only refuses: with any limit a call gives exactly what it gives without one,
  or is answered with 413.
\<close>

theorem req_limit_only_refuses:
  "req_from_stream cu m e d = req_from_stream cu SIZE_MAX e d \<or>
   (\<exists>e'. req_from_stream cu m e d = (e', Inl (Rejected RESPONSE_413)))"
  using req_loop_limit [of cu m e d "[]"] by (simp add: req_from_stream_def)

text \<open>
  C28. A request that arrives in one piece never has a body larger than the limit, whether its
  length is announced or it is chunked.
\<close>

theorem req_size_limit:
  assumes "req_from_stream cu m req_new d = (e, Inr rs)" and "length d < size_range"
  shows "\<forall>r \<in> set rs. length (body r) \<le> m"
proof (cases "d = []")
  case False
  then have "req_loop cu m req_new d [] = (e, Inr rs)" using assms(1) by (simp add: req_from_stream_def)
  moreover have "sized (length d) req_new d" "partial_length req_new = 0" by (simp_all add: sized_def req_state_defs)
  ultimately show ?thesis
    using req_loop_sized [of "length d" req_new d "[]" m cu e rs] assms(2) req_inv_new by simp
qed (use assms in \<open>simp add: req_from_stream_def\<close>)

theorem req_size_limit_witness:
  "length (''GET / HTTP/1.1'' @ CRLF @ ''Content-Length: 2'' @ CRLF @ CRLF @ ''hi'') < size_range \<and>
   (\<exists>e r. req_from_stream plain_curl 40 req_new (''GET / HTTP/1.1'' @ CRLF @ ''Content-Length: 2'' @ CRLF @ CRLF @ ''hi'') =
      (e, Inr [r]) \<and> length (body r) \<le> 40)"
proof -
  let ?d = "''GET / HTTP/1.1'' @ CRLF @ ''Content-Length: 2'' @ CRLF @ CRLF @ ''hi''"
  have "\<exists>e r. req_from_stream plain_curl 40 req_new ?d = (e, Inr [r])"
    by (simp add: req_eval)
  then obtain e r where run: "req_from_stream plain_curl 40 req_new ?d = (e, Inr [r])" by blast
  have "length ?d < size_range" by (simp add: eval_simps)
  then show ?thesis using req_size_limit [OF run] run by simp
qed

text \<open>
  C30. The limit does not bound what is buffered when \<open>Content-Length\<close> is the largest \<open>size_t\<close>
  (which \<open>-1\<close> is read as, too): the sum compared with it wraps around, and every byte that
  follows is kept, up to the address space, with no refusal.
\<close>

theorem req_limit_wraps:
  assumes "wrapping m e" and "length (concat pieces) < body_length e"
  shows "\<exists>e'. feed_all (req_from_stream cu m) e pieces = (e', Inr []) \<and>
    length (partial_buffer e') = length (partial_buffer e) + length (concat pieces)"
  using feed_all_wrapping [OF assms] by simp

theorem req_limit_wraps_witness:
  "\<exists>e. req_from_stream plain_curl 60 req_new
       (''GET / HTTP/1.1'' @ CRLF @ ''Content-Length: 18446744073709551615'' @ CRLF @ CRLF) = (e, Inr []) \<and>
     wrapping 60 e \<and>
     (\<exists>e'. feed_all (req_from_stream plain_curl 60) e [replicate 50 CHR ''x'', replicate 50 CHR ''y''] = (e', Inr []) \<and>
        length (partial_buffer e') = 100)"
proof -
  let ?d = "''GET / HTTP/1.1'' @ CRLF @ ''Content-Length: 18446744073709551615'' @ CRLF @ CRLF"
  let ?p = "[replicate 50 CHR ''x'', replicate 50 CHR ''y'']"
  have "\<exists>e. req_from_stream plain_curl 60 req_new ?d = (e, Inr []) \<and> wrapping 60 e \<and>
      body_length e = SIZE_MAX \<and> partial_buffer e = []"
    by (simp add: req_eval wrapping_def)
  then obtain e where e: "req_from_stream plain_curl 60 req_new ?d = (e, Inr [])" "wrapping 60 e"
    "body_length e = SIZE_MAX" "partial_buffer e = []" by blast
  have "length (concat ?p) < body_length e" by (simp add: e SIZE_MAX_numeral)
  from req_limit_wraps [OF e(2) this, of plain_curl] show ?thesis
    using e by (intro exI [of _ e]) (simp del: feed_all.simps)
qed

text \<open>
  Only the last fragment of a piece is counted: a header line that comes in two parts, split
  inside its line break, adds one byte to \<open>consumed\<close> however long it is. Sent this way, headers
  pass the limit whatever they add up to.
\<close>

theorem req_fragment_uncounted:
  assumes "parse_state e = HEADERS" "delimiter e = CRLF" "partial_length e = 0" "body_length e = 0" "partial_buffer e = []"
    and "parse_header l = Some kv" "CR \<notin> set l" "consumed e + length l + 1 \<le> m" "m < size_range"
  shows "feed_all (req_from_stream cu m) e [l @ [CR], [LF]] =
    (e\<lparr>consumed := consumed e + 1, headers := hdr_insert kv (headers e), partial_buffer := []\<rparr>, Inr [])"
proof -
  let ?e = "e\<lparr>partial_buffer := l @ [CR], partial_length := 1\<rparr>"
  have "scan CRLF 0 (l @ [CR]) = (1, length l + 1)" using assms(7) by (induction l) auto
  then have c1: "consume_until e (l @ [CR]) = (?e, False, l @ [CR])"
    using assms by (simp add: consume_until_eq whole_def scanned_def)
  have c2: "consume_until ?e [LF] =
      (e\<lparr>partial_buffer := l, consumed := consumed e + 1\<rparr>, True, [])"
    using assms by (simp add: consume_until_eq whole_def scanned_def taken_def size_add_def)
  have c3: "consume_until (e\<lparr>consumed := n, headers := hs, partial_buffer := []\<rparr>) [] =
      (e\<lparr>consumed := n, headers := hs, partial_buffer := []\<rparr>, False, [])" for hs n
    using assms(1-5) by (simp add: consume_until_eq whole_def scanned_def)
  have fits: "\<not> too_large m e" "\<not> too_large m ?e"
    "\<not> too_large m (e\<lparr>consumed := consumed e + 1, headers := hs, partial_buffer := []\<rparr>)" for hs
    using assms by (simp_all add: too_large_def size_add_def)
  have "l \<noteq> []" using assms(6) by (auto simp: parse_header_def)
  have "req_from_stream cu m e (l @ [CR]) = (?e, Inr [])"
    using c1 fits assms(1) by (simp add: req_from_stream_def req_loop.simps [of cu m e] req_stalled_def)
  moreover have "req_from_stream cu m ?e [LF] =
      (e\<lparr>consumed := consumed e + 1, headers := hdr_insert kv (headers e), partial_buffer := []\<rparr>, Inr [])"
    using c2 c3 fits assms(1,5,6) \<open>l \<noteq> []\<close>
    by (simp add: req_from_stream_def req_loop.simps req_dispatch_def req_stalled_def)
  ultimately show ?thesis by simp
qed

theorem req_fragment_uncounted_witness:
  "\<exists>e. req_from_stream plain_curl 40 req_new (''GET / HTTP/1.1'' @ CRLF) = (e, Inr []) \<and>
     feed_all (req_from_stream plain_curl 40) e [''A: 0123456789'' @ [CR], [LF]] =
       (e\<lparr>consumed := 17, headers := [(''A'', ''0123456789'')], partial_buffer := []\<rparr>, Inr [])"
proof -
  have "\<exists>e. req_from_stream plain_curl 40 req_new (''GET / HTTP/1.1'' @ CRLF) = (e, Inr []) \<and>
      parse_state e = HEADERS \<and> delimiter e = CRLF \<and> partial_length e = 0 \<and> body_length e = 0 \<and>
      partial_buffer e = [] \<and> consumed e = 16 \<and> headers e = []"
    by (simp add: req_eval)
  then obtain e where e: "req_from_stream plain_curl 40 req_new (''GET / HTTP/1.1'' @ CRLF) = (e, Inr [])"
      "parse_state e = HEADERS" "delimiter e = CRLF" "partial_length e = 0" "body_length e = 0" "partial_buffer e = []"
      "consumed e = 16" "headers e = []" by blast
  have "parse_header ''A: 0123456789'' = Some (''A'', ''0123456789'')" by (simp add: parse_header_def)
  from req_fragment_uncounted [OF e(2-6) this, of 40 plain_curl] e show ?thesis
    by (intro exI [of _ e]) (simp add: hdr_insert_def CR_def size_range_numeral del: feed_all.simps)
qed

end
