(* ===== verification/Sockets.thy ===== *)
theory Sockets
  imports Prelude
begin

text \<open>
  Sending through \<open>zmq::socket_t\<close> (\<open>zmq_helpers.cpp\<close>). What the library does with a frame is a
  parameter, a function of everything that has happened so far; every attempt is recorded, so that
  statements about what goes over the wire are statements about the list of events. Time and the
  logger's time stamps are functions of the same list.
\<close>

section \<open>Frames and events\<close>

text \<open>
  A frame of a message: bytes, the memory of a request info (\<open>'i\<close>), or that of a 64-bit key.
\<close>

datatype 'i frame = Bytes string | Info 'i | Key u64

datatype sock = SERVER | CLIENT | PROXY | LOOPBACK | INTERRUPT | UPSTREAM | DOWNSTREAM

text \<open>What \<open>zmq_send\<close> reports: success, \<open>EAGAIN\<close>, or another error with its text.\<close>

datatype send_result = Sent | Again | Failed string

datatype 'i event =
    Polled
  | Attempt sock "'i frame" bool send_result
  | Logged string
  | Complained string

text \<open>
  The state all components have, and the exceptions they may throw: the worker's \<open>interrupt_t\<close>, any
  other \<open>std::exception\<close>, or something that does not derive from it (\<open>Foreign\<close>); \<open>Undefined\<close> marks the use of an
  iterator or reference to an element that is not there.
\<close>

record 'i io =
  events :: "'i event list"

datatype exn = Std std_error | Interrupted u32 | Foreign | Undefined

record 'i world =
  net :: "'i event list \<Rightarrow> sock \<Rightarrow> 'i frame \<Rightarrow> bool \<Rightarrow> send_result"
  clock :: "'i event list \<Rightarrow> int"
  timestamp :: "'i event list \<Rightarrow> string"

section \<open>Operations\<close>

definition note_event :: "'i event \<Rightarrow> ('i, 'z) io_scheme \<Rightarrow> ('i, 'z) io_scheme" where
  "note_event v s = s\<lparr>events := events s @ [v]\<rparr>"

definition complain :: "string \<Rightarrow> (('i, 'z) io_scheme, exn, unit) action" where
  "complain msg = modify (note_event (Complained msg))"

text \<open>\<open>sndmore\<close> is the flag \<open>ZMQ_SNDMORE\<close>.\<close>

definition send :: "('i, 'w) world_scheme \<Rightarrow> sock \<Rightarrow> 'i frame \<Rightarrow> bool \<Rightarrow> (('i, 'z) io_scheme, exn, bool) action" where
  "send w sk f sndmore s =
     (let r = net w (events s) sk f sndmore;
          s' = note_event (Attempt sk f sndmore r) s
      in case r of
           Sent \<Rightarrow> (s', Inr True)
         | Again \<Rightarrow> (s', Inr False)
         | Failed msg \<Rightarrow> (s', Inl (Std (Runtime_error msg))))"

text \<open>The condition \<open>send(f1, ZMQ_SNDMORE) && send(f2, 0)\<close>.\<close>

definition send_two :: "('i, 'w) world_scheme \<Rightarrow> sock \<Rightarrow> 'i frame \<Rightarrow> 'i frame \<Rightarrow> (('i, 'z) io_scheme, exn, bool) action" where
  "send_two w sk f1 f2 = bnd (send w sk f1 True) (\<lambda>ok. if ok then send w sk f2 False else ret False)"

text \<open>\<open>send_all\<close> takes the address of the last message first, which an empty list does not have.\<close>

fun send_frames :: "('i, 'w) world_scheme \<Rightarrow> sock \<Rightarrow> 'i frame list \<Rightarrow> (('i, 'z) io_scheme, exn, nat) action" where
  "send_frames w sk [] = ret 0"
| "send_frames w sk (f # fs) =
     bnd (send w sk f (fs \<noteq> [])) (\<lambda>ok. bnd (send_frames w sk fs) (\<lambda>n. ret ((if ok then 1 else 0) + n)))"

definition send_all :: "('i, 'w) world_scheme \<Rightarrow> sock \<Rightarrow> 'i frame list \<Rightarrow> (('i, 'z) io_scheme, exn, nat) action" where
  "send_all w sk fs = (if fs = [] then raise Undefined else send_frames w sk fs)"

text \<open>The condition \<open>send(f, ZMQ_SNDMORE) && send_all(fs, 0)\<close>, a number that counts as true unless it is 0.\<close>

definition send_headed :: "('i, 'w) world_scheme \<Rightarrow> sock \<Rightarrow> 'i frame \<Rightarrow> 'i frame list \<Rightarrow> (('i, 'z) io_scheme, exn, bool) action" where
  "send_headed w sk f fs =
     bnd (send w sk f True) (\<lambda>ok. if \<not> ok then ret False else bnd (send_all w sk fs) (\<lambda>n. ret (n \<noteq> 0)))"

text \<open>
  \<open>catch (const std::exception& e)\<close> around a statement, with the message it logs; \<open>interrupt_t\<close> derives
  from \<open>std::runtime_error\<close> and is caught as well.
\<close>

definition catch_std :: "string \<Rightarrow> (('i, 'z) io_scheme, exn, 'a) action \<Rightarrow> (('i, 'z) io_scheme, exn, unit) action" where
  "catch_std who m s =
     (case m s of
        (s', Inl (Std x)) \<Rightarrow> (note_event (Complained who) s', Inr ())
      | (s', Inl (Interrupted n)) \<Rightarrow> (note_event (Complained who) s', Inr ())
      | (s', Inl x) \<Rightarrow> (s', Inl x)
      | (s', Inr _) \<Rightarrow> (s', Inr ()))"

section \<open>Facts\<close>

text \<open>An invariant that does not look at the events is kept by everything here.\<close>

definition event_blind :: "(('i, 'z) io_scheme \<Rightarrow> bool) \<Rightarrow> bool" where
  "event_blind I \<longleftrightarrow> (\<forall>s v. I (note_event v s) = I s)"

text \<open>One that looks at some sockets only is kept by sending on the others.\<close>

fun is_attempt :: "'i event \<Rightarrow> bool" where
  "is_attempt (Attempt _ _ _ _) = True"
| "is_attempt _ = False"

definition hushed :: "(('i, 'z) io_scheme \<Rightarrow> bool) \<Rightarrow> bool" where
  "hushed I \<longleftrightarrow> (\<forall>s v. \<not> is_attempt v \<longrightarrow> I s \<longrightarrow> I (note_event v s))"

definition tolerates :: "sock \<Rightarrow> (('i, 'z) io_scheme \<Rightarrow> bool) \<Rightarrow> bool" where
  "tolerates sk I \<longleftrightarrow> (\<forall>s f sndmore r. I s \<longrightarrow> I (note_event (Attempt sk f sndmore r) s))"

named_theorems keeps_intros "rules that show an invariant to be kept by an action"

lemma blind_hushed [intro]: "event_blind I \<Longrightarrow> hushed I"
  by (simp add: event_blind_def hushed_def)

lemma blind_tolerates [intro]: "event_blind I \<Longrightarrow> tolerates sk I"
  by (simp add: event_blind_def tolerates_def)

lemma keeps_modify [keeps_intros]: "(\<And>s. I s \<Longrightarrow> I (f s)) \<Longrightarrow> keeps I (modify f)"
  by (simp add: keeps_def modify_def)

lemma keeps_complain [keeps_intros]: "hushed I \<Longrightarrow> keeps I (complain msg)"
  by (simp add: complain_def keeps_def modify_def hushed_def)

lemma keeps_send [keeps_intros]: "tolerates sk I \<Longrightarrow> keeps I (send w sk f sndmore)"
  by (auto simp: keeps_def send_def Let_def tolerates_def split: send_result.split)

lemma keeps_send_two [keeps_intros]: "tolerates sk I \<Longrightarrow> keeps I (send_two w sk f1 f2)"
  unfolding send_two_def by (intro keeps_bnd keeps_send) (auto intro: keeps_send)

lemma keeps_send_frames [keeps_intros]: "tolerates sk I \<Longrightarrow> keeps I (send_frames w sk fs)"
  by (induction fs) (auto intro!: keeps_bnd keeps_send)

lemma keeps_send_all [keeps_intros]: "tolerates sk I \<Longrightarrow> keeps I (send_all w sk fs)"
  by (auto simp: send_all_def intro: keeps_send_frames)

lemma keeps_send_headed [keeps_intros]: "tolerates sk I \<Longrightarrow> keeps I (send_headed w sk f fs)"
  unfolding send_headed_def by (auto intro!: keeps_bnd keeps_send keeps_send_all)

lemma keeps_catch_std [keeps_intros]: "hushed I \<Longrightarrow> keeps I m \<Longrightarrow> keeps I (catch_std who m)"
  by (fastforce simp: keeps_def catch_std_def hushed_def split: prod.split sum.split exn.split)

text \<open>The state apart from the events. Sending and logging leave it alone, and end with a value or a \<open>std::exception\<close>.\<close>

definition quiet :: "('i, 'z) io_scheme \<Rightarrow> ('i, 'z) io_scheme" where
  "quiet s = s\<lparr>events := []\<rparr>"

definition tame :: "(('i, 'z) io_scheme, exn, 'a) action \<Rightarrow> bool" where
  "tame m \<longleftrightarrow> (\<forall>s s' r. m s = (s', r) \<longrightarrow> quiet s' = quiet s \<and> ((\<exists>x. r = Inl (Std x)) \<or> (\<exists>y. r = Inr y)))"

lemma quiet_note [simp]: "quiet (note_event v s) = quiet s"
  by (simp add: quiet_def note_event_def)

lemma quiet_quiet [simp]: "quiet (quiet s) = quiet s"
  by (simp add: quiet_def)

lemma tame_ret [simp, keeps_intros]: "tame (ret x)"
  by (simp add: tame_def ret_def)

lemma tame_raise_std [simp, keeps_intros]: "tame (raise (Std x))"
  by (simp add: tame_def raise_def)

lemma tame_complain [simp, keeps_intros]: "tame (complain msg)"
  by (simp add: tame_def complain_def modify_def)

lemma tame_send [simp, keeps_intros]: "tame (send w sk f sndmore)"
  by (auto simp: tame_def send_def Let_def split: send_result.splits)

lemma tame_bnd [keeps_intros]: "tame m \<Longrightarrow> (\<And>x. tame (f x)) \<Longrightarrow> tame (bnd m f)"
proof (unfold tame_def, intro allI impI)
  fix s s' r
  assume m: "\<forall>s s' r. m s = (s', r) \<longrightarrow> quiet s' = quiet s \<and> ((\<exists>x. r = Inl (Std x)) \<or> (\<exists>y. r = Inr y))"
    and f: "\<And>x. \<forall>s s' r. f x s = (s', r) \<longrightarrow> quiet s' = quiet s \<and> ((\<exists>x. r = Inl (Std x)) \<or> (\<exists>y. r = Inr y))"
    and eq: "bnd m f s = (s', r)"
  obtain s1 q where s1: "m s = (s1, q)" by fastforce
  then have q: "quiet s1 = quiet s" "(\<exists>x. q = Inl (Std x)) \<or> (\<exists>y. q = Inr y)" using m by blast+
  show "quiet s' = quiet s \<and> ((\<exists>x. r = Inl (Std x)) \<or> (\<exists>y. r = Inr y))"
  proof (cases q)
    case (Inl x)
    then show ?thesis using eq s1 q by (auto simp: bnd_def)
  next
    case (Inr y)
    then have "f y s1 = (s', r)" using eq s1 by (simp add: bnd_def)
    then show ?thesis using f q(1) by metis
  qed
qed

lemma tame_send_two [simp, keeps_intros]: "tame (send_two w sk f1 f2)"
  unfolding send_two_def by (rule tame_bnd) simp_all

lemma tame_if: "tame a \<Longrightarrow> tame b \<Longrightarrow> tame (if c then a else b)"
  by simp

lemma tame_send_frames [simp, keeps_intros]: "tame (send_frames w sk fs)"
  by (induction fs) (auto intro!: tame_bnd)

lemma tame_send_all: "fs \<noteq> [] \<Longrightarrow> tame (send_all w sk fs)"
  by (simp add: send_all_def tame_def) (use tame_send_frames [of w sk fs] in \<open>auto simp: tame_def\<close>)

lemma tame_send_headed: "fs \<noteq> [] \<Longrightarrow> tame (send_headed w sk f fs)"
  unfolding send_headed_def by (auto intro!: tame_bnd tame_send_all)

lemma tameE:
  assumes "tame m" and "m s = (s', r)"
  obtains (threw) x where "r = Inl (Std x)" "quiet s' = quiet s" | (ok) y where "r = Inr y" "quiet s' = quiet s"
  using assms unfolding tame_def by blast

lemma event_blind_quiet: "event_blind I \<longleftrightarrow> (\<forall>s s'. quiet s = quiet s' \<longrightarrow> I s = I s')"
proof
  assume I: "event_blind I"
  have ev: "I (s\<lparr>events := vs\<rparr>) = I (s\<lparr>events := []\<rparr>)" for vs and s :: "('a, 'b) io_scheme"
  proof (induction vs rule: rev_induct)
    case (snoc v vs)
    have "I (note_event v (s\<lparr>events := vs\<rparr>)) = I (s\<lparr>events := vs\<rparr>)" using I by (simp add: event_blind_def)
    then show ?case using snoc by (simp add: note_event_def)
  qed simp
  have same: "I s = I (quiet s)" for s :: "('a, 'b) io_scheme"
    using ev [where s = s and vs = "events s"] by (simp add: quiet_def)
  show "\<forall>s s'. quiet s = quiet s' \<longrightarrow> I s = I s'"
  proof (intro allI impI)
    fix s s' :: "('a, 'b) io_scheme"
    assume "quiet s = quiet s'"
    then show "I s = I s'" using same by metis
  qed
qed (unfold event_blind_def, metis quiet_note)

lemma keeps_tame: "event_blind I \<Longrightarrow> tame m \<Longrightarrow> keeps I m"
proof (simp add: keeps_def, intro allI impI)
  fix s
  assume "event_blind I" "tame m" "I s"
  moreover obtain s' r where "m s = (s', r)" by fastforce
  ultimately show "I (fst (m s))" unfolding event_blind_quiet tame_def by (metis fst_conv)
qed

text \<open>A sequence that ends, step by step.\<close>

lemma bnd_Inr: "bnd m f s = (s', Inr y) \<longleftrightarrow> (\<exists>s1 x. m s = (s1, Inr x) \<and> f x s1 = (s', Inr y))"
  by (auto simp: bnd_def split: prod.splits sum.splits)

lemma bnd_Inl: "bnd m f s = (s', Inl e) \<longleftrightarrow> m s = (s', Inl e) \<or> (\<exists>s1 x. m s = (s1, Inr x) \<and> f x s1 = (s', Inl e))"
  by (auto simp: bnd_def split: prod.splits sum.splits)

lemma bnd_step: "m s = (s', Inr x) \<Longrightarrow> bnd m f s = f x s'"
  by (simp add: bnd_def)

lemmas seq_simps = bnd_Inr bnd_Inl ret_def raise_def modify_def

text \<open>A message that goes out whole: every frame but the last says that more follow.\<close>

fun sent_frames :: "sock \<Rightarrow> 'i frame list \<Rightarrow> 'i event list" where
  "sent_frames sk [] = []"
| "sent_frames sk (f # fs) = Attempt sk f (fs \<noteq> []) Sent # sent_frames sk fs"

definition reliable :: "('i, 'w) world_scheme \<Rightarrow> sock \<Rightarrow> bool" where
  "reliable w sk \<longleftrightarrow> (\<forall>vs f sndmore. net w vs sk f sndmore = Sent)"

lemma send_reliable: "reliable w sk \<Longrightarrow> send w sk f sndmore s = (note_event (Attempt sk f sndmore Sent) s, Inr True)"
  by (simp add: send_def reliable_def)

lemma send_frames_reliable:
  "reliable w sk \<Longrightarrow> send_frames w sk fs s = (s\<lparr>events := events s @ sent_frames sk fs\<rparr>, Inr (length fs))"
  by (induction fs arbitrary: s) (simp_all add: ret_def bnd_def send_reliable note_event_def)

lemma send_all_reliable:
  "reliable w sk \<Longrightarrow> fs \<noteq> [] \<Longrightarrow>
   send_all w sk fs s = (s\<lparr>events := events s @ sent_frames sk fs\<rparr>, Inr (length fs))"
  by (simp add: send_all_def send_frames_reliable)

lemma send_headed_reliable:
  "reliable w sk \<Longrightarrow> fs \<noteq> [] \<Longrightarrow>
   send_headed w sk f fs s = (s\<lparr>events := events s @ sent_frames sk (f # fs)\<rparr>, Inr True)"
  by (simp add: send_headed_def bnd_def send_reliable send_all_reliable ret_def note_event_def)

section \<open>Attempts on one socket\<close>

fun attempts :: "sock \<Rightarrow> 'i event list \<Rightarrow> ('i frame \<times> bool \<times> send_result) list" where
  "attempts sk [] = []"
| "attempts sk (Attempt sk' f m r # vs) = (if sk' = sk then [(f, m, r)] else []) @ attempts sk vs"
| "attempts sk (v # vs) = attempts sk vs"

lemma attempts_append [simp]: "attempts sk (xs @ ys) = attempts sk xs @ attempts sk ys"
  by (induction sk xs rule: attempts.induct) auto

section \<open>Receiving\<close>

text \<open>
  What \<open>zmq_msg_recv\<close> and the option \<open>ZMQ_RCVMORE\<close> report in one turn of \<open>recv_all\<close>: a frame or
  \<open>EAGAIN\<close>, and whether there is more; or an error.
\<close>

datatype 'm receipt = Received 'm bool | Nothing bool | Broken string

definition recv :: "'m receipt \<Rightarrow> std_error + 'm option" where
  "recv r = (case r of Received m _ \<Rightarrow> Inr (Some m) | Nothing _ \<Rightarrow> Inr None | Broken e \<Rightarrow> Inl (Runtime_error e))"

fun rcv_more :: "'m receipt \<Rightarrow> bool" where
  "rcv_more (Received _ b) = b"
| "rcv_more (Nothing b) = b"
| "rcv_more (Broken _) = False"

text \<open>\<open>None\<close> is a call that blocks because nothing more has come.\<close>

fun recv_all :: "'m receipt list \<Rightarrow> (std_error + 'm list) option" where
  "recv_all [] = None"
| "recv_all (r # rs) =
     (case recv r of
        Inl e \<Rightarrow> Some (Inl e)
      | Inr m \<Rightarrow>
          let part = (case m of None \<Rightarrow> [] | Some x \<Rightarrow> [x]) in
          if rcv_more r then map_option (map_sum id (\<lambda>ms. part @ ms)) (recv_all rs) else Some (Inr part))"

text \<open>The receipts of a whole message: every frame but the last is followed by more.\<close>

fun arriving :: "'m list \<Rightarrow> 'm receipt list" where
  "arriving [] = []"
| "arriving (m # ms) = Received m (ms \<noteq> []) # arriving ms"

lemma recv_all_whole: "ms \<noteq> [] \<Longrightarrow> recv_all (arriving ms @ rest) = Some (Inr ms)"
  by (induction ms) (auto simp: recv_def Let_def)

lemma recv_all_nothing: "recv_all (Nothing False # rest) = Some (Inr [])"
  by (simp add: recv_def)

end
