(* ===== verification/Server.thy ===== *)
theory Server
  imports Sockets Netstring Http_Request
begin

text \<open>
  \<open>server_t\<close> of \<open>prime_server.hpp\<close> and \<open>prime_server.cpp\<close>, generic in the protocol as the template
  is: sessions, outstanding requests, the request history and the four handlers \<open>handle_request\<close>,
  \<open>enqueue\<close>, \<open>dequeue\<close> and \<open>handle_timeouts\<close>, composed by \<open>serve\<close>. The locale \<open>server_protocol\<close> is
  what the server relies on in a protocol; both protocols meet it.
\<close>

section \<open>The protocol interface\<close>

text \<open>
  The template arguments \<open>request_container_t\<close> (\<open>'r\<close>), \<open>request_info_t\<close> (\<open>'i\<close>) and the container's
  \<open>request_exception_t\<close> (\<open>'x\<close>), with the members the server uses.
\<close>

record ('r, 'i, 'x) protocol =
  p_new :: 'r
  p_from_stream :: "nat \<Rightarrow> 'r \<Rightarrow> string \<Rightarrow> 'r \<times> ((std_error + 'x) + 'r list)"
  p_to_info :: "int \<Rightarrow> 'r \<Rightarrow> u32 \<Rightarrow> 'i"
  p_to_string :: "'r \<Rightarrow> std_error + string"
  p_timeout :: "'i \<Rightarrow> 'i \<times> string"
  p_keep_alive :: "'i \<Rightarrow> bool"
  p_key :: "'i \<Rightarrow> u64"
  p_id :: "'i \<Rightarrow> u32"
  p_time_stamp :: "'i \<Rightarrow> u32"
  p_enqueued :: "'r \<Rightarrow> u64 list"
  p_remember :: "u64 \<Rightarrow> 'r \<Rightarrow> 'r"
  p_response :: "'x \<Rightarrow> string"
  p_log :: "string \<Rightarrow> u32 \<Rightarrow> 'r \<Rightarrow> string"
  p_exception_log :: "string \<Rightarrow> u32 \<Rightarrow> 'x \<Rightarrow> string"
  p_info_log :: "string \<Rightarrow> 'i \<Rightarrow> nat \<Rightarrow> string"

definition netstring_protocol :: "(netstring_entity, netstring_request_info, netstring_exception) protocol" where
  "netstring_protocol =
     \<lparr>p_new = ns_entity,
      p_from_stream = (\<lambda>m r d. case ns_from_stream m r d of (r', Inl x) \<Rightarrow> (r', Inl (Inr x)) | (r', Inr rs) \<Rightarrow> (r', Inr rs)),
      p_to_info = ns_to_info, p_to_string = (\<lambda>r. Inr (ns_to_string r)), p_timeout = (\<lambda>i. (i, ns_timeout i)),
      p_keep_alive = ns_keep_alive, p_key = ns_key, p_id = ns_id, p_time_stamp = ns_time_stamp,
      p_enqueued = ns_enqueued, p_remember = (\<lambda>k r. r\<lparr>ns_enqueued := ns_enqueued r @ [k]\<rparr>),
      p_response = ns_response, p_log = ns_log, p_exception_log = ns_exception_log, p_info_log = ns_info_log\<rparr>"

definition http_protocol :: "curl \<Rightarrow> (http_request, http_request_info, http_exception) protocol" where
  "http_protocol cu =
     \<lparr>p_new = req_new,
      p_from_stream = (\<lambda>m r d. case req_from_stream cu m r d of
          (r', Inl (Thrown x)) \<Rightarrow> (r', Inl (Inl x))
        | (r', Inl (Rejected x)) \<Rightarrow> (r', Inl (Inr x))
        | (r', Inr rs) \<Rightarrow> (r', Inr rs)),
      p_to_info = req_to_info, p_to_string = req_to_string cu, p_timeout = req_timeout,
      p_keep_alive = http_keep_alive, p_key = http_key, p_id = info_id, p_time_stamp = info_time_stamp,
      p_enqueued = enqueued, p_remember = (\<lambda>k r. r\<lparr>enqueued := enqueued r @ [k]\<rparr>),
      p_response = exception_bytes, p_log = req_log, p_exception_log = exception_log, p_info_log = info_log\<rparr>"

section \<open>State\<close>

text \<open>
  The maps hold each connection's streaming parser and each outstanding request's connection. A
  message used as a key is its bytes (\<open>message_t::operator==\<close>).
\<close>

record ('r, 'i) server = "'i io" +
  sessions :: "string \<rightharpoonup> 'r"
  requests :: "u64 \<rightharpoonup> string"
  request_history :: "'i list"
  request_id :: u32

record ('r, 'i) server_config = "'i world" +
  log_enabled :: bool
  max_request_size :: nat
  request_timeout :: u32
  health_check_matcher :: "('r \<Rightarrow> bool) option"
  health_check_response :: string

type_synonym ('r, 'i, 'a) serving = "(('r, 'i) server, exn, 'a) action"

definition server_new :: "('r, 'i) server" where
  "server_new = \<lparr>events = [], sessions = Map.empty, requests = Map.empty, request_history = [], request_id = 0\<rparr>"

section \<open>Handlers\<close>

definition log_line_if :: "('r, 'i) server_config \<Rightarrow> (string \<Rightarrow> string) \<Rightarrow> ('r, 'i, unit) serving" where
  "log_line_if cf line s =
     (if log_enabled cf then note_event (Logged (line (timestamp cf (events s)))) s else s, Inr ())"

text \<open>The loop \<open>for (auto id_time_stamp : enqueued) interrupt.send(...)\<close>.\<close>

fun interrupt_all :: "('r, 'i) server_config \<Rightarrow> u64 list \<Rightarrow> ('r, 'i, unit) serving" where
  "interrupt_all cf [] = ret ()"
| "interrupt_all cf (k # ks) = bnd (send cf INTERRUPT (Key k) False) (\<lambda>_. interrupt_all cf ks)"

text \<open>The end of a session the server closes itself: its outstanding requests are interrupted.\<close>

definition close_session :: "('r, 'i, 'x) protocol \<Rightarrow> ('r, 'i) server_config \<Rightarrow> string \<Rightarrow> ('r, 'i, unit) serving" where
  "close_session pr cf c s =
     (case sessions s c of
        None \<Rightarrow> (s, Inl Undefined)
      | Some r \<Rightarrow>
          bnd (interrupt_all cf (p_enqueued pr r))
            (\<lambda>_. modify (\<lambda>s. s\<lparr>sessions := (sessions s)(c := None)\<rparr>)) s)"

definition dequeue :: "('r, 'i, 'x) protocol \<Rightarrow> ('r, 'i) server_config \<Rightarrow> 'i \<Rightarrow> string \<Rightarrow> ('r, 'i, bool) serving" where
  "dequeue pr cf info response s =
     (case requests s (p_key pr info) of
        None \<Rightarrow> (s, Inr False)
      | Some c \<Rightarrow>
          bnd (send_two cf CLIENT (Bytes c) (Bytes response)) (\<lambda>ok.
          bnd (if \<not> ok then complain ''Server failed to dequeue request''
               else log_line_if cf (\<lambda>ts. p_info_log pr ts info (length response))) (\<lambda>_.
          bnd (if p_keep_alive pr info then ret False else send_two cf CLIENT (Bytes c) (Bytes [])) (\<lambda>closed.
          bnd (if closed then close_session pr cf c else ret ()) (\<lambda>_.
          bnd (modify (\<lambda>s. s\<lparr>requests := (requests s)(p_key pr info := None)\<rparr>)) (\<lambda>_.
          ret True))))) s)"

text \<open>
  One turn of the loop of \<open>enqueue\<close>; the result is whether to go on. \<open>request\<close>, the session's
  parser, is a reference: once the session is gone it must not be used.
\<close>

definition remember :: "('r, 'i, 'x) protocol \<Rightarrow> string \<Rightarrow> 'i \<Rightarrow> ('r, 'i, unit) serving" where
  "remember pr requester info s =
     (case sessions s requester of
        None \<Rightarrow> (s, Inl Undefined)
      | Some request \<Rightarrow>
          let k = p_key pr info in
          (s\<lparr>sessions := (sessions s)(requester \<mapsto> p_remember pr k request),
             requests := (if requests s k = None then (requests s)(k \<mapsto> requester) else requests s),
             request_history := request_history s @ [info]\<rparr>, Inr ()))"

definition forward_request :: "('r, 'i, 'x) protocol \<Rightarrow> ('r, 'i) server_config \<Rightarrow> 'i \<Rightarrow> 'r \<Rightarrow> ('r, 'i, bool) serving" where
  "forward_request pr cf info parsed =
     bnd (send cf PROXY (Info info) True) (\<lambda>ok.
       if \<not> ok then ret False
       else case p_to_string pr parsed of
              Inl x \<Rightarrow> raise (Std x)
            | Inr bytes \<Rightarrow> send cf PROXY (Bytes bytes) False)"

definition enqueue_with :: "('r, 'i, 'x) protocol \<Rightarrow> ('r, 'i) server_config \<Rightarrow> string \<Rightarrow> 'r \<Rightarrow> 'i \<Rightarrow> bool \<Rightarrow> ('r, 'i, bool) serving" where
  "enqueue_with pr cf requester parsed info health_check =
     bnd (modify (\<lambda>s. s\<lparr>request_id := request_id s + 1\<rparr>)) (\<lambda>_.
     bnd (if health_check then ret True else forward_request pr cf info parsed) (\<lambda>ok.
       if \<not> ok then bnd (complain ''Server failed to enqueue request'') (\<lambda>_. ret False)
       else
         bnd (log_line_if cf (\<lambda>ts. p_log pr ts (p_id pr info) parsed)) (\<lambda>_.
         bnd (remember pr requester info) (\<lambda>_.
         bnd (if health_check then dequeue pr cf info (health_check_response cf) else ret True) (\<lambda>_.
         ret True)))))"

definition enqueue_one :: "('r, 'i, 'x) protocol \<Rightarrow> ('r, 'i) server_config \<Rightarrow> string \<Rightarrow> 'r \<Rightarrow> ('r, 'i, bool) serving" where
  "enqueue_one pr cf requester parsed s =
     enqueue_with pr cf requester parsed (p_to_info pr (clock cf (events s)) parsed (request_id s))
       (case health_check_matcher cf of None \<Rightarrow> False | Some f \<Rightarrow> f parsed) s"

fun enqueue_all :: "('r, 'i, 'x) protocol \<Rightarrow> ('r, 'i) server_config \<Rightarrow> string \<Rightarrow> 'r list \<Rightarrow> ('r, 'i, bool) serving" where
  "enqueue_all pr cf requester [] = ret True"
| "enqueue_all pr cf requester (r # rs) =
     bnd (enqueue_one pr cf requester r) (\<lambda>ok. if ok then enqueue_all pr cf requester rs else ret False)"

definition log_rejection :: "('r, 'i, 'x) protocol \<Rightarrow> ('r, 'i) server_config \<Rightarrow> 'r \<Rightarrow> 'x \<Rightarrow> ('r, 'i, unit) serving" where
  "log_rejection pr cf request x s =
     bnd (log_line_if cf (\<lambda>ts. p_log pr ts (request_id s) request))
       (\<lambda>_. log_line_if cf (\<lambda>ts. p_exception_log pr ts (request_id s) x)) s"

definition reject :: "('r, 'i, 'x) protocol \<Rightarrow> ('r, 'i) server_config \<Rightarrow> string \<Rightarrow> 'r \<Rightarrow> 'x \<Rightarrow> ('r, 'i, bool) serving" where
  "reject pr cf requester request x =
     bnd (send_two cf CLIENT (Bytes requester) (Bytes (p_response pr x))) (\<lambda>ok.
     bnd (if \<not> ok then complain ''Server failed to send rejection response'' else log_rejection pr cf request x) (\<lambda>_.
     bnd (modify (\<lambda>s. s\<lparr>request_id := request_id s + 1\<rparr>)) (\<lambda>_.
     ret False)))"

definition enqueue :: "('r, 'i, 'x) protocol \<Rightarrow> ('r, 'i) server_config \<Rightarrow> string \<Rightarrow> string \<Rightarrow> ('r, 'i, bool) serving" where
  "enqueue pr cf requester bytes s =
     (case sessions s requester of
        None \<Rightarrow> (s, Inl Undefined)
      | Some request \<Rightarrow>
          (case p_from_stream pr (max_request_size cf) request bytes of
             (request', res) \<Rightarrow>
               let s' = s\<lparr>sessions := (sessions s)(requester \<mapsto> request')\<rparr> in
               (case res of
                  Inl (Inl x) \<Rightarrow> (s', Inl (Std x))
                | Inl (Inr x) \<Rightarrow> reject pr cf requester request' x s'
                | Inr parsed_requests \<Rightarrow> enqueue_all pr cf requester parsed_requests s')))"

fun abandon_all :: "('r, 'i) server_config \<Rightarrow> u64 list \<Rightarrow> ('r, 'i, unit) serving" where
  "abandon_all cf [] = ret ()"
| "abandon_all cf (k # ks) =
     bnd (send cf INTERRUPT (Key k) False) (\<lambda>_.
     bnd (modify (\<lambda>s. s\<lparr>requests := (requests s)(k := None)\<rparr>)) (\<lambda>_.
     abandon_all cf ks))"

definition open_or_close :: "('r, 'i, 'x) protocol \<Rightarrow> ('r, 'i) server_config \<Rightarrow> string \<Rightarrow> ('r, 'i, unit) serving" where
  "open_or_close pr cf requester s =
     (case sessions s requester of
        None \<Rightarrow> (s\<lparr>sessions := (sessions s)(requester \<mapsto> p_new pr)\<rparr>, Inr ())
      | Some r \<Rightarrow>
          bnd (abandon_all cf (p_enqueued pr r))
            (\<lambda>_. modify (\<lambda>s. s\<lparr>sessions := (sessions s)(requester := None)\<rparr>)) s)"

text \<open>A session whose data was refused is closed; \<open>session\<close> is an iterator \<open>enqueue\<close> may have left dangling.\<close>

definition disconnect :: "('r, 'i, 'x) protocol \<Rightarrow> ('r, 'i) server_config \<Rightarrow> string \<Rightarrow> ('r, 'i, unit) serving" where
  "disconnect pr cf requester s =
     (if sessions s requester = None then (s, Inl Undefined)
      else
        bnd (send_two cf CLIENT (Bytes requester) (Bytes [])) (\<lambda>sent.
          if sent then close_session pr cf requester
          else complain ''Server failed to disconnect client after rejecting request'') s)"

definition request_data :: "('r, 'i, 'x) protocol \<Rightarrow> ('r, 'i) server_config \<Rightarrow> string \<Rightarrow> string \<Rightarrow> ('r, 'i, unit) serving" where
  "request_data pr cf requester bytes s =
     (if sessions s requester = None then complain ''Ignoring request: unknown client'' s
      else bnd (enqueue pr cf requester bytes) (\<lambda>ok. if ok then ret () else disconnect pr cf requester) s)"

definition handle_request :: "('r, 'i, 'x) protocol \<Rightarrow> ('r, 'i) server_config \<Rightarrow> string list \<Rightarrow> ('r, 'i, unit) serving" where
  "handle_request pr cf messages =
     (case messages of
        [requester, bytes] \<Rightarrow>
          if bytes = [] then open_or_close pr cf requester else request_data pr cf requester bytes
      | _ \<Rightarrow> complain ''Ignoring request: wrong number of parts'')"

text \<open>
  The loop of \<open>handle_timeouts\<close> on the history \<open>hs\<close>. The eight bytes sent are the id and the time
  stamp of the front; \<open>timeout\<close> may write to the front before \<open>dequeue\<close> reads it.
\<close>

fun timeouts_loop :: "('r, 'i, 'x) protocol \<Rightarrow> ('r, 'i) server_config \<Rightarrow> int \<Rightarrow> 'i list \<Rightarrow> ('r, 'i, unit) serving" where
  "timeouts_loop pr cf drop_dead [] = ret ()"
| "timeouts_loop pr cf drop_dead (i # hs) =
     (if drop_dead > 0 \<and> uint (p_time_stamp pr i) < drop_dead then
        bnd (send cf INTERRUPT (Key (id_time_key (p_id pr i) (p_time_stamp pr i))) False) (\<lambda>_.
        bnd (modify (\<lambda>s. s\<lparr>request_history := fst (p_timeout pr i) # hs\<rparr>)) (\<lambda>_.
        bnd (dequeue pr cf (fst (p_timeout pr i)) (snd (p_timeout pr i))) (\<lambda>_.
        bnd (modify (\<lambda>s. s\<lparr>request_history := hs\<rparr>)) (\<lambda>_.
        timeouts_loop pr cf drop_dead hs))))
      else ret ())"

definition drop_dead :: "('r, 'i) server_config \<Rightarrow> ('r, 'i) server \<Rightarrow> int" where
  "drop_dead cf s = clock cf (events s) - uint (request_timeout cf)"

definition handle_timeouts :: "('r, 'i, 'x) protocol \<Rightarrow> ('r, 'i) server_config \<Rightarrow> ('r, 'i, unit) serving" where
  "handle_timeouts pr cf s = timeouts_loop pr cf (drop_dead cf s) (request_history s) s"

text \<open>
  One turn of \<open>serve\<close>: what the poll found on the two sockets, a worker's result (the info in the
  first frame and the response in the last) and the frames of a client's message.
\<close>

record 'i polled =
  result_in :: "('i \<times> string) option"
  request_in :: "string list option"

definition take_result :: "('r, 'i, 'x) protocol \<Rightarrow> ('r, 'i) server_config \<Rightarrow> 'i polled \<Rightarrow> ('r, 'i, unit) serving" where
  "take_result pr cf p =
     bnd (modify (note_event Polled)) (\<lambda>_.
       case result_in p of
         None \<Rightarrow> ret ()
       | Some (info, response) \<Rightarrow> catch_std ''server_t'' (dequeue pr cf info response))"

definition take_request :: "('r, 'i, 'x) protocol \<Rightarrow> ('r, 'i) server_config \<Rightarrow> 'i polled \<Rightarrow> ('r, 'i, unit) serving" where
  "take_request pr cf p =
     (case request_in p of
        None \<Rightarrow> ret ()
      | Some messages \<Rightarrow> catch_std ''server_t'' (handle_request pr cf messages))"

definition serve_turn :: "('r, 'i, 'x) protocol \<Rightarrow> ('r, 'i) server_config \<Rightarrow> 'i polled \<Rightarrow> ('r, 'i, unit) serving" where
  "serve_turn pr cf p =
     bnd (take_result pr cf p) (\<lambda>_. bnd (take_request pr cf p) (\<lambda>_. handle_timeouts pr cf))"

text \<open>\<open>serve\<close> for as long as the process is not shutting down, one entry per turn.\<close>

fun serve :: "('r, 'i, 'x) protocol \<Rightarrow> ('r, 'i) server_config \<Rightarrow> 'i polled list \<Rightarrow> ('r, 'i, unit) serving" where
  "serve pr cf [] = ret ()"
| "serve pr cf (p # ps) = bnd (serve_turn pr cf p) (\<lambda>_. serve pr cf ps)"

section \<open>What the server relies on\<close>

text \<open>
  The contract: a fresh container has nothing enqueued, parsing leaves the list of enqueued
  requests alone, \<open>emplace_back\<close> extends it; infos carry the id and the time they were made with,
  the key is made of the two, and \<open>timeout\<close> changes neither.
\<close>

locale server_protocol =
  fixes pr :: "('r, 'i, 'x) protocol"
  assumes new_enqueued: "p_enqueued pr (p_new pr) = []"
    and stream_enqueued: "p_enqueued pr (fst (p_from_stream pr m r d)) = p_enqueued pr r"
    and remember_enqueued: "p_enqueued pr (p_remember pr k r) = p_enqueued pr r @ [k]"
    and key_bits: "p_key pr i = id_time_key (p_id pr i) (p_time_stamp pr i)"
    and timeout_id: "p_id pr (fst (p_timeout pr i)) = p_id pr i"
    and timeout_stamp: "p_time_stamp pr (fst (p_timeout pr i)) = p_time_stamp pr i"
    and info_id: "p_id pr (p_to_info pr now r n) = n"
    and info_stamp: "p_time_stamp pr (p_to_info pr now r n) = stamp now"

lemma ns_loop_enqueued: "ns_loop m e d i rs = (e', r) \<Longrightarrow> ns_enqueued e' = ns_enqueued e"
  by (induction m e d i rs rule: ns_loop.induct)
    (subst (asm) ns_loop.simps, auto simp: ns_flush_stream_def Let_def split: if_splits sum.splits)

interpretation ns: server_protocol netstring_protocol
proof (unfold_locales, goal_cases)
  case (2 m r d)
  show ?case
    by (cases "ns_from_stream m r d")
      (auto simp: netstring_protocol_def ns_from_stream_def dest: ns_loop_enqueued split: sum.split prod.splits)
qed (simp_all add: netstring_protocol_def ns_entity_def ns_key_def ns_to_info_def)

lemma consume_until_enqueued: "consume_until e d = (e1, f, d') \<Longrightarrow> enqueued e1 = enqueued e"
  by (auto simp: consume_until_eq split: if_splits)

lemma req_dispatch_enqueued: "req_dispatch cu e = (e', r) \<Longrightarrow> enqueued e' = enqueued e"
  by (cases "parse_state e")
    (auto simp: req_dispatch_defs split: sum.splits if_splits option.splits)

lemma req_loop_enqueued: "enqueued (fst (req_loop cu m e d rs)) = enqueued e"
proof (induction cu m e d rs rule: req_loop.induct)
  case (1 cu m e d rs)
  obtain e1 f d' where c: "consume_until e d = (e1, f, d')" by (metis prod_cases3)
  obtain e2 r where d: "req_dispatch cu e1 = (e2, r)" by fastforce
  note same = consume_until_enqueued [OF c] req_dispatch_enqueued [OF d]
  show ?case
  proof (cases "too_large m e \<or> \<not> f")
    case True
    then show ?thesis using c same by (auto simp: req_loop.simps [of cu m e d] split: option.split)
  next
    case False
    then show ?thesis
      using c d same 1 [OF _ c [symmetric] refl _ d [symmetric]]
      by (cases r) (auto simp: req_loop.simps [of cu m e d])
  qed
qed

interpretation http: server_protocol "http_protocol cu" for cu
proof (unfold_locales, goal_cases)
  case (2 m r d)
  obtain r' x where "req_from_stream cu m r d = (r', x)" by fastforce
  moreover from this have "enqueued r' = enqueued r"
    using req_loop_enqueued [of cu m r d "[]"] by (auto simp: req_from_stream_def split: if_splits)
  ultimately show ?case
    by (auto simp: http_protocol_def split: sum.split parse_exception.split)
qed (simp_all add: http_protocol_def req_new_def req_flush_stream_def req_make_def http_entity_make_def http_entity.defs
    entity_flush_stream_def http_key_def req_to_info_def req_timeout_def)

lemma http_protocol_simps [simp]:
  "p_new (http_protocol cu) = req_new" "p_to_info (http_protocol cu) = req_to_info"
  "p_to_string (http_protocol cu) = req_to_string cu" "p_timeout (http_protocol cu) = req_timeout"
  "p_keep_alive (http_protocol cu) = http_keep_alive" "p_key (http_protocol cu) = http_key"
  "p_id (http_protocol cu) = info_id" "p_time_stamp (http_protocol cu) = info_time_stamp"
  "p_enqueued (http_protocol cu) = enqueued" "p_remember (http_protocol cu) k r = r\<lparr>enqueued := enqueued r @ [k]\<rparr>"
  "p_response (http_protocol cu) = exception_bytes"
  by (simp_all add: http_protocol_def)

lemma http_from_stream:
  "p_from_stream (http_protocol cu) m r d = (case req_from_stream cu m r d of
      (r', Inl (Thrown x)) \<Rightarrow> (r', Inl (Inl x))
    | (r', Inl (Rejected x)) \<Rightarrow> (r', Inl (Inr x))
    | (r', Inr rs) \<Rightarrow> (r', Inr rs))"
  by (simp add: http_protocol_def)

section \<open>Outcomes of the handlers\<close>

lemma tame_log_line [simp]: "tame (log_line_if cf line)"
  by (simp add: tame_def log_line_if_def)

lemma tame_interrupt_all [simp]: "tame (interrupt_all cf ks)"
  by (induction ks) (auto intro: tame_bnd)

lemma quiet_server:
  fixes s s' :: "('r, 'i) server"
  assumes "quiet s' = quiet s"
  shows "sessions s' = sessions s" "requests s' = requests s" "request_history s' = request_history s"
    "request_id s' = request_id s"
  using assms by (cases s, cases s', simp add: quiet_def)+

lemma close_session_cases:
  assumes "close_session pr cf c s = (s', res)"
  obtains (gone) "sessions s c = None" "s' = s" "res = Inl Undefined"
  | (threw) x where "res = Inl (Std x)" "quiet s' = quiet s"
  | (closed) r where "sessions s c = Some r" "res = Inr ()" "quiet s' = quiet s\<lparr>sessions := (sessions s)(c := None)\<rparr>"
proof (cases "sessions s c")
  case None
  then show ?thesis using assms by (intro gone) (auto simp: close_session_def)
next
  case (Some r)
  obtain s1 q where i: "interrupt_all cf (p_enqueued pr r) s = (s1, q)" by fastforce
  show ?thesis
  proof (cases rule: tameE [OF tame_interrupt_all i])
    case (1 x)
    then show ?thesis using assms Some i by (intro threw) (auto simp: close_session_def bnd_def)
  next
    case (2 y)
    then have "quiet (s1\<lparr>sessions := (sessions s1)(c := None)\<rparr>) = quiet s\<lparr>sessions := (sessions s)(c := None)\<rparr>"
      by (cases s, cases s1) (simp add: quiet_def)
    then show ?thesis using assms Some i 2 by (intro closed) (auto simp: close_session_def bnd_def modify_def)
  qed
qed

end
