(* ===== verification/Server_Invariants.thy ===== *)
theory Server_Invariants
  imports Server
begin

text \<open>
  What the server of \<open>Server\<close> guarantees: the ties between sessions, outstanding requests and the
  history in every state it can reach, what a disconnect, a response, a timeout and a rejected
  request do, where its iterators stay valid, and what goes over the client socket.
\<close>

section \<open>The outcomes of dequeue\<close>

lemma dequeue_cases:
  assumes "dequeue pr cf i response s = (s', res)"
  obtains (absent) "requests s (p_key pr i) = None" "s' = s" "res = Inr False"
  | (threw) c x where "requests s (p_key pr i) = Some c" "res = Inl (Std x)" "quiet s' = quiet s"
  | (gone) c where "requests s (p_key pr i) = Some c" "sessions s c = None" "\<not> p_keep_alive pr i"
      "res = Inl Undefined" "quiet s' = quiet s"
  | (kept) c where "requests s (p_key pr i) = Some c" "res = Inr True"
      "quiet s' = quiet s\<lparr>requests := (requests s)(p_key pr i := None)\<rparr>"
  | (closed) c r where "requests s (p_key pr i) = Some c" "sessions s c = Some r" "\<not> p_keep_alive pr i" "res = Inr True"
      "quiet s' = quiet s\<lparr>sessions := (sessions s)(c := None), requests := (requests s)(p_key pr i := None)\<rparr>"
proof (cases "requests s (p_key pr i)")
  case None
  then show ?thesis using assms by (intro absent) (auto simp: dequeue_def)
next
  case (Some c)
  let ?erase = "\<lambda>s. s\<lparr>requests := (requests s)(p_key pr i := None)\<rparr>"
  let ?a = "send_two cf CLIENT (Bytes c) (Bytes response)"
  let ?l = "\<lambda>ok. if \<not> ok then complain ''Server failed to dequeue request''
      else log_line_if cf (\<lambda>ts. p_info_log pr ts i (length response))"
  let ?d = "if p_keep_alive pr i then ret False else send_two cf CLIENT (Bytes c) (Bytes [])"
  let ?close = "\<lambda>closed. if closed then close_session pr cf c else ret ()"
  let ?pre = "bnd ?a (\<lambda>ok. bnd (?l ok) (\<lambda>_. ?d))"
  have "tame ?pre" by (intro tame_bnd tame_if) (simp_all add: tame_if)
  have split: "dequeue pr cf i response s = bnd ?pre (\<lambda>closed. bnd (?close closed) (\<lambda>_. bnd (modify ?erase) (\<lambda>_. ret True))) s"
    unfolding dequeue_def Some bnd_assoc by simp
  obtain s1 q where pre: "?pre s = (s1, q)" by fastforce
  have alive: "q = Inr True \<Longrightarrow> \<not> p_keep_alive pr i"
    using pre by (auto simp: seq_simps split: if_splits)
  show ?thesis
  proof (cases rule: tameE [OF \<open>tame ?pre\<close> pre])
    case (1 x)
    then show ?thesis using assms pre Some by (intro threw [of c x]) (auto simp: split bnd_def)
  next
    case (2 b)
    note same = quiet_server [OF 2(2)]
    show ?thesis
    proof (cases b)
      case False
      then have "s' = ?erase s1" "res = Inr True" using assms pre 2 by (auto simp: split bnd_def ret_def modify_def)
      then show ?thesis using 2(2) Some same by (intro kept [of c]) (auto simp: quiet_def)
    next
      case True
      obtain s2 q2 where cl: "close_session pr cf c s1 = (s2, q2)" by fastforce
      then have rest: "(s', res) = (case q2 of Inl x \<Rightarrow> (s2, Inl x) | Inr _ \<Rightarrow> (?erase s2, Inr True))"
        using assms pre 2 True by (simp add: split bnd_def ret_def modify_def split: sum.splits)
      from cl show ?thesis
      proof (cases rule: close_session_cases)
        case gone
        then show ?thesis using that(3) Some same rest 2 True alive by simp
      next
        case (threw x)
        then show ?thesis using that(2) Some rest 2 by simp
      next
        case (closed r)
        then have "requests s2 = requests s"
          using quiet_server(2) [of s2 "s1\<lparr>sessions := (sessions s1)(c := None)\<rparr>"] same(2) by (simp add: quiet_def)
        then have "quiet (?erase s2) = quiet s\<lparr>sessions := (sessions s)(c := None), requests := (requests s)(p_key pr i := None)\<rparr>"
          using closed(3) 2(2) by (cases s, cases s1, cases s2) (simp add: quiet_def)
        then show ?thesis using that(5) Some same rest closed 2 True alive by simp
      qed
    qed
  qed
qed

section \<open>Invariants\<close>

text \<open>
  \<open>linked\<close>: every outstanding request of a live session is in the session's list, so that a
  disconnect finds it. \<open>recorded\<close>: every outstanding request is in the history, so that it can time
  out.
\<close>

definition linked :: "('r, 'i, 'x) protocol \<Rightarrow> ('r, 'i) server \<Rightarrow> bool" where
  "linked pr s \<longleftrightarrow> (\<forall>k c r. requests s k = Some c \<longrightarrow> sessions s c = Some r \<longrightarrow> k \<in> set (p_enqueued pr r))"

definition recorded :: "('r, 'i, 'x) protocol \<Rightarrow> ('r, 'i) server \<Rightarrow> bool" where
  "recorded pr s \<longleftrightarrow> dom (requests s) \<subseteq> p_key pr ` set (request_history s)"

text \<open>
  zmq gives every connection an identity of its own: none that still has requests pending from an
  earlier connection.
\<close>

definition admissible :: "('r, 'i) server \<Rightarrow> string list \<Rightarrow> bool" where
  "admissible s ms \<longleftrightarrow>
     (case ms of [c, bytes] \<Rightarrow> bytes = [] \<longrightarrow> sessions s c = None \<longrightarrow> c \<notin> ran (requests s) | _ \<Rightarrow> True)"

text \<open>The states a server comes through, whatever arrives and however sending fares.\<close>

inductive reachable :: "('r, 'i, 'x) protocol \<Rightarrow> ('r, 'i) server_config \<Rightarrow> ('r, 'i) server \<Rightarrow> bool" for pr cf where
  start: "reachable pr cf server_new"
| polled: "reachable pr cf s \<Longrightarrow> reachable pr cf (note_event Polled s)"
| complained: "reachable pr cf s \<Longrightarrow> reachable pr cf (note_event (Complained msg) s)"
| result: "reachable pr cf s \<Longrightarrow> reachable pr cf (fst (dequeue pr cf i response s))"
| request: "reachable pr cf s \<Longrightarrow> admissible s ms \<Longrightarrow> reachable pr cf (fst (handle_request pr cf ms s))"
| timeouts: "reachable pr cf s \<Longrightarrow> reachable pr cf (fst (handle_timeouts pr cf s))"

text \<open>
  An invariant of the server is one that its smallest steps keep. What \<open>handle_request\<close> does is made
  of those.
\<close>

locale server_invariant = server_protocol pr for pr :: "('r, 'i, 'x) protocol" +
  fixes cf :: "('r, 'i) server_config" and I :: "('r, 'i) server \<Rightarrow> bool"
  assumes initial: "I server_new"
    and blind: "event_blind I"
    and id_blind: "I (s\<lparr>request_id := n\<rparr>) = I s"
    and keeps_dequeue: "keeps I (dequeue pr cf i response)"
    and keeps_remember: "keeps I (remember pr c i)"
    and keeps_close: "keeps I (close_session pr cf c)"
    and keeps_stream: "I s \<Longrightarrow> sessions s c = Some r \<Longrightarrow>
      I (s\<lparr>sessions := (sessions s)(c \<mapsto> fst (p_from_stream pr m r d))\<rparr>)"
    and keeps_open: "I s \<Longrightarrow> admissible s [c, []] \<Longrightarrow> I (fst (open_or_close pr cf c s))"
    and keeps_timeouts: "keeps I (handle_timeouts pr cf)"
begin

lemma keeps_io: "tame m \<Longrightarrow> keeps I m"
  by (rule keeps_tame [OF blind])

lemma keeps_id: "keeps I (modify (\<lambda>s. s\<lparr>request_id := request_id s + 1\<rparr>))"
  by (simp add: keeps_def modify_def id_blind)

lemma keeps_forward: "keeps I (forward_request pr cf i r)"
  unfolding forward_request_def
  by (intro keeps_bnd keeps_io) (auto intro: keeps_io split: sum.split)

lemma keeps_enqueue_with: "keeps I (enqueue_with pr cf c r i h)"
  unfolding enqueue_with_def
  by (intro keeps_bnd keeps_id) (auto intro!: keeps_bnd keeps_io [OF tame_complain] keeps_io [OF tame_log_line] keeps_forward keeps_remember keeps_dequeue)

lemma keeps_enqueue_one: "keeps I (enqueue_one pr cf c r)"
  using keeps_enqueue_with by (simp add: keeps_def enqueue_one_def)

lemma keeps_enqueue_all: "keeps I (enqueue_all pr cf c rs)"
  by (induction rs) (auto intro!: keeps_bnd keeps_enqueue_one)

lemma tame_log_rejection: "tame (log_rejection pr cf r x)"
proof -
  have "tame (bnd (log_line_if cf l1) (\<lambda>_. log_line_if cf l2))" for l1 l2 by (rule tame_bnd) simp_all
  then show ?thesis unfolding tame_def log_rejection_def by blast
qed

lemma keeps_reject: "keeps I (reject pr cf c r x)"
  unfolding reject_def
  by (intro keeps_bnd keeps_io keeps_id) (auto intro: keeps_io tame_log_rejection)

lemma keeps_enqueue: "keeps I (enqueue pr cf c d)"
proof (unfold keeps_def, intro allI impI)
  fix s
  assume "I s"
  show "I (fst (enqueue pr cf c d s))"
  proof (cases "sessions s c")
    case None
    then show ?thesis using \<open>I s\<close> by (simp add: enqueue_def)
  next
    case (Some r)
    obtain r' res where p: "p_from_stream pr (max_request_size cf) r d = (r', res)" by fastforce
    have "I (s\<lparr>sessions := (sessions s)(c \<mapsto> r')\<rparr>)"
      using keeps_stream [OF \<open>I s\<close> Some, of "max_request_size cf" d] p by simp
    then show ?thesis
      using Some p keepsD [OF keeps_reject] keepsD [OF keeps_enqueue_all]
      by (simp add: enqueue_def Let_def split: sum.split)
  qed
qed

lemma keeps_disconnect: "keeps I (disconnect pr cf c)"
proof -
  have "keeps I (bnd (send_two cf CLIENT (Bytes c) (Bytes [])) (\<lambda>sent.
      if sent then close_session pr cf c
      else complain ''Server failed to disconnect client after rejecting request''))"
    by (rule keeps_bnd [OF keeps_io]) (simp_all add: keeps_close keeps_io)
  then show ?thesis by (simp add: keeps_def disconnect_def)
qed

lemma keeps_request_data: "keeps I (request_data pr cf c d)"
proof -
  have "keeps I (bnd (enqueue pr cf c d) (\<lambda>ok. if ok then ret () else disconnect pr cf c))"
    by (intro keeps_bnd keeps_enqueue) (simp add: keeps_disconnect)
  then show ?thesis using keeps_io [OF tame_complain] by (simp add: keeps_def request_data_def)
qed

lemma keeps_handle_request: "I s \<Longrightarrow> admissible s ms \<Longrightarrow> I (fst (handle_request pr cf ms s))"
  using keepsD [OF keeps_io [OF tame_complain]] keepsD [OF keeps_request_data] keeps_open
  by (auto simp: handle_request_def admissible_def split: list.split)

theorem reachable_keeps: "reachable pr cf s \<Longrightarrow> I s"
proof (induction rule: reachable.induct)
  case (polled s)
  then show ?case using blind by (simp add: event_blind_def)
next
  case (complained s msg)
  then show ?case using blind by (simp add: event_blind_def)
next
  case (result s i response)
  then show ?case by (intro keepsD [OF keeps_dequeue])
next
  case (timeouts s)
  then show ?case by (intro keepsD [OF keeps_timeouts])
qed (auto intro: initial keeps_handle_request)

end

section \<open>The ties between sessions, requests and history\<close>

lemma linked_mono:
  assumes "linked pr s" and "requests s' \<subseteq>\<^sub>m requests s" and "sessions s' \<subseteq>\<^sub>m sessions s"
  shows "linked pr s'"
  using assms unfolding linked_def map_le_def by (metis domI)

lemma quiet_requests:
  fixes s s' :: "('r, 'i) server"
  assumes "quiet s' = quiet s\<lparr>requests := R\<rparr>"
  shows "requests s' = R" "sessions s' = sessions s" "request_history s' = request_history s"
  using assms by (cases s, cases s', simp add: quiet_def)+

lemma quiet_sessions:
  fixes s s' :: "('r, 'i) server"
  assumes "quiet s' = quiet s\<lparr>sessions := S\<rparr>"
  shows "requests s' = requests s" "sessions s' = S" "request_history s' = request_history s"
  using assms by (cases s, cases s', simp add: quiet_def)+

lemma quiet_both:
  fixes s s' :: "('r, 'i) server"
  assumes "quiet s' = quiet s\<lparr>sessions := S, requests := R\<rparr>"
  shows "requests s' = R" "sessions s' = S" "request_history s' = request_history s"
  using assms by (cases s, cases s', simp add: quiet_def)+

lemma map_le_erase [simp]: "m(k := None) \<subseteq>\<^sub>m m"
  by (auto simp: map_le_def)

lemma dequeue_fields:
  assumes "dequeue pr cf i response s = (s', res)"
  shows "request_history s' = request_history s" and "sessions s' \<subseteq>\<^sub>m sessions s" and "requests s' \<subseteq>\<^sub>m requests s"
    and "res = Inr b \<Longrightarrow> requests s' = (requests s)(p_key pr i := None)"
proof -
  from assms have "request_history s' = request_history s \<and> sessions s' \<subseteq>\<^sub>m sessions s \<and> requests s' \<subseteq>\<^sub>m requests s \<and>
      (res = Inr b \<longrightarrow> requests s' = (requests s)(p_key pr i := None))"
  proof (cases rule: dequeue_cases)
    case absent
    then show ?thesis by auto
  next
    case (threw c x)
    then show ?thesis using quiet_server [OF threw(3)] by simp
  next
    case (gone c)
    then show ?thesis using quiet_server [OF gone(5)] by simp
  next
    case (kept c)
    show ?thesis using quiet_requests [OF kept(3)] by simp
  next
    case (closed c r)
    show ?thesis using quiet_both [OF closed(5)] by simp
  qed
  then show "request_history s' = request_history s" and "sessions s' \<subseteq>\<^sub>m sessions s" and "requests s' \<subseteq>\<^sub>m requests s"
    and "res = Inr b \<Longrightarrow> requests s' = (requests s)(p_key pr i := None)" by auto
qed

lemma close_session_fields:
  assumes "close_session pr cf c s = (s', res)"
  shows "request_history s' = request_history s" and "sessions s' \<subseteq>\<^sub>m sessions s" and "requests s' = requests s"
proof -
  from assms have "request_history s' = request_history s \<and> sessions s' \<subseteq>\<^sub>m sessions s \<and> requests s' = requests s"
  proof (cases rule: close_session_cases)
    case (threw x)
    then show ?thesis using quiet_server [OF threw(2)] by simp
  next
    case (closed r)
    show ?thesis using quiet_sessions [OF closed(3)] by simp
  qed simp
  then show "request_history s' = request_history s" and "sessions s' \<subseteq>\<^sub>m sessions s" and "requests s' = requests s" by auto
qed

text \<open>Abandoning the requests of a session that disconnects.\<close>

lemma abandon_all_fields:
  assumes "abandon_all cf ks s = (s', res)"
  shows "sessions s' = sessions s \<and> request_history s' = request_history s \<and>
    (\<forall>k c. requests s' k = Some c \<longrightarrow> requests s k = Some c) \<and>
    (res = Inr u \<longrightarrow> (\<forall>k. requests s' k = (if k \<in> set ks then None else requests s k))) \<and> res \<noteq> Inl Undefined"
  using assms
proof (induction ks arbitrary: s)
  case Nil
  then show ?case by (auto simp: ret_def)
next
  case (Cons k ks)
  obtain s1 q where i: "send cf INTERRUPT (Key k) False s = (s1, q)" by fastforce
  show ?case
  proof (cases rule: tameE [OF tame_send i])
    case (1 x)
    then show ?thesis using Cons.prems i quiet_server [OF 1(2)] by (auto simp: bnd_def)
  next
    case (2 b)
    let ?s2 = "s1\<lparr>requests := (requests s1)(k := None)\<rparr>"
    have "abandon_all cf ks ?s2 = (s', res)" using Cons.prems i 2(1) by (simp add: bnd_def modify_def)
    note IH = Cons.IH [OF this]
    have le: "requests s k' = Some c" if "requests s' k' = Some c" for k' c
    proof -
      have "requests ?s2 k' = Some c" using IH that by blast
      then show ?thesis using quiet_server(2) [OF 2(2)] by (simp split: if_splits)
    qed
    have ends: "requests s' k' = (if k' \<in> set (k # ks) then None else requests s k')" if "res = Inr u" for k'
    proof -
      have "requests s' k' = (if k' \<in> set ks then None else requests ?s2 k')" using IH that by blast
      then show ?thesis using quiet_server(2) [OF 2(2)] by simp
    qed
    have "sessions s' = sessions ?s2" "request_history s' = request_history ?s2" "res \<noteq> Inl Undefined" using IH by blast+
    then show ?thesis using le ends quiet_server(1,3) [OF 2(2)] by (intro conjI allI impI) simp_all
  qed
qed

lemma open_or_close_cases:
  assumes "open_or_close pr cf c s = (s', res)"
  obtains (opened) "sessions s c = None" "s' = s\<lparr>sessions := (sessions s)(c \<mapsto> p_new pr)\<rparr>" "res = Inr ()"
  | (threw) r where "sessions s c = Some r" "res \<noteq> Inl Undefined" "sessions s' = sessions s"
      "request_history s' = request_history s" "requests s' \<subseteq>\<^sub>m requests s" "\<And>u. res \<noteq> Inr u"
  | (closed) r where "sessions s c = Some r" "sessions s' = (sessions s)(c := None)"
      "request_history s' = request_history s" "requests s' = requests s |` (- set (p_enqueued pr r))" "res = Inr ()"
proof (cases "sessions s c")
  case None
  then show ?thesis using assms by (intro opened) (auto simp: open_or_close_def)
next
  case (Some r)
  obtain s1 q where a: "abandon_all cf (p_enqueued pr r) s = (s1, q)" by fastforce
  show ?thesis
  proof (cases q)
    case (Inl x)
    then show ?thesis using assms Some a abandon_all_fields [OF a]
      by (intro threw [of r]) (auto simp: open_or_close_def bnd_def map_le_def dom_def)
  next
    case (Inr u)
    then show ?thesis using assms Some a abandon_all_fields [OF a]
      by (intro closed [of r]) (auto simp: open_or_close_def bnd_def modify_def restrict_map_def)
  qed
qed

lemma timeouts_keep:
  assumes "event_blind I" and "\<And>s h. I (s\<lparr>request_history := h\<rparr>) = I s" and "\<And>i response. keeps I (dequeue pr cf i response)"
  shows "keeps I (timeouts_loop pr cf t hs)"
  using assms
  by (induction hs) (auto intro!: keeps_bnd keeps_send keeps_modify)

context server_protocol
begin

lemma linked_remember: "linked pr s \<Longrightarrow> linked pr (fst (remember pr c i s))"
  by (auto simp: linked_def remember_def Let_def remember_enqueued split: option.splits if_splits)

lemma linked_open:
  assumes "linked pr s" and "admissible s [c, []]"
  shows "linked pr (fst (open_or_close pr cf c s))"
proof -
  obtain s' res where o: "open_or_close pr cf c s = (s', res)" by fastforce
  from o have "linked pr s'"
  proof (cases rule: open_or_close_cases)
    case opened
    then have "c \<notin> ran (requests s)" using assms(2) by (simp add: admissible_def)
    then show ?thesis using assms(1) opened by (auto simp: linked_def ran_def)
  next
    case (threw r)
    then show ?thesis using linked_mono [OF assms(1)] by simp
  next
    case (closed r)
    have "requests s |` (- set (p_enqueued pr r)) \<subseteq>\<^sub>m requests s" by (auto simp: map_le_def)
    then show ?thesis using linked_mono [OF assms(1), of s'] closed by simp
  qed
  then show ?thesis using o by simp
qed

lemma recorded_mono:
  "recorded pr s \<Longrightarrow> requests s' \<subseteq>\<^sub>m requests s \<Longrightarrow> request_history s' = request_history s \<Longrightarrow> recorded pr s'"
  unfolding recorded_def using map_le_implies_dom_le by fastforce

lemma recorded_remember: "recorded pr s \<Longrightarrow> recorded pr (fst (remember pr c i s))"
  by (auto simp: recorded_def remember_def Let_def split: option.splits if_splits)

lemma timeout_key: "p_key pr (fst (p_timeout pr i)) = p_key pr i"
  by (simp add: key_bits timeout_id timeout_stamp)

lemma recorded_timeouts:
  assumes "recorded pr s" and "request_history s = hs"
  shows "recorded pr (fst (timeouts_loop pr cf t hs s))"
  using assms
proof (induction hs arbitrary: s)
  case (Cons i hs)
  let ?i = "fst (p_timeout pr i)"
  let ?k = "Key (id_time_key (p_id pr i) (p_time_stamp pr i))"
  show ?case
  proof (cases "t > 0 \<and> uint (p_time_stamp pr i) < t")
    case True
    obtain s1 q where i: "send cf INTERRUPT ?k False s = (s1, q)" by fastforce
    show ?thesis
    proof (cases rule: tameE [OF tame_send i])
      case (1 x)
      then show ?thesis
        using True i Cons.prems quiet_server [OF 1(2)] by (simp add: bnd_def recorded_def)
    next
      case (2 b)
      let ?s1 = "s1\<lparr>request_history := ?i # hs\<rparr>"
      obtain s2 q2 where d: "dequeue pr cf ?i (snd (p_timeout pr i)) ?s1 = (s2, q2)" by fastforce
      note f = dequeue_fields [OF d]
      have "recorded pr ?s1" using Cons.prems quiet_server [OF 2(2)] by (simp add: recorded_def timeout_key)
      then have r2: "recorded pr s2" using f(3,1) by (rule recorded_mono)
      show ?thesis
      proof (cases q2)
        case (Inl x)
        then show ?thesis using True i 2 d r2 by (simp add: bnd_def modify_def)
      next
        case (Inr v)
        then have "recorded pr (s2\<lparr>request_history := hs\<rparr>)"
          using r2 f(1) f(4) [OF Inr] by (auto simp: recorded_def timeout_key)
        then show ?thesis using True i 2 d Inr Cons.IH [of "s2\<lparr>request_history := hs\<rparr>"] by (simp add: bnd_def modify_def)
      qed
    qed
  next
    case False
    show ?thesis using Cons.prems unfolding timeouts_loop.simps if_not_P [OF False] by (simp add: ret_def)
  qed
qed (simp add: ret_def)

end

sublocale server_protocol \<subseteq> linked: server_invariant pr cf "linked pr" for cf
proof (unfold_locales, goal_cases)
  case (4 i response)
  show ?case
    unfolding keeps_def using dequeue_fields(2,3) linked_mono by (metis prod.exhaust_sel)
next
  case (6 c)
  show ?case
    unfolding keeps_def using close_session_fields(2,3) linked_mono by (metis map_le_refl prod.exhaust_sel)
next
  case (9)
  have "keeps (linked pr) (timeouts_loop pr cf t hs)" for t hs
  proof (rule timeouts_keep)
    show "keeps (linked pr) (dequeue pr cf i response)" for i response
      unfolding keeps_def using dequeue_fields(2,3) linked_mono by (metis prod.exhaust_sel)
  qed (simp_all add: event_blind_def linked_def note_event_def)
  then show ?case by (simp add: keeps_def handle_timeouts_def)
next
  case (5 c i)
  show ?case using linked_remember by (simp add: keeps_def)
next
  case (8 s c)
  then show ?case by (rule linked_open)
qed (auto simp: linked_def server_new_def event_blind_def note_event_def stream_enqueued)

sublocale server_protocol \<subseteq> recorded: server_invariant pr cf "recorded pr" for cf
proof (unfold_locales, goal_cases)
  case (4 i response)
  show ?case
    unfolding keeps_def using dequeue_fields(1,3) recorded_mono by (metis prod.exhaust_sel)
next
  case (5 c i)
  show ?case using recorded_remember by (simp add: keeps_def)
next
  case (6 c)
  show ?case
    unfolding keeps_def using close_session_fields(1,3) recorded_mono by (metis map_le_refl prod.exhaust_sel)
next
  case (8 s c)
  obtain s' res where o: "open_or_close pr cf c s = (s', res)" by fastforce
  then have "requests s' \<subseteq>\<^sub>m requests s \<and> request_history s' = request_history s"
    by (cases rule: open_or_close_cases) (auto simp: map_le_def)
  then show ?case using o recorded_mono [OF 8(1)] by simp
next
  case (9)
  show ?case using recorded_timeouts by (simp add: keeps_def handle_timeouts_def)
qed (auto simp: recorded_def server_new_def event_blind_def note_event_def)

end
