(* ===== verification/Server_Wire.thy ===== *)
theory Server_Wire
  imports Server_Invariants Http_Roundtrip
begin

text \<open>
  What the server of \<open>Server\<close> puts on its sockets: on the client socket every identity frame that
  is taken is followed by its message, a response reaches the connection the request came from and
  no more than once, and every parsed request is forwarded whole.
\<close>

section \<open>The client socket\<close>

text \<open>
  The client socket's rule: a frame with \<open>ZMQ_SNDMORE\<close> comes first, and exactly when it was taken
  a last frame follows. A frame left out or too many would hang the socket.
\<close>

fun well_framed :: "('i frame \<times> bool \<times> send_result) list \<Rightarrow> bool" where
  "well_framed [] = True"
| "well_framed ((f, m, r) # vs) =
     (m \<and> (if r = Sent then (case vs of [] \<Rightarrow> False | (f', m', r') # vs' \<Rightarrow> \<not> m' \<and> well_framed vs') else well_framed vs))"

lemma well_framed_append: "well_framed xs \<Longrightarrow> well_framed ys \<Longrightarrow> well_framed (xs @ ys)"
  by (induction xs rule: well_framed.induct) (auto split: list.splits if_splits)

text \<open>An action is neat when what it adds to the events keeps to that rule.\<close>

definition neat :: "(('i, 'z) io_scheme, exn, 'a) action \<Rightarrow> bool" where
  "neat m \<longleftrightarrow> (\<forall>s. \<exists>new. events (fst (m s)) = events s @ new \<and> well_framed (attempts CLIENT new))"

lemma neat_ret [simp]: "neat (ret x)"
  by (simp add: neat_def ret_def)

lemma neat_raise [simp]: "neat (raise x)"
  by (simp add: neat_def raise_def)

lemma neat_modify: "(\<And>s. events (f s) = events s) \<Longrightarrow> neat (modify f)"
  by (simp add: neat_def modify_def)

lemma neat_complain [simp]: "neat (complain msg)"
  by (simp add: neat_def complain_def modify_def note_event_def)

lemma neat_log_line [simp]: "neat (log_line_if cf line)"
  by (simp add: neat_def log_line_if_def note_event_def)

lemma neat_send: "sk \<noteq> CLIENT \<Longrightarrow> neat (send w sk f m)"
  by (auto simp: neat_def send_def Let_def note_event_def split: send_result.split)

lemma neat_send_two [simp]: "neat (send_two w sk f1 f2)"
  by (auto simp: neat_def send_two_def send_def bnd_def ret_def Let_def note_event_def split: send_result.split)

lemma neat_bnd:
  assumes "neat m" and "\<And>x. neat (f x)"
  shows "neat (bnd m f)"
proof (unfold neat_def, intro allI)
  fix s
  obtain s1 q where m: "m s = (s1, q)" by fastforce
  then obtain new where n: "events s1 = events s @ new" "well_framed (attempts CLIENT new)"
    using assms(1) unfolding neat_def by (metis fst_conv)
  show "\<exists>new. events (fst (bnd m f s)) = events s @ new \<and> well_framed (attempts CLIENT new)"
  proof (cases q)
    case (Inl x)
    then show ?thesis using m n by (simp add: bnd_def)
  next
    case (Inr x)
    obtain new' where "events (fst (f x s1)) = events s1 @ new'" "well_framed (attempts CLIENT new')"
      using assms(2) unfolding neat_def by blast
    then show ?thesis
      using m n Inr by (intro exI [of _ "new @ new'"]) (simp add: bnd_def well_framed_append)
  qed
qed

lemma neat_interrupt_all [simp]: "neat (interrupt_all cf ks)"
  by (induction ks) (auto intro!: neat_bnd neat_send)

lemma neat_abandon_all [simp]: "neat (abandon_all cf ks)"
  by (induction ks) (auto intro!: neat_bnd neat_send neat_modify)

lemma neat_close_session [simp]: "neat (close_session pr cf c)"
proof -
  have "neat (bnd (interrupt_all cf ks) (\<lambda>_. modify (\<lambda>s. s\<lparr>sessions := (sessions s)(c := None)\<rparr>)))" for ks
    by (intro neat_bnd neat_modify) simp_all
  then show ?thesis unfolding neat_def close_session_def by (simp split: option.split)
qed

lemma neat_dequeue [simp]: "neat (dequeue pr cf i response)"
proof -
  have "neat (bnd (send_two cf CLIENT (Bytes c) (Bytes response)) (\<lambda>ok.
      bnd (if \<not> ok then complain ''Server failed to dequeue request''
           else log_line_if cf (\<lambda>ts. p_info_log pr ts i (length response))) (\<lambda>_.
      bnd (if p_keep_alive pr i then ret False else send_two cf CLIENT (Bytes c) (Bytes [])) (\<lambda>closed.
      bnd (if closed then close_session pr cf c else ret ()) (\<lambda>_.
      bnd (modify (\<lambda>s. s\<lparr>requests := (requests s)(p_key pr i := None)\<rparr>)) (\<lambda>_. ret True))))))" for c
    by (intro neat_bnd neat_modify) simp_all
  then show ?thesis unfolding neat_def dequeue_def by (simp split: option.split)
qed

lemma neat_remember [simp]: "neat (remember pr c i)"
  by (auto simp: neat_def remember_def Let_def split: option.split)

lemma neat_forward [simp]: "neat (forward_request pr cf i r)"
  unfolding forward_request_def
  by (intro neat_bnd neat_send) (auto intro: neat_send split: sum.split)

lemma neat_enqueue_one [simp]: "neat (enqueue_one pr cf c r)"
proof -
  have "neat (enqueue_with pr cf c r i h)" for i h
    unfolding enqueue_with_def by (intro neat_bnd neat_modify) (simp_all add: neat_bnd)
  then show ?thesis by (simp add: neat_def enqueue_one_def)
qed

lemma neat_enqueue_all [simp]: "neat (enqueue_all pr cf c rs)"
  by (induction rs) (auto intro!: neat_bnd)

lemma neat_reject [simp]: "neat (reject pr cf c r x)"
proof -
  have "neat (bnd (log_line_if cf l1) (\<lambda>_. log_line_if cf l2))" for l1 l2 by (rule neat_bnd) simp_all
  then have "neat (log_rejection pr cf r x)" unfolding neat_def log_rejection_def by blast
  then show ?thesis unfolding reject_def by (intro neat_bnd neat_modify) simp_all
qed

lemma neat_at:
  "neat m \<Longrightarrow> events s0 = events s \<Longrightarrow> \<exists>new. events (fst (m s0)) = events s @ new \<and> well_framed (attempts CLIENT new)"
  by (simp add: neat_def) metis

lemma neat_enqueue [simp]: "neat (enqueue pr cf c d)"
proof (unfold neat_def, intro allI)
  fix s
  show "\<exists>new. events (fst (enqueue pr cf c d s)) = events s @ new \<and> well_framed (attempts CLIENT new)"
    by (auto simp: enqueue_def Let_def intro: neat_at [OF neat_reject] neat_at [OF neat_enqueue_all]
        split: option.split prod.split sum.split)
qed

lemma neat_disconnect: "neat (disconnect pr cf c)"
proof -
  have "neat (bnd (send_two cf CLIENT (Bytes c) (Bytes [])) (\<lambda>sent. if sent then close_session pr cf c
      else complain ''Server failed to disconnect client after rejecting request''))"
    by (intro neat_bnd) simp_all
  then show ?thesis by (simp add: neat_def disconnect_def)
qed

lemma neat_open_or_close: "neat (open_or_close pr cf c)"
proof -
  have "neat (bnd (abandon_all cf ks) (\<lambda>_. modify (\<lambda>s. s\<lparr>sessions := (sessions s)(c := None)\<rparr>)))" for ks
    by (intro neat_bnd neat_modify) simp_all
  then show ?thesis by (simp add: neat_def open_or_close_def split: option.split)
qed

lemma neat_handle_request [simp]: "neat (handle_request pr cf ms)"
proof -
  have "neat (bnd (enqueue pr cf c b) (\<lambda>ok. if ok then ret () else disconnect pr cf c))" for c b
    by (intro neat_bnd) (simp_all add: neat_disconnect)
  then have "neat (request_data pr cf c b)" for c b
    by (simp add: neat_def request_data_def complain_def modify_def note_event_def)
  then show ?thesis by (simp add: handle_request_def neat_open_or_close split: list.split)
qed

lemma neat_handle_timeouts [simp]: "neat (handle_timeouts pr cf)"
proof -
  have "neat (timeouts_loop pr cf t hs)" for t hs
    by (induction hs) (auto intro!: neat_bnd neat_send neat_modify)
  then show ?thesis by (simp add: neat_def handle_timeouts_def)
qed

lemma neat_well_framed:
  assumes "neat m" and "well_framed (attempts CLIENT (events s))"
  shows "well_framed (attempts CLIENT (events (fst (m s))))"
  using assms unfolding neat_def by (metis attempts_append well_framed_append)

section \<open>Responses\<close>

text \<open>The interrupts a disconnect sends.\<close>

lemma send_events:
  "send w sk f m s = (s', res) \<Longrightarrow> \<exists>r. events s' = events s @ [Attempt sk f m r]"
  by (auto simp: send_def Let_def note_event_def split: send_result.splits)

lemma abandon_all_interrupts:
  "abandon_all cf ks s = (s', Inr u) \<Longrightarrow>
     set (events s) \<subseteq> set (events s') \<and> (\<forall>k \<in> set ks. \<exists>r. Attempt INTERRUPT (Key k) False r \<in> set (events s'))"
proof (induction ks arbitrary: s)
  case Nil
  then show ?case by (auto simp: ret_def)
next
  case (Cons k ks)
  obtain s1 x where i: "send cf INTERRUPT (Key k) False s = (s1, Inr x)"
    and a: "abandon_all cf ks (s1\<lparr>requests := (requests s1)(k := None)\<rparr>) = (s', Inr u)"
    using Cons.prems by (auto simp: seq_simps)
  from Cons.IH [OF a] have "set (events s1) \<subseteq> set (events s')"
    "\<forall>k \<in> set ks. \<exists>r. Attempt INTERRUPT (Key k) False r \<in> set (events s')" by auto
  then show ?case using send_events [OF i] by fastforce
qed

text \<open>\<open>handle_timeouts\<close> takes off exactly the expired front of the history.\<close>

definition expired :: "('r, 'i, 'x) protocol \<Rightarrow> int \<Rightarrow> 'i \<Rightarrow> bool" where
  "expired pr t i \<longleftrightarrow> t > 0 \<and> uint (p_time_stamp pr i) < t"

context server_protocol
begin

lemma timeouts_loop_exact:
  assumes "timeouts_loop pr cf t hs s = (s', Inr u)" and "request_history s = hs"
  shows "request_history s' = dropWhile (expired pr t) hs \<and>
    (\<forall>k. requests s' k = (if k \<in> p_key pr ` set (takeWhile (expired pr t) hs) then None else requests s k))"
  using assms
proof (induction hs arbitrary: s)
  case (Cons i hs)
  let ?i = "fst (p_timeout pr i)"
  show ?case
  proof (cases "expired pr t i")
    case True
    then obtain s1 x s2 y where i: "send cf INTERRUPT (Key (id_time_key (p_id pr i) (p_time_stamp pr i))) False s = (s1, Inr x)"
      and d: "dequeue pr cf ?i (snd (p_timeout pr i)) (s1\<lparr>request_history := ?i # hs\<rparr>) = (s2, Inr y)"
      and l: "timeouts_loop pr cf t hs (s2\<lparr>request_history := hs\<rparr>) = (s', Inr u)"
      using Cons.prems(1) by (auto simp: seq_simps expired_def)
    have "requests s1 = requests s" by (rule quiet_server(2)) (use i tameE [OF tame_send i] in blast)
    then have "requests s2 = (requests s)(p_key pr i := None)"
      using dequeue_fields(4) [OF d refl] by (simp add: timeout_key)
    then show ?thesis using Cons.IH [OF l] True by simp
  next
    case False
    then have "s' = s" using Cons.prems(1) by (auto simp: expired_def ret_def split: if_splits)
    then show ?thesis using False Cons.prems(2) by simp
  qed
qed (auto simp: ret_def)

end

section \<open>No dangling references\<close>

text \<open>Without health checks nothing in \<open>enqueue\<close> ends the session it works on.\<close>

definition alive :: "string \<Rightarrow> ('r, 'i) server \<Rightarrow> bool" where
  "alive c s \<longleftrightarrow> sessions s c \<noteq> None"

definition safe :: "(('r, 'i) server \<Rightarrow> bool) \<Rightarrow> ('r, 'i, 'a) serving \<Rightarrow> bool" where
  "safe I m \<longleftrightarrow> (\<forall>s. I s \<longrightarrow> I (fst (m s)) \<and> snd (m s) \<noteq> Inl Undefined)"

lemma safe_bnd: "safe I m \<Longrightarrow> (\<And>x. safe I (f x)) \<Longrightarrow> safe I (bnd m f)"
  unfolding safe_def bnd_def by (auto split: prod.split sum.split)

lemma safe_tame: "event_blind I \<Longrightarrow> tame m \<Longrightarrow> safe I m"
  using keeps_tame [of I m] unfolding safe_def keeps_def tame_def by (metis Inl_inject exn.distinct(5) prod.exhaust_sel sum.distinct(1))

lemma alive_blind: "event_blind (alive c)"
  by (simp add: event_blind_def alive_def note_event_def)

lemma safe_enqueue_with:
  "safe (alive c) (enqueue_with pr cf c r i False)"
proof -
  have "safe (alive c) (remember pr c i)"
    by (auto simp: safe_def alive_def remember_def Let_def)
  moreover have "safe (alive c) (forward_request pr cf i r)"
    unfolding forward_request_def
    by (intro safe_bnd safe_tame alive_blind) (auto intro: safe_tame alive_blind split: sum.split)
  moreover have "safe (alive c) (modify (\<lambda>s. s\<lparr>request_id := request_id s + 1\<rparr>))"
    by (simp add: safe_def alive_def modify_def)
  ultimately show ?thesis
    unfolding enqueue_with_def
    by (intro safe_bnd) (auto intro!: safe_bnd safe_tame [OF alive_blind tame_complain]
        safe_tame [OF alive_blind tame_log_line] safe_tame [OF alive_blind tame_ret])
qed

lemma safe_id: "safe (alive c) (modify (\<lambda>s. s\<lparr>request_id := request_id s + 1\<rparr>))"
  by (simp add: safe_def alive_def modify_def)

lemma safe_enqueue_all:
  assumes "health_check_matcher cf = None"
  shows "safe (alive c) (enqueue_all pr cf c rs)"
proof (induction rs)
  case (Cons r rs)
  have "safe (alive c) (enqueue_with pr cf c r i False)" for i by (rule safe_enqueue_with)
  then have "safe (alive c) (enqueue_one pr cf c r)" using assms by (simp add: safe_def enqueue_one_def)
  then show ?case using Cons by (auto intro!: safe_bnd safe_tame [OF alive_blind tame_ret])
qed (auto intro: safe_tame alive_blind)

lemma safe_reject: "safe (alive c) (reject pr cf c r x)"
proof -
  have "tame (bnd (log_line_if cf l1) (\<lambda>_. log_line_if cf l2))" for l1 l2 by (rule tame_bnd) simp_all
  then have "tame (log_rejection pr cf r x)" unfolding tame_def log_rejection_def by blast
  then show ?thesis
    unfolding reject_def
    by (intro safe_bnd safe_id safe_tame [OF alive_blind]) simp_all
qed

lemma safe_enqueue:
  assumes "health_check_matcher cf = None"
  shows "safe (alive c) (enqueue pr cf c d)"
proof -
  have "safe (alive c) (reject pr cf c r x)" "safe (alive c) (enqueue_all pr cf c rs)" for r x rs
    by (rule safe_reject, rule safe_enqueue_all [OF assms])
  then show ?thesis
    by (auto simp: safe_def enqueue_def Let_def alive_def split: option.split prod.split sum.split)
qed

lemma disconnect_defined: "alive c s \<Longrightarrow> snd (disconnect pr cf c s) \<noteq> Inl Undefined"
proof
  assume a: "alive c s" and u: "snd (disconnect pr cf c s) = Inl Undefined"
  obtain s1 q where t: "send_two cf CLIENT (Bytes c) (Bytes []) s = (s1, q)" by fastforce
  from tame_send_two t show False
  proof (cases rule: tameE)
    case (threw x)
    then show False using a u t by (auto simp: disconnect_def alive_def bnd_def)
  next
    case (ok b)
    have "sessions s1 c \<noteq> None" using a quiet_server(1) [OF ok(2)] by (simp add: alive_def)
    moreover obtain s2 q2 where "close_session pr cf c s1 = (s2, q2)" by fastforce
    ultimately have "q2 \<noteq> Inl Undefined" using close_session_cases by (metis Inl_inject exn.distinct(5) sum.distinct(1))
    then show False
      using a u t ok \<open>close_session pr cf c s1 = (s2, q2)\<close>
      by (cases b) (auto simp: disconnect_def alive_def bnd_def complain_def modify_def)
  qed
qed

lemma request_data_defined:
  assumes "health_check_matcher cf = None"
  shows "snd (request_data pr cf c d s) \<noteq> Inl Undefined"
proof (cases "alive c s")
  case False
  then show ?thesis by (simp add: request_data_def alive_def complain_def modify_def)
next
  case True
  obtain s1 q where e: "enqueue pr cf c d s = (s1, q)" by fastforce
  then have "alive c s1" "q \<noteq> Inl Undefined" using safe_enqueue [OF assms] True unfolding safe_def by (metis fst_conv snd_conv)+
  then show ?thesis
    using True e disconnect_defined [of c s1 pr cf]
    by (cases q) (auto simp: request_data_def alive_def bnd_def ret_def)
qed

section \<open>Forwarding\<close>

context server_protocol
begin

lemma enqueue_one_forwards:
  assumes "health_check_matcher cf = None" and "\<forall>h f m. net cf h PROXY f m = Sent"
    and "sessions s c = Some r0" and "p_to_string pr r = Inr b"
    and "i = p_to_info pr (clock cf (events s)) r (request_id s)"
  shows "\<exists>s'. enqueue_one pr cf c r s = (s', Inr True) \<and>
    sessions s' = (sessions s)(c \<mapsto> p_remember pr (p_key pr i) r0) \<and> requests s' (p_key pr i) \<noteq> None \<and>
    requests s \<subseteq>\<^sub>m requests s' \<and>
    request_history s' = request_history s @ [i] \<and> request_id s' = request_id s + 1 \<and>
    attempts PROXY (events s') = attempts PROXY (events s) @ [(Info i, True, Sent), (Bytes b, False, Sent)]"
  using assms
  by (auto simp: enqueue_one_def enqueue_with_def forward_request_def send_def bnd_def log_line_if_def remember_def
      modify_def ret_def note_event_def Let_def map_le_def)

lemma enqueue_all_forwards:
  assumes "health_check_matcher cf = None" and "\<forall>h f m. net cf h PROXY f m = Sent"
    and "sessions s c = Some r0" and "\<forall>r \<in> set rs. p_to_string pr r = Inr (str r)"
  shows "\<exists>s' infos r1. enqueue_all pr cf c rs s = (s', Inr True) \<and>
    map (p_id pr) infos = map (\<lambda>j. request_id s + of_nat j) [0..<length rs] \<and>
    request_history s' = request_history s @ infos \<and>
    attempts PROXY (events s') = attempts PROXY (events s) @
      concat (map2 (\<lambda>i r. [(Info i, True, Sent), (Bytes (str r), False, Sent)]) infos rs) \<and>
    sessions s' c = Some r1 \<and> p_enqueued pr r1 = p_enqueued pr r0 @ map (p_key pr) infos \<and>
    requests s \<subseteq>\<^sub>m requests s' \<and> (\<forall>i \<in> set infos. requests s' (p_key pr i) \<noteq> None)"
  using assms(3,4)
proof (induction rs arbitrary: s r0)
  case Nil
  then show ?case by (auto simp: ret_def)
next
  case (Cons r rs)
  let ?i = "p_to_info pr (clock cf (events s)) r (request_id s)"
  obtain s1 where s1: "enqueue_one pr cf c r s = (s1, Inr True)"
    "sessions s1 = (sessions s)(c \<mapsto> p_remember pr (p_key pr ?i) r0)" "requests s1 (p_key pr ?i) \<noteq> None"
    "requests s \<subseteq>\<^sub>m requests s1" "request_history s1 = request_history s @ [?i]" "request_id s1 = request_id s + 1"
    "attempts PROXY (events s1) = attempts PROXY (events s) @ [(Info ?i, True, Sent), (Bytes (str r), False, Sent)]"
    using enqueue_one_forwards [OF assms(1,2) Cons.prems(1), of r "str r" ?i] Cons.prems(2) by auto
  obtain s' infos r1 where IH: "enqueue_all pr cf c rs s1 = (s', Inr True)"
    "map (p_id pr) infos = map (\<lambda>j. request_id s1 + of_nat j) [0..<length rs]"
    "request_history s' = request_history s1 @ infos"
    "attempts PROXY (events s') = attempts PROXY (events s1) @
      concat (map2 (\<lambda>i r. [(Info i, True, Sent), (Bytes (str r), False, Sent)]) infos rs)"
    "sessions s' c = Some r1" "p_enqueued pr r1 = p_enqueued pr (p_remember pr (p_key pr ?i) r0) @ map (p_key pr) infos"
    "requests s1 \<subseteq>\<^sub>m requests s'" "\<forall>i \<in> set infos. requests s' (p_key pr i) \<noteq> None"
    using Cons.IH [of s1 "p_remember pr (p_key pr ?i) r0"] s1(2) Cons.prems(2) by auto
  have ids: "map (p_id pr) (?i # infos) = map (\<lambda>j. request_id s + of_nat j) [0..<length (r # rs)]"
    using IH(2) s1(6) by (simp add: info_id upt_conv_Cons map_Suc_upt [symmetric] comp_def add.assoc del: upt_Suc)
  have "requests s' (p_key pr ?i) \<noteq> None" using s1(3) IH(7) by (auto simp: map_le_def dom_def)
  then show ?case
    using s1 IH ids map_le_trans [OF s1(4) IH(7)]
    by (intro exI [of _ s'] exI [of _ "?i # infos"] exI [of _ r1]) (simp add: bnd_def remember_enqueued)
qed

end

section \<open>A health check\<close>

lemma interrupt_all_sent:
  assumes "\<forall>h sk q m. net cf h sk q m = Sent"
  shows "\<exists>s'. interrupt_all cf ks s = (s', Inr ()) \<and> quiet s' = quiet s"
proof (induction ks arbitrary: s)
  case (Cons k ks)
  have "send cf INTERRUPT (Key k) False s = (note_event (Attempt INTERRUPT (Key k) False Sent) s, Inr True)"
    using assms by (simp add: send_def)
  then show ?case using Cons [of "note_event (Attempt INTERRUPT (Key k) False Sent) s"] by (simp add: bnd_def)
qed (simp add: ret_def)

lemma send_two_sent:
  "\<forall>h sk q m. net cf h sk q m = Sent \<Longrightarrow> \<exists>s'. send_two cf sk f1 f2 s = (s', Inr True) \<and> quiet s' = quiet s"
  by (simp add: send_two_def send_def bnd_def)

lemma close_session_sent:
  assumes "\<forall>h sk q m. net cf h sk q m = Sent" and "sessions s c = Some r"
  shows "\<exists>s'. close_session pr cf c s = (s', Inr ()) \<and> sessions s' c = None"
proof -
  obtain s1 where "interrupt_all cf (p_enqueued pr r) s = (s1, Inr ())"
    using interrupt_all_sent [OF assms(1)] by blast
  then show ?thesis using assms(2) by (simp add: close_session_def bnd_def modify_def)
qed

lemma dequeue_closes:
  assumes "\<forall>h sk q m. net cf h sk q m = Sent" and "requests s (p_key pr i) = Some c" and "sessions s c = Some r"
    and "\<not> p_keep_alive pr i"
  shows "\<exists>s'. dequeue pr cf i response s = (s', Inr True) \<and> sessions s' c = None"
proof -
  obtain s1 where s1: "send_two cf CLIENT (Bytes c) (Bytes response) s = (s1, Inr True)" "quiet s1 = quiet s"
    using send_two_sent [OF assms(1)] by blast
  obtain s2 where s2: "log_line_if cf (\<lambda>ts. p_info_log pr ts i (length response)) s1 = (s2, Inr ())" "quiet s2 = quiet s1"
    by (simp add: log_line_if_def)
  obtain s3 where s3: "send_two cf CLIENT (Bytes c) (Bytes []) s2 = (s3, Inr True)" "quiet s3 = quiet s2"
    using send_two_sent [OF assms(1)] by blast
  have "sessions s3 c = Some r" using quiet_server(1) [of s3 s] s1(2) s2(2) s3(2) assms(3) by simp
  then obtain s4 where s4: "close_session pr cf c s3 = (s4, Inr ())" "sessions s4 c = None"
    using close_session_sent [OF assms(1)] by blast
  then show ?thesis
    using assms(2,4) s1 s2 s3 by (simp add: dequeue_def bnd_def modify_def ret_def)
qed

lemma enqueue_one_health_check:
  assumes "sessions s c = Some r" and "health_check_matcher cf = Some f" and "f a"
    and "i = req_to_info (clock cf (events s)) a (request_id s)" and "\<not> http_keep_alive i"
    and "requests s (http_key i) = None" and "\<forall>h sk q m. net cf h sk q m = Sent"
  shows "\<exists>s'. enqueue_one (http_protocol cu) cf c a s = (s', Inr True) \<and> sessions s' c = None"
proof -
  let ?pr = "http_protocol cu" and ?s = "s\<lparr>request_id := request_id s + 1\<rparr>"
  obtain s1 where s1: "log_line_if cf (\<lambda>ts. p_log ?pr ts (info_id i) a) ?s = (s1, Inr ())" "quiet s1 = quiet ?s"
    by (simp add: log_line_if_def)
  then have "sessions s1 c = Some r" "requests s1 = requests s"
    using quiet_server [OF s1(2)] assms(1) by simp_all
  then obtain s2 r2 where s2: "remember ?pr c i s1 = (s2, Inr ())" "sessions s2 c = Some r2" "requests s2 (http_key i) = Some c"
    using assms(6) by (simp add: remember_def Let_def)
  then obtain s3 where "dequeue ?pr cf i (health_check_response cf) s2 = (s3, Inr True)" "sessions s3 c = None"
    using dequeue_closes [OF assms(7), of s2 ?pr i c r2] assms(5) by auto
  then show ?thesis
    using assms(2-4) s1 s2 by (simp add: enqueue_one_def enqueue_with_def bnd_def ret_def modify_def)
qed

section \<open>An example\<close>

text \<open>A configuration in which every frame is taken, and a client that has asked for the root.\<close>

definition plain_config :: "('r, 'i) server_config" where
  "plain_config = \<lparr>net = (\<lambda>h sk f m. Sent), clock = (\<lambda>h. 1000), timestamp = (\<lambda>h. ''now''), log_enabled = False,
     max_request_size = 1000, request_timeout = 10, health_check_matcher = None, health_check_response = []\<rparr>"

lemma plain_config_simps [simp]:
  "net plain_config h sk f m = Sent" "clock plain_config h = 1000" "log_enabled plain_config = False"
  "max_request_size plain_config = 1000" "request_timeout plain_config = 10" "health_check_matcher plain_config = None"
  by (simp_all add: plain_config_def)

abbreviation http0 :: "(http_request, http_request_info, http_exception) protocol" where
  "http0 \<equiv> http_protocol plain_curl"

definition get_root :: string where
  "get_root = ''GET / HTTP/1.0'' @ CRLF @ CRLF"

definition root_request :: http_request where
  "root_request = (req_make GET ''/'' [] [(''/'', [[]])] [] ''HTTP/1.0'')\<lparr>log_line := ''GET / HTTP/1.0''\<rparr>"

definition root_bytes :: string where
  "root_bytes = ''GET /?/= HTTP/1.0'' @ CRLF @ CRLF"

definition connected :: "(http_request, http_request_info) server" where
  "connected = fst (handle_request http0 plain_config [''A'', []] server_new)"

definition asked :: "(http_request, http_request_info) server" where
  "asked = fst (handle_request http0 plain_config [''A'', get_root] connected)"

lemma get_root_ne [simp]: "get_root \<noteq> []"
  by (simp add: get_root_def)

lemma get_root_parsed:
  "req_from_stream plain_curl 1000 req_new get_root = (req_new\<lparr>req_method := GET\<rparr>, Inr [root_request])"
  by (simp add: req_eval get_root_def root_request_def)

lemma root_request_sent: "req_to_string plain_curl root_request = Inr root_bytes"
  by (simp add: req_to_string_def req_string_def METHOD_TO_STRING_def url_encode_def plain_curl_def root_request_def
      root_bytes_def req_state_defs path_query_def CRLF_def CR_def LF_def NUL_def)

lemma root_info: "req_to_info t root_request n =
   \<lparr>info_id = n, info_time_stamp = stamp t, info_version = 0, info_keep_alive = False, info_close = False, info_response_code = 0\<rparr>"
  by (simp add: req_to_info_def root_request_def req_state_defs)

lemmas server_eval = handle_request_def open_or_close_def request_data_def enqueue_def enqueue_one_def enqueue_with_def
  forward_request_def remember_def log_line_if_def send_def send_two_def bnd_def ret_def modify_def note_event_def

lemma connected_state: "connected = \<lparr>events = [], sessions = [''A'' \<mapsto> req_new], requests = Map.empty,
    request_history = [], request_id = 0\<rparr>"
  by (simp add: connected_def server_eval server_new_def)

lemma asked_state:
  "requests asked = [id_time_key 0 1000 \<mapsto> ''A'']"
  "sessions asked = [''A'' \<mapsto> req_new\<lparr>req_method := GET, enqueued := [id_time_key 0 1000]\<rparr>]"
  "request_history asked = [req_to_info 1000 root_request 0]"
  by (simp_all add: asked_def connected_state server_eval http_from_stream get_root_parsed root_request_sent Let_def)
    (simp_all add: root_info http_key_def req_state_defs stamp_def fun_eq_iff)

lemma asked_reachable: "reachable http0 plain_config asked"
  unfolding asked_def connected_def
  by (intro reachable.request reachable.start) (simp_all add: admissible_def server_new_def)

section \<open>Properties\<close>

text \<open>
  One turn of \<open>serve\<close> leads from reachable states to reachable states, also when a handler throws,
  as long as a new connection does not have the identity of an old one with requests pending.
\<close>

theorem serve_turn_reachable:
  assumes "reachable pr cf s"
    and "\<forall>ms. request_in p = Some ms \<longrightarrow> admissible (fst (take_result pr cf p s)) ms"
  shows "reachable pr cf (fst (serve_turn pr cf p s))"
proof -
  let ?s1 = "fst (take_result pr cf p s)"
  have caught: "reachable pr cf (fst (m s)) \<Longrightarrow> reachable pr cf (fst (catch_std who m s))" for m who s
    by (auto simp: catch_std_def intro: reachable.complained split: prod.split sum.split exn.split)
  have s1: "reachable pr cf ?s1"
    using reachable.polled [OF assms(1)]
    by (auto simp: take_result_def bnd_def modify_def ret_def intro!: caught reachable.result split: option.split)
  have s2: "reachable pr cf (fst (take_request pr cf p ?s1))"
    using s1 assms(2) by (auto simp: take_request_def ret_def intro!: caught reachable.request split: option.split)
  show ?thesis
    using s1 s2 reachable.timeouts [OF s2]
    by (auto simp: serve_turn_def bnd_def split: prod.splits sum.splits)
qed

theorem serve_turn_reachable_witness:
  "reachable http0 plain_config
     (fst (serve_turn http0 plain_config \<lparr>result_in = None, request_in = Some [''A'', []]\<rparr> server_new))"
proof (rule serve_turn_reachable [OF reachable.start])
  show "\<forall>ms. request_in \<lparr>result_in = (None :: (http_request_info \<times> string) option), request_in = Some [''A'', []]\<rparr> = Some ms \<longrightarrow>
      admissible (fst (take_result http0 plain_config \<lparr>result_in = None, request_in = Some [''A'', []]\<rparr> server_new)) ms"
    by (simp add: take_result_def server_eval admissible_def server_new_def)
qed

text \<open>
  C3. In every state the server can reach, whatever clients and workers send and however sending
  fares, an outstanding request is in the history, so that it can time out, and it is on the list of
  its connection's session while that lives, so that a disconnect finds it.
\<close>

theorem server_ties:
  assumes "reachable (http_protocol cu) cf s" and "requests s k = Some c"
  shows "(\<exists>i \<in> set (request_history s). http_key i = k) \<and>
    (\<forall>r. sessions s c = Some r \<longrightarrow> k \<in> set (enqueued r))"
proof -
  have "linked (http_protocol cu) s" "recorded (http_protocol cu) s"
    using http.linked.reachable_keeps [OF assms(1)] http.recorded.reachable_keeps [OF assms(1)] by blast+
  then show ?thesis using assms(2) by (auto simp: linked_def recorded_def dom_def)
qed

theorem server_ties_witness:
  "requests asked (id_time_key 0 1000) = Some ''A'' \<and> id_time_key 0 1000 \<in> http_key ` set (request_history asked) \<and>
   id_time_key 0 1000 \<in> set (enqueued (the (sessions asked ''A'')))"
  using server_ties [OF asked_reachable, of "id_time_key 0 1000" "''A''"]
  by (auto simp: asked_state(1,2)) (metis imageI)

text \<open>
  C31. A client that disconnects leaves nothing behind: its session is gone, no request is outstanding
  for it any more, and each request that was has been interrupted.
\<close>

theorem disconnect_cleans_up:
  assumes "reachable (http_protocol cu) cf s" and "sessions s c = Some r"
    and "handle_request (http_protocol cu) cf [c, []] s = (s', Inr ())"
  shows "sessions s' c = None \<and> (\<forall>k. requests s' k \<noteq> Some c) \<and>
    (\<forall>k. requests s k = Some c \<longrightarrow> (\<exists>q. Attempt INTERRUPT (Key k) False q \<in> set (events s')))"
proof -
  let ?pr = "http_protocol cu"
  have link: "requests s k = Some c \<Longrightarrow> k \<in> set (p_enqueued ?pr r)" for k
    using http.linked.reachable_keeps [OF assms(1)] assms(2) by (auto simp: linked_def)
  have o: "open_or_close ?pr cf c s = (s', Inr ())" using assms(3) by (simp add: handle_request_def)
  then have st: "sessions s' c = None" "requests s' = requests s |` (- set (p_enqueued ?pr r))"
    using assms(2) by (cases rule: open_or_close_cases; auto)+
  obtain s1 u where a: "abandon_all cf (p_enqueued ?pr r) s = (s1, Inr u)" and "events s' = events s1"
    using o assms(2) by (auto simp: open_or_close_def seq_simps)
  then have "\<forall>k \<in> set (p_enqueued ?pr r). \<exists>q. Attempt INTERRUPT (Key k) False q \<in> set (events s')"
    using abandon_all_interrupts [OF a] by simp
  then show ?thesis using st link by (auto simp: restrict_map_def)
qed

theorem disconnect_cleans_up_witness:
  "\<exists>s'. handle_request http0 plain_config [''A'', []] asked = (s', Inr ()) \<and> sessions s' ''A'' = None \<and>
     (\<forall>k. requests s' k \<noteq> Some ''A'') \<and>
     (\<exists>q. Attempt INTERRUPT (Key (id_time_key 0 1000)) False q \<in> set (events s'))"
proof -
  have "\<exists>s'. handle_request http0 plain_config [''A'', []] asked = (s', Inr ())"
    by (simp add: server_eval asked_state)
  then obtain s' where s': "handle_request http0 plain_config [''A'', []] asked = (s', Inr ())" by blast
  have "requests asked (id_time_key 0 1000) = Some ''A''" by (simp add: asked_state)
  then show ?thesis
    using disconnect_cleans_up [OF asked_reachable _ s'] s' by (simp add: asked_state(2))
qed

text \<open>
  C11. When \<open>handle_timeouts\<close> returns, exactly the requests at the front of the history that are older
  than the timeout have been taken off it, none of them is outstanding any more, and no other
  request is affected.
\<close>

theorem timeouts_exact:
  assumes "handle_timeouts (http_protocol cu) cf s = (s', Inr ())"
  shows "request_history s' = dropWhile (expired (http_protocol cu) (drop_dead cf s)) (request_history s) \<and>
    (\<forall>k. requests s' k =
      (if k \<in> http_key ` set (takeWhile (expired (http_protocol cu) (drop_dead cf s)) (request_history s))
       then None else requests s k))"
  using http.timeouts_loop_exact [OF assms [unfolded handle_timeouts_def] refl] by (simp add: http_protocol_def)

theorem timeouts_exact_witness:
  "\<exists>s'. handle_timeouts http0 (plain_config\<lparr>clock := \<lambda>h. 2000\<rparr>) asked = (s', Inr ()) \<and>
     request_history s' = [] \<and> requests s' (id_time_key 0 1000) = None"
proof -
  let ?cf = "plain_config\<lparr>clock := \<lambda>h. 2000\<rparr> :: (http_request, http_request_info) server_config"
  have dd: "drop_dead ?cf asked = 1990" by (simp add: drop_dead_def)
  have ex: "takeWhile (expired http0 1990) (request_history asked) = request_history asked"
    by (simp add: asked_state(3) root_info expired_def stamp_def)
  have "\<exists>s'. handle_timeouts http0 ?cf asked = (s', Inr ())"
    by (simp add: handle_timeouts_def dd asked_state root_info dequeue_def close_session_def server_eval req_timeout_def
        stamp_def http_keep_alive_def http_key_def)
  then obtain s' where s': "handle_timeouts http0 ?cf asked = (s', Inr ())" by blast
  have "http_key ` set (request_history asked) = {id_time_key 0 1000}"
    by (simp add: asked_state(3) root_info http_key_def stamp_def)
  moreover have "dropWhile (expired http0 1990) (request_history asked) = []"
    using ex by (metis append_self_conv takeWhile_dropWhile_id)
  ultimately show ?thesis using timeouts_exact [OF s'] s' by (simp add: dd ex)
qed



text \<open>
  C35. Two answers to requests of one connection that are both the last of their connection do not go together: the first erases the
  session, and the second, whose request is still outstanding, looks the session up without checking that it is there.
\<close>

theorem second_close_dangles:
  assumes "\<forall>h sk q m. net cf h sk q m = Sent" and "sessions s c = Some r"
    and "requests s (http_key i) = Some c" and "\<not> http_keep_alive i"
    and "requests s (http_key j) = Some c" and "\<not> http_keep_alive j" and "http_key j \<noteq> http_key i"
  shows "\<exists>s'. dequeue (http_protocol cu) cf i response s = (s', Inr True) \<and> requests s' (http_key j) = Some c \<and>
    snd (dequeue (http_protocol cu) cf j response' s') = Inl Undefined"
proof -
  let ?pr = "http_protocol cu"
  obtain s1 where s1: "dequeue ?pr cf i response s = (s1, Inr True)" "sessions s1 c = None"
    using dequeue_closes [OF assms(1), of s ?pr i c r response] assms(2-4) by (auto simp: http_protocol_simps)
  have "requests s1 = (requests s)(http_key i := None)" using dequeue_fields(4) [OF s1(1) refl] by (simp add: http_protocol_def)
  then have r: "requests s1 (http_key j) = Some c" using assms(5,7) by simp
  obtain s2 where s2: "send_two cf CLIENT (Bytes c) (Bytes response') s1 = (s2, Inr True)" "quiet s2 = quiet s1"
    using send_two_sent [OF assms(1)] by blast
  obtain s3 where s3: "log_line_if cf (\<lambda>ts. p_info_log ?pr ts j (length response')) s2 = (s3, Inr ())" "quiet s3 = quiet s2"
    by (simp add: log_line_if_def)
  obtain s4 where s4: "send_two cf CLIENT (Bytes c) (Bytes []) s3 = (s4, Inr True)" "quiet s4 = quiet s3"
    using send_two_sent [OF assms(1)] by blast
  have "sessions s4 c = None" using quiet_server(1) [of s4 s1] s1(2) s2(2) s3(2) s4(2) by simp
  then have "snd (dequeue ?pr cf j response' s1) = Inl Undefined"
    using r assms(6) s2(1) s3(1) s4(1) by (simp add: dequeue_def bnd_def ret_def close_session_def http_protocol_simps)
  then show ?thesis using s1(1) r by blast
qed

theorem second_close_dangles_witness:
  "\<exists>s s'. reachable http0 plain_config s \<and> dequeue http0 plain_config (req_to_info 1000 root_request 0) ''a'' s = (s', Inr True) \<and>
     snd (dequeue http0 plain_config (req_to_info 1000 root_request 1) ''b'' s') = Inl Undefined"
proof -
  let ?s = "fst (handle_request http0 plain_config [''A'', get_root @ get_root] connected)"
  let ?i = "req_to_info 1000 root_request 0" and ?j = "req_to_info 1000 root_request 1"
  have p: "req_from_stream plain_curl 1000 req_new (get_root @ get_root) = (req_new\<lparr>req_method := GET\<rparr>, Inr [root_request, root_request])"
    by (simp add: req_eval get_root_def root_request_def)
  have "reachable http0 plain_config ?s"
    unfolding connected_def by (intro reachable.request reachable.start) (simp_all add: admissible_def server_new_def)
  moreover have "requests ?s = [id_time_key 0 1000 \<mapsto> ''A'', id_time_key 1 1000 \<mapsto> ''A'']" "sessions ?s ''A'' \<noteq> None"
    by (simp_all add: connected_state server_eval http_from_stream p root_request_sent Let_def)
      (simp_all add: root_info http_key_def req_state_defs stamp_def fun_eq_iff id_time_key_def)
  moreover define s where "s = ?s"
  ultimately have s: "reachable http0 plain_config s" "requests s = [id_time_key 0 1000 \<mapsto> ''A'', id_time_key 1 1000 \<mapsto> ''A'']"
      "sessions s ''A'' \<noteq> None" by simp_all
  obtain r where r: "sessions s ''A'' = Some r" using s(3) by blast
  have "requests s (http_key ?i) = Some ''A''" "requests s (http_key ?j) = Some ''A''" "\<not> http_keep_alive ?i" "\<not> http_keep_alive ?j"
      "http_key ?j \<noteq> http_key ?i"
    by (simp_all add: s(2) root_info http_key_def http_keep_alive_def stamp_def id_time_key_def)
  from second_close_dangles [OF _ r this(1,3,2,4,5), of plain_config plain_curl "''a''" "''b''"] s(1)
  show ?thesis by auto
qed

text \<open>
  C20. The client socket is never left in the middle of a message: in every reachable state each
  identity frame that was taken is followed by one frame for it, and a frame that was not taken by
  none.
\<close>

theorem client_socket_framed:
  assumes "reachable (http_protocol cu) cf s"
  shows "well_framed (attempts CLIENT (events s))"
  using assms
  by (induction rule: reachable.induct) (auto simp: server_new_def note_event_def intro: neat_well_framed)

theorem client_socket_framed_witness:
  "well_framed (attempts CLIENT (events asked))"
  by (rule client_socket_framed [OF asked_reachable])

text \<open>
  C33. Without a health check, \<open>handle_request\<close> never uses an iterator or a reference after the
  session it belongs to is gone, whatever the state and the message.
\<close>

theorem handle_request_defined:
  assumes "health_check_matcher cf = None"
  shows "snd (handle_request (http_protocol cu) cf ms s) \<noteq> Inl Undefined"
proof -
  have "snd (open_or_close (http_protocol cu) cf c s) \<noteq> Inl Undefined" for c
  proof -
    obtain s' res where o: "open_or_close (http_protocol cu) cf c s = (s', res)" by fastforce
    then have "res \<noteq> Inl Undefined" by (cases rule: open_or_close_cases) auto
    then show ?thesis using o by simp
  qed
  moreover have "snd (request_data (http_protocol cu) cf c d s) \<noteq> Inl Undefined" for c d
    by (rule request_data_defined [OF assms])
  ultimately show ?thesis
    by (auto simp: handle_request_def complain_def modify_def split: list.split)
qed

theorem handle_request_defined_witness:
  "snd (handle_request http0 plain_config [''A'', get_root @ get_root] connected) \<noteq> Inl Undefined"
  by (rule handle_request_defined) simp

text \<open>
  C34. With health checks the reference does dangle: when a packet holds two requests that are health
  checks and the first does not keep the connection alive, answering it erases the session, and the
  next turn of the loop in \<open>enqueue\<close> appends to the erased session's list.
\<close>

theorem health_check_dangles:
  assumes "sessions s c = Some r0" and "d \<noteq> []"
    and "req_from_stream cu (max_request_size cf) r0 d = (r1, Inr (a # b # rs))"
    and "health_check_matcher cf = Some f" and "f a" and "f b"
    and "i = req_to_info (clock cf (events s)) a (request_id s)"
    and "\<not> http_keep_alive i" and "requests s (http_key i) = None"
    and "\<forall>h sk q m. net cf h sk q m = Sent"
  shows "snd (handle_request (http_protocol cu) cf [c, d] s) = Inl Undefined"
proof -
  let ?pr = "http_protocol cu" and ?s = "s\<lparr>sessions := (sessions s)(c \<mapsto> r1)\<rparr>"
  obtain s1 where s1: "enqueue_one ?pr cf c a ?s = (s1, Inr True)" and gone: "sessions s1 c = None"
    using enqueue_one_health_check [of ?s c r1 cf f a i cu] assms by auto
  have "snd (enqueue_one ?pr cf c b s1) = Inl Undefined"
    using gone assms(4,6)
    by (simp add: enqueue_one_def enqueue_with_def bnd_def ret_def modify_def log_line_if_def remember_def note_event_def)
  then obtain s2 where "enqueue_one ?pr cf c b s1 = (s2, Inl Undefined)" by (metis prod.exhaust_sel)
  then have "enqueue ?pr cf c d s = (s2, Inl Undefined)"
    using assms(1,3) s1 by (simp add: enqueue_def http_from_stream bnd_def)
  then show ?thesis using assms(1,2) by (simp add: handle_request_def request_data_def bnd_def)
qed

theorem health_check_dangles_witness:
  "snd (handle_request http0 (plain_config\<lparr>health_check_matcher := Some (\<lambda>r. path r = ''/'')\<rparr>)
     [''A'', get_root @ get_root] connected) = Inl Undefined"
proof (rule health_check_dangles [where a = root_request and b = root_request and rs = "[]" and ?r0.0 = req_new
      and f = "\<lambda>r. path r = ''/''" and i = "req_to_info 1000 root_request 0"])
  show "req_from_stream plain_curl (max_request_size (plain_config\<lparr>health_check_matcher := Some (\<lambda>r. path r = ''/'')\<rparr>
      :: (http_request, http_request_info) server_config)) req_new (get_root @ get_root) =
      (req_new\<lparr>req_method := GET\<rparr>, Inr [root_request, root_request])"
    by (simp add: req_eval get_root_def root_request_def)
  show "path root_request = ''/''" "path root_request = ''/''" by (simp_all add: root_request_def req_state_defs)
qed (simp_all add: connected_state root_info http_keep_alive_def)

text \<open>
  C19. Every request that is parsed is forwarded whole and remembered, when the proxy takes it: the
  proxy socket gets the request's info and then its bytes, for each request in order; the infos have
  consecutive ids, enter the history, and are outstanding and on the session's list afterwards.
\<close>

theorem enqueue_forwards:
  assumes "health_check_matcher cf = None" and "\<forall>h f m. net cf h PROXY f m = Sent"
    and "sessions s c = Some r0" and "req_from_stream cu (max_request_size cf) r0 d = (r1, Inr rs)"
    and "\<forall>r \<in> set rs. req_to_string cu r = Inr (str r)"
  shows "\<exists>s' infos r2. enqueue (http_protocol cu) cf c d s = (s', Inr True) \<and>
    map info_id infos = map (\<lambda>j. request_id s + of_nat j) [0..<length rs] \<and>
    request_history s' = request_history s @ infos \<and>
    attempts PROXY (events s') = attempts PROXY (events s) @
      concat (map2 (\<lambda>i r. [(Info i, True, Sent), (Bytes (str r), False, Sent)]) infos rs) \<and>
    sessions s' c = Some r2 \<and> enqueued r2 = enqueued r1 @ map http_key infos \<and>
    (\<forall>i \<in> set infos. requests s' (http_key i) \<noteq> None)"
proof -
  let ?pr = "http_protocol cu" and ?s = "s\<lparr>sessions := (sessions s)(c \<mapsto> r1)\<rparr>"
  have "\<forall>r \<in> set rs. p_to_string ?pr r = Inr (str r)" using assms(5) by (simp add: http_protocol_def)
  moreover have "enqueue ?pr cf c d s = enqueue_all ?pr cf c rs ?s"
    using assms(3,4) by (simp add: enqueue_def http_from_stream)
  ultimately show ?thesis
    using http.enqueue_all_forwards [OF assms(1,2), of ?s c r1 rs cu str] by (simp add: http_protocol_def) blast
qed

theorem enqueue_forwards_witness:
  "\<exists>s' i. enqueue http0 plain_config ''A'' get_root connected = (s', Inr True) \<and> info_id i = 0 \<and>
     attempts PROXY (events s') = [(Info i, True, Sent), (Bytes root_bytes, False, Sent)] \<and>
     requests s' (http_key i) \<noteq> None"
proof -
  have "sessions connected ''A'' = Some req_new" by (simp add: connected_state)
  from enqueue_forwards [of plain_config connected "''A''" req_new plain_curl get_root _ "[root_request]" "\<lambda>_. root_bytes", OF _ _ this]
  show ?thesis by (auto simp: get_root_parsed root_request_sent connected_state)
qed

end
