(* ===== verification/Proxy.thy ===== *)
theory Proxy
  imports Sockets
begin

text \<open>
  \<open>proxy_t\<close> of \<open>prime_server.hpp\<close> and \<open>prime_server.cpp\<close>: the load balancer that hands requests to
  workers which have advertised that they are idle. Its three containers refer to each other by
  iterators and addresses, so the list of heartbeats is modelled with its nodes: an entry is a
  node's address and the heartbeat stored there. \<open>idle_queue\<close> is the abstract queue it implements.
\<close>

section \<open>State\<close>

type_synonym node = nat

record 'i proxy = "'i io" +
  fifo :: "(node \<times> string) list"
  workers :: "string \<rightharpoonup> node"
  heart_beats :: "node \<rightharpoonup> string"

text \<open>
  The application's choose function gets the heartbeats and the request's frames and may point to a
  heartbeat, to something else, to nothing, or throw.
  \<open>new_node\<close> is the allocator: an address that no live node has.
\<close>

record 'i proxy_config = "'i world" +
  choose_function :: "((node \<times> string) list \<Rightarrow> 'i frame list \<Rightarrow> exn + node option) option"
  new_node :: "node list \<Rightarrow> node"

type_synonym ('i, 'a) proxying = "('i proxy, exn, 'a) action"

definition proxy_new :: "'i proxy" where
  "proxy_new = \<lparr>events = [], fifo = [], workers = Map.empty, heart_beats = Map.empty\<rparr>"

section \<open>Operations\<close>

definition expire :: "'i proxy \<Rightarrow> nat" where
  "expire p = (if fifo p \<noteq> [] then 1 else 0) + 1"

text \<open>Writing through an iterator and erasing at one; the node has to be there.\<close>

definition set_node :: "node \<Rightarrow> string \<Rightarrow> ('i, unit) proxying" where
  "set_node n h p =
     (if n \<in> fst ` set (fifo p)
      then (p\<lparr>fifo := map (\<lambda>(m, x). if m = n then (m, h) else (m, x)) (fifo p)\<rparr>, Inr ())
      else (p, Inl Undefined))"

definition erase_node :: "node \<Rightarrow> ('i, unit) proxying" where
  "erase_node n p =
     (if n \<in> fst ` set (fifo p) then (p\<lparr>fifo := filter (\<lambda>(m, x). m \<noteq> n) (fifo p)\<rparr>, Inr ())
      else (p, Inl Undefined))"

text \<open>\<open>emplace\<close> leaves an entry that is there already.\<close>

definition emplace :: "'k \<Rightarrow> 'v \<Rightarrow> ('k \<rightharpoonup> 'v) \<Rightarrow> ('k \<rightharpoonup> 'v)" where
  "emplace k v m = (if m k = None then m(k \<mapsto> v) else m)"

text \<open>A worker reports that it is idle: its address and its heartbeat.\<close>

definition bored :: "('i, 'z) proxy_config_scheme \<Rightarrow> string list \<Rightarrow> ('i, unit) proxying" where
  "bored cf messages p =
     (case messages of
        address # heart_beat # _ \<Rightarrow>
          (case workers p address of
             None \<Rightarrow>
               let n = new_node cf (map fst (fifo p)) in
               (p\<lparr>fifo := fifo p @ [(n, heart_beat)], workers := emplace address n (workers p),
                  heart_beats := emplace n address (heart_beats p)\<rparr>, Inr ())
           | Some n \<Rightarrow> set_node n heart_beat p)
      | _ \<Rightarrow> (p, Inl Undefined))"

text \<open>
  The heartbeat the request goes to: the one the application points to, or the front if it does not
  or if the pointer is none of ours. The result is the iterator into \<open>heart_beats\<close>, its address and
  the worker's.
\<close>

definition heart_beat_owner :: "node option \<Rightarrow> 'i proxy \<Rightarrow> (node \<times> string) option" where
  "heart_beat_owner chosen p = Option.bind chosen (\<lambda>n. map_option (Pair n) (heart_beats p n))"

definition pick :: "('i, 'z) proxy_config_scheme \<Rightarrow> 'i frame list \<Rightarrow> ('i, node \<times> string) proxying" where
  "pick cf messages p =
     (case (case choose_function cf of None \<Rightarrow> Inr None | Some f \<Rightarrow> f (fifo p) messages) of
        Inl x \<Rightarrow> (p, Inl x)
      | Inr chosen \<Rightarrow>
          (case heart_beat_owner chosen p of
             Some r \<Rightarrow> (p, Inr r)
           | None \<Rightarrow>
               (case fifo p of
                  [] \<Rightarrow> (p, Inl Undefined)
                | (n, _) # _ \<Rightarrow>
                    (case heart_beat_owner (Some n) p of None \<Rightarrow> (p, Inl Undefined) | Some r \<Rightarrow> (p, Inr r)))))"

definition send_job :: "('i, 'z) proxy_config_scheme \<Rightarrow> string \<Rightarrow> 'i frame list \<Rightarrow> ('i, bool) proxying" where
  "send_job cf address messages = send_headed cf DOWNSTREAM (Bytes address) messages"

text \<open>They are dead to us until they report back.\<close>

definition forget_worker :: "node \<Rightarrow> string \<Rightarrow> ('i, unit) proxying" where
  "forget_worker n address p =
     (case workers p address of
        None \<Rightarrow> (p, Inl Undefined)
      | Some m \<Rightarrow>
          bnd (erase_node m) (\<lambda>_.
            modify (\<lambda>p. p\<lparr>workers := (workers p)(address := None), heart_beats := (heart_beats p)(n := None)\<rparr>)) p)"

definition dispatch_job :: "('i, 'z) proxy_config_scheme \<Rightarrow> 'i frame list \<Rightarrow> ('i, unit) proxying" where
  "dispatch_job cf messages =
     (case messages of
        from # info # rest \<Rightarrow>
          bnd (pick cf rest) (\<lambda>(n, address).
          bnd (send_job cf address (info # rest)) (\<lambda>ok.
          bnd (if ok then ret () else complain ''Failed to forward job to worker'') (\<lambda>_.
          forget_worker n address)))
      | _ \<Rightarrow> raise Undefined)"

text \<open>
  One turn of \<open>forward\<close>: what the poll found on the two sockets. The upstream socket is polled only
  when \<open>expire\<close> says so.
\<close>

record 'i forwarded =
  idle_in :: "string list option"
  job_in :: "'i frame list option"

definition forward_turn :: "('i, 'z) proxy_config_scheme \<Rightarrow> 'i forwarded \<Rightarrow> ('i, unit) proxying" where
  "forward_turn cf f p =
     (let count = expire p in
      bnd (modify (note_event Polled)) (\<lambda>_.
      bnd (case idle_in f of None \<Rightarrow> ret () | Some messages \<Rightarrow> catch_std ''proxy_t'' (bored cf messages)) (\<lambda>_.
      case (if count = 2 then job_in f else None) of
        None \<Rightarrow> ret ()
      | Some messages \<Rightarrow> catch_std ''proxy_t'' (dispatch_job cf messages))) p)"

fun forward :: "('i, 'z) proxy_config_scheme \<Rightarrow> 'i forwarded list \<Rightarrow> ('i, unit) proxying" where
  "forward cf [] = ret ()"
| "forward cf (f # fs) = bnd (forward_turn cf f) (\<lambda>_. forward cf fs)"

section \<open>The abstract queue\<close>

text \<open>Idle workers with their heartbeats, the longest idle first.\<close>

type_synonym idle_queue = "(string \<times> string) list"

definition advertise_idle :: "string \<Rightarrow> string \<Rightarrow> idle_queue \<Rightarrow> idle_queue" where
  "advertise_idle a h q =
     (if a \<in> fst ` set q then map (\<lambda>(b, x). if b = a then (b, h) else (b, x)) q else q @ [(a, h)])"

definition take_worker :: "string \<Rightarrow> idle_queue \<Rightarrow> idle_queue" where
  "take_worker a q = filter (\<lambda>(b, x). b \<noteq> a) q"

definition idle_workers :: "'i proxy \<Rightarrow> idle_queue" where
  "idle_workers p = map (\<lambda>(n, h). (the (heart_beats p n), h)) (fifo p)"

section \<open>The invariant\<close>

text \<open>
  Nodes are distinct, every node has an owner in \<open>heart_beats\<close> and nothing else has, and \<open>workers\<close> is
  the inverse of \<open>heart_beats\<close>.
\<close>

definition proxy_inv :: "'i proxy \<Rightarrow> bool" where
  "proxy_inv p \<longleftrightarrow> distinct (map fst (fifo p)) \<and> dom (heart_beats p) = fst ` set (fifo p) \<and>
     (\<forall>n a. heart_beats p n = Some a \<longleftrightarrow> workers p a = Some n)"

lemma proxy_inv_new: "proxy_inv proxy_new"
  by (simp add: proxy_inv_def proxy_new_def)

lemma proxy_new_simps [simp]: "idle_workers proxy_new = []" "events proxy_new = []"
  by (simp_all add: idle_workers_def proxy_new_def)

lemma proxy_inv_note [simp]: "proxy_inv (note_event v p) = proxy_inv p"
  by (simp add: proxy_inv_def note_event_def)

lemma quiet_proxy:
  fixes p p' :: "'i proxy"
  assumes "quiet p' = quiet p"
  shows "fifo p' = fifo p" "workers p' = workers p" "heart_beats p' = heart_beats p"
  using assms by (cases p, cases p', simp add: quiet_def)+

lemma worker_node:
  assumes "proxy_inv p" and "workers p a = Some n"
  shows "heart_beats p n = Some a" and "n \<in> fst ` set (fifo p)"
  using assms unfolding proxy_inv_def by (metis, metis domI)

lemma ran_image: "(\<lambda>k. the (m k)) ` dom m = ran m"
  by (force simp: ran_def dom_def image_iff)

lemma idle_workers_addresses:
  assumes "proxy_inv p"
  shows "fst ` set (idle_workers p) = dom (workers p)"
proof -
  have "fst ` set (idle_workers p) = (\<lambda>n. the (heart_beats p n)) ` fst ` set (fifo p)"
    by (force simp: idle_workers_def image_image case_prod_beta)
  also have "\<dots> = ran (heart_beats p)"
    using assms ran_image [of "heart_beats p"] by (simp add: proxy_inv_def)
  also have "\<dots> = dom (workers p)" using assms by (auto simp: proxy_inv_def ran_def dom_def)
  finally show ?thesis .
qed

text \<open>One entry of the queue per worker.\<close>

lemma node_address:
  assumes "proxy_inv p" and "n \<in> fst ` set (fifo p)" and "workers p a = Some m"
  shows "the (heart_beats p n) = a \<longleftrightarrow> n = m"
proof -
  obtain b where b: "heart_beats p n = Some b" using assms(1,2) unfolding proxy_inv_def by (metis domD)
  then have "workers p b = Some n" using assms(1) by (simp add: proxy_inv_def)
  then show ?thesis using assms(1,3) b unfolding proxy_inv_def by (metis option.sel)
qed

lemma proxy_inv_nodes:
  "map fst (fifo p') = map fst (fifo p) \<Longrightarrow> workers p' = workers p \<Longrightarrow> heart_beats p' = heart_beats p \<Longrightarrow>
   proxy_inv p' = proxy_inv p"
  unfolding proxy_inv_def by (metis list.set_map)

lemma bored_refines:
  assumes "proxy_inv p" and "\<And>ns. new_node cf ns \<notin> set ns"
  shows "\<exists>p'. bored cf (a # h # ms) p = (p', Inr ()) \<and> proxy_inv p' \<and>
    idle_workers p' = advertise_idle a h (idle_workers p)"
proof (cases "workers p a")
  case None
  let ?n = "new_node cf (map fst (fifo p))"
  have n: "?n \<notin> fst ` set (fifo p)" using assms(2) [of "map fst (fifo p)"] by simp
  then have hn: "heart_beats p ?n = None" using assms(1) by (auto simp: proxy_inv_def dom_def)
  have na: "heart_beats p m \<noteq> Some a" for m using None assms(1) by (auto simp: proxy_inv_def)
  have nw: "workers p b \<noteq> Some ?n" for b using hn assms(1) by (simp add: proxy_inv_def) (metis option.distinct(1))
  have "map (\<lambda>(m, x). (the (((heart_beats p)(?n \<mapsto> a)) m), x)) (fifo p) = idle_workers p"
    using n by (auto simp: idle_workers_def image_iff)
  moreover have "a \<notin> fst ` set (idle_workers p)" using None idle_workers_addresses [OF assms(1)] by auto
  ultimately show ?thesis
    using None n hn na nw assms(1)
    by (auto simp: bored_def emplace_def proxy_inv_def advertise_idle_def idle_workers_def Let_def)
next
  case (Some n)
  note w = worker_node [OF assms(1) Some]
  have "a \<in> fst ` set (idle_workers p)" using Some idle_workers_addresses [OF assms(1)] by auto
  moreover have "idle_workers (p\<lparr>fifo := map (\<lambda>(m, x). if m = n then (m, h) else (m, x)) (fifo p)\<rparr>) =
      map (\<lambda>(b, x). if b = a then (b, h) else (b, x)) (idle_workers p)"
    using node_address [OF assms(1) _ Some] by (force simp: idle_workers_def)
  moreover have "proxy_inv (p\<lparr>fifo := map (\<lambda>(m, x). if m = n then (m, h) else (m, x)) (fifo p)\<rparr>)"
    using assms(1) by (subst proxy_inv_nodes [of _ p]) auto
  ultimately show ?thesis using Some w(2) by (simp add: bored_def set_node_def advertise_idle_def)
qed

text \<open>Each worker is in the queue once.\<close>

lemma idle_workers_distinct:
  assumes "proxy_inv p"
  shows "distinct (map fst (idle_workers p))"
proof -
  have "inj_on (\<lambda>n. the (heart_beats p n)) (fst ` set (fifo p))"
  proof (rule inj_onI)
    fix n m
    assume "n \<in> fst ` set (fifo p)" "m \<in> fst ` set (fifo p)" "the (heart_beats p n) = the (heart_beats p m)"
    moreover obtain a where "heart_beats p n = Some a"
      using \<open>n \<in> fst ` set (fifo p)\<close> assms unfolding proxy_inv_def by (metis domD)
    ultimately show "n = m" using assms node_address unfolding proxy_inv_def by (metis option.sel)
  qed
  moreover have "map fst (idle_workers p) = map (\<lambda>n. the (heart_beats p n)) (map fst (fifo p))"
    by (simp add: idle_workers_def case_prod_beta)
  ultimately show ?thesis using assms by (simp only: proxy_inv_def distinct_map set_map)
qed

lemma fifo_idle: "fifo p = [] \<longleftrightarrow> idle_workers p = []"
  by (simp add: idle_workers_def)

text \<open>\<open>pick\<close> finds an idle worker, the longest idle one unless the application points to another.\<close>

lemma heart_beat_owner_worker:
  "proxy_inv p \<Longrightarrow> heart_beat_owner chosen p = Some (n, a) \<Longrightarrow> workers p a = Some n"
  by (cases chosen) (auto simp: heart_beat_owner_def proxy_inv_def)

lemma pick_worker:
  assumes "proxy_inv p" and "pick cf ms p = (p', Inr (n, a))"
  shows "p' = p" and "workers p a = Some n"
  using assms heart_beat_owner_worker [OF assms(1)]
  by (auto simp: pick_def split: option.splits sum.splits list.splits)

lemma pick_total:
  assumes "proxy_inv p" and "fifo p \<noteq> []"
  shows "(\<exists>f x. choose_function cf = Some f \<and> f (fifo p) ms = Inl x \<and> pick cf ms p = (p, Inl x)) \<or>
    (\<exists>n a. pick cf ms p = (p, Inr (n, a)))"
proof -
  obtain n h q where f: "fifo p = (n, h) # q" using assms(2) by (metis list.exhaust prod.exhaust)
  then have "heart_beats p n \<noteq> None" using assms(1) unfolding proxy_inv_def by (force simp: dom_def)
  then show ?thesis using f by (auto simp: pick_def heart_beat_owner_def split: option.split sum.split)
qed

lemma pick_front:
  assumes "proxy_inv p" and "choose_function cf = None" and "idle_workers p = (a, h) # q"
  shows "\<exists>n. pick cf ms p = (p, Inr (n, a))"
proof -
  obtain n x r where f: "fifo p = (n, x) # r" using assms(3) by (auto simp: idle_workers_def)
  then have "heart_beats p n \<noteq> None" using assms(1) unfolding proxy_inv_def by (force simp: dom_def)
  then show ?thesis using f assms(2,3) by (auto simp: pick_def heart_beat_owner_def idle_workers_def)
qed

lemma forget_worker_refines:
  assumes "proxy_inv p" and "workers p a = Some n"
  shows "\<exists>p'. forget_worker n a p = (p', Inr ()) \<and> proxy_inv p' \<and> events p' = events p \<and>
    idle_workers p' = take_worker a (idle_workers p)"
proof -
  note w = worker_node [OF assms]
  let ?p = "p\<lparr>fifo := filter (\<lambda>(m, x). m \<noteq> n) (fifo p), workers := (workers p)(a := None),
              heart_beats := (heart_beats p)(n := None)\<rparr>"
  have run: "forget_worker n a p = (?p, Inr ())"
    using assms(2) w(2) by (simp add: forget_worker_def erase_node_def bnd_def modify_def)
  have "distinct (map fst (filter (\<lambda>(m, x). m \<noteq> n) (fifo p)))"
    using assms(1) by (simp add: proxy_inv_def distinct_map_filter)
  moreover have "b = a" if "workers p b = Some n" for b
    using worker_node(1) [OF assms(1) that] w(1) by simp
  ultimately have "proxy_inv ?p"
    using assms(1) w(1) unfolding proxy_inv_def by (auto simp: assms(2))
  moreover have "idle_workers ?p = take_worker a (idle_workers p)"
  proof -
    have "filter (\<lambda>(m, x). m \<noteq> n) (fifo p) = filter (\<lambda>(m, x). the (heart_beats p m) \<noteq> a) (fifo p)"
      using node_address [OF assms(1) _ assms(2)] by (intro filter_cong) force+
    then have "take_worker a (idle_workers p) =
        map (\<lambda>(m, x). (the (heart_beats p m), x)) (filter (\<lambda>(m, x). m \<noteq> n) (fifo p))"
      by (simp add: take_worker_def idle_workers_def filter_map comp_def case_prod_unfold)
    then show ?thesis by (auto simp: idle_workers_def)
  qed
  ultimately show ?thesis using run by auto
qed

lemma idle_workers_quiet: "quiet p' = quiet p \<Longrightarrow> idle_workers p' = idle_workers p"
  using quiet_proxy [of p' p] by (simp add: idle_workers_def)

lemma proxy_inv_quiet: "quiet p' = quiet p \<Longrightarrow> proxy_inv p' = proxy_inv p"
  using quiet_proxy [of p' p] by (simp add: proxy_inv_def)

lemma tame_send_job: "ms \<noteq> [] \<Longrightarrow> tame (send_job cf a ms)"
  by (simp add: send_job_def tame_send_headed)

text \<open>
  A job goes to an idle worker and that worker leaves the queue, whether it got the job or not; if the
  application or the socket throws, the job is lost and the queue stays as it is.
\<close>

lemma dispatch_refines:
  assumes "proxy_inv p" and "idle_workers p \<noteq> []"
  obtains (taken) p' n a where "pick cf rest p = (p, Inr (n, a))" "a \<in> fst ` set (idle_workers p)"
      "dispatch_job cf (from # info # rest) p = (p', Inr ())" "proxy_inv p'"
      "idle_workers p' = take_worker a (idle_workers p)"
  | (thrown) p' x where "dispatch_job cf (from # info # rest) p = (p', Inl x)" "quiet p' = quiet p"
      "(\<exists>e. x = Std e) \<or> (\<exists>f. choose_function cf = Some f \<and> f (fifo p) rest = Inl x)"
proof -
  have f: "fifo p \<noteq> []" using assms(2) by (simp add: fifo_idle)
  consider (c) f x where "choose_function cf = Some f" "f (fifo p) rest = Inl x" "pick cf rest p = (p, Inl x)"
    | (w) n a where "pick cf rest p = (p, Inr (n, a))"
    using pick_total [OF assms(1) f, of cf rest] by blast
  then show thesis
  proof cases
    case c
    then show thesis by (intro thrown [of p x]) (auto simp: dispatch_job_def bnd_def)
  next
    case w
    note wn = pick_worker(2) [OF assms(1) w]
    let ?say = "\<lambda>ok. if ok then ret () else complain ''Failed to forward job to worker''"
    have run: "dispatch_job cf (from # info # rest) p =
        bnd (bnd (send_job cf a (info # rest)) ?say) (\<lambda>_. forget_worker n a) p"
      unfolding bnd_assoc using w by (simp add: dispatch_job_def bnd_step)
    obtain p1 r where j: "bnd (send_job cf a (info # rest)) ?say p = (p1, r)" by fastforce
    have "tame (bnd (send_job cf a (info # rest)) ?say)" by (intro tame_bnd tame_send_job) auto
    from this j show thesis
    proof (cases rule: tameE)
      case (threw x)
      then show thesis
        using j run by (intro thrown [of p1 "Std x"]) (auto simp: bnd_Inl)
    next
      case (ok u)
      have i: "proxy_inv p1" "workers p1 a = Some n" "idle_workers p1 = idle_workers p"
        using assms(1) wn quiet_proxy [OF ok(2)] proxy_inv_quiet [OF ok(2)] idle_workers_quiet [OF ok(2)] by simp_all
      obtain p' where "forget_worker n a p1 = (p', Inr ())" "proxy_inv p'"
          "idle_workers p' = take_worker a (idle_workers p)"
        using forget_worker_refines [OF i(1,2)] i(3) by auto
      moreover from this(1) have "dispatch_job cf (from # info # rest) p = (p', Inr ())"
        using j ok(1) by (simp add: run bnd_def [of "bnd _ _"])
      moreover have "a \<in> fst ` set (idle_workers p)"
        using wn idle_workers_addresses [OF assms(1)] by auto
      ultimately show thesis using taken w by blast
    qed
  qed
qed

lemma send_job_reliable:
  "reliable cf DOWNSTREAM \<Longrightarrow> ms \<noteq> [] \<Longrightarrow>
   send_job cf a ms p = (p\<lparr>events := events p @ sent_frames DOWNSTREAM (Bytes a # ms)\<rparr>, Inr True)"
  by (simp add: send_job_def send_headed_reliable)

lemma dispatch_reliable:
  assumes "proxy_inv p" and "reliable cf DOWNSTREAM" and "pick cf rest p = (p, Inr (n, a))"
  shows "\<exists>p'. dispatch_job cf (from # info # rest) p = (p', Inr ()) \<and> proxy_inv p' \<and>
    idle_workers p' = take_worker a (idle_workers p) \<and>
    events p' = events p @ sent_frames DOWNSTREAM (Bytes a # info # rest)"
proof -
  let ?p = "p\<lparr>events := events p @ sent_frames DOWNSTREAM (Bytes a # info # rest)\<rparr>"
  have q: "quiet ?p = quiet p" by (simp add: quiet_def)
  have "workers ?p a = Some n" using pick_worker(2) [OF assms(1,3)] by simp
  then obtain p' where "forget_worker n a ?p = (p', Inr ())" "proxy_inv p'" "events p' = events ?p"
      "idle_workers p' = take_worker a (idle_workers p)"
    using forget_worker_refines [of ?p a n] assms(1) proxy_inv_quiet [OF q] idle_workers_quiet [OF q] by auto
  moreover from this(1) have "dispatch_job cf (from # info # rest) p = (p', Inr ())"
    using assms(3) by (simp add: dispatch_job_def bnd_def ret_def send_job_reliable [OF assms(2)])
  ultimately show ?thesis by auto
qed

section \<open>Turns\<close>

text \<open>
  What the peers promise: an idle worker sends an address and a heartbeat, a request comes with the
  address of its sender and an info, the allocator gives fresh nodes, and the application's function
  may throw but stays clear of undefined behaviour.
\<close>

definition sound_turn :: "'i forwarded \<Rightarrow> bool" where
  "sound_turn f \<longleftrightarrow> (case idle_in f of None \<Rightarrow> True | Some ms \<Rightarrow> 2 \<le> length ms) \<and>
     (case job_in f of None \<Rightarrow> True | Some ms \<Rightarrow> 2 \<le> length ms)"

definition sound_proxy :: "('i, 'z) proxy_config_scheme \<Rightarrow> bool" where
  "sound_proxy cf \<longleftrightarrow> (\<forall>ns. new_node cf ns \<notin> set ns) \<and>
     (\<forall>f q ms. choose_function cf = Some f \<longrightarrow> f q ms \<noteq> Inl Undefined)"

definition defined_run :: "'i proxy \<times> (exn + 'a) \<Rightarrow> bool" where
  "defined_run r \<longleftrightarrow> proxy_inv (fst r) \<and> snd r \<noteq> Inl Undefined"

lemma two_frames: "2 \<le> length ms \<Longrightarrow> \<exists>a b r. ms = a # b # r"
  by (cases ms; cases "tl ms") auto

lemma defined_bnd:
  "defined_run (m p) \<Longrightarrow> (\<And>x p'. m p = (p', Inr x) \<Longrightarrow> proxy_inv p' \<Longrightarrow> defined_run (f x p')) \<Longrightarrow> defined_run (bnd m f p)"
  by (auto simp: defined_run_def bnd_def split: prod.splits sum.splits)

lemma defined_catch: "defined_run (m p) \<Longrightarrow> defined_run (catch_std who m p)"
  by (auto simp: defined_run_def catch_std_def split: prod.splits sum.splits exn.splits)

lemma defined_bored:
  assumes "proxy_inv p" "sound_proxy cf" "2 \<le> length ms"
  shows "defined_run (bored cf ms p)"
proof -
  obtain a h r where "ms = a # h # r" using two_frames [OF assms(3)] by blast
  moreover have "new_node cf ns \<notin> set ns" for ns using assms(2) by (simp add: sound_proxy_def)
  ultimately show ?thesis using bored_refines [OF assms(1), of cf a h r] by (auto simp: defined_run_def)
qed

lemma defined_dispatch:
  assumes "proxy_inv p" "sound_proxy cf" "2 \<le> length ms" "fifo p \<noteq> []"
  shows "defined_run (dispatch_job cf ms p)"
proof -
  obtain a b r where ms: "ms = a # b # r" using two_frames [OF assms(3)] by blast
  have "idle_workers p \<noteq> []" using assms(4) by (simp add: fifo_idle)
  from assms(1) this show ?thesis
  proof (cases rule: dispatch_refines [where cf = cf and rest = r and ?from = a and info = b])
    case (thrown p' x)
    then show ?thesis
      using assms(1,2) proxy_inv_quiet [OF thrown(2)] by (auto simp: ms defined_run_def sound_proxy_def)
  qed (simp add: ms defined_run_def)
qed

text \<open>Being told of an idle worker never empties the queue, so a job that was polled finds one.\<close>

lemma bored_nonempty:
  "catch_std who (bored cf ms) p = (p', Inr u) \<Longrightarrow> fifo p \<noteq> [] \<Longrightarrow> fifo p' \<noteq> []"
  by (auto simp: catch_std_def bored_def set_node_def Let_def note_event_def
      split: list.splits option.splits if_splits sum.splits exn.splits prod.splits)

lemma defined_turn:
  assumes "proxy_inv p" "sound_proxy cf" "sound_turn f"
  shows "defined_run (forward_turn cf f p)"
proof -
  let ?idle = "case idle_in f of None \<Rightarrow> ret () | Some ms \<Rightarrow> catch_std ''proxy_t'' (bored cf ms)"
  have "defined_run (?idle p1)" if "proxy_inv p1" for p1
    using that assms(2,3)
    by (auto simp: sound_turn_def ret_def defined_run_def [of "(_, Inr _)"] split: option.split
        intro!: defined_catch defined_bored)
  moreover have "fifo p' \<noteq> []" if "?idle p1 = (p', Inr u)" "fifo p1 \<noteq> []" for p1 p' u
    using that by (auto simp: ret_def bored_nonempty split: option.splits)
  moreover have "proxy_inv (note_event Polled p)"
    using assms(1) by simp
  ultimately show ?thesis
    using assms unfolding forward_turn_def Let_def
    by (intro defined_bnd)
      (auto simp: modify_def defined_run_def [of "(_, Inr _)"] ret_def expire_def sound_turn_def note_event_def
        split: option.splits intro!: defined_catch defined_dispatch)
qed

lemma defined_forward:
  "sound_proxy cf \<Longrightarrow> (\<And>f. f \<in> set fs \<Longrightarrow> sound_turn f) \<Longrightarrow> proxy_inv p \<Longrightarrow> defined_run (forward cf fs p)"
proof (induction fs arbitrary: p)
  case (Cons f fs)
  then show ?case by (auto intro!: defined_bnd defined_turn)
qed (simp add: ret_def defined_run_def)

section \<open>First come, first served\<close>

text \<open>
  A pool that keeps its idle members in an \<open>idle_queue\<close> and gives each job to the front. The
  configuration is fixed while the pool is used, and \<open>fair\<close> says what is asked of it.
\<close>

locale idle_pool =
  fixes fair :: "'c \<Rightarrow> bool"
    and inv :: "'s \<Rightarrow> bool"
    and queue :: "'s \<Rightarrow> idle_queue"
    and wire :: "'s \<Rightarrow> 'v list"
    and delivery :: "string \<Rightarrow> 'j \<Rightarrow> 'v list"
    and idle :: "'c \<Rightarrow> string \<Rightarrow> string \<Rightarrow> 's \<Rightarrow> 's"
    and serve_job :: "'c \<Rightarrow> 'j \<Rightarrow> 's \<Rightarrow> 's"
  assumes idle_law: "fair c \<Longrightarrow> inv s \<Longrightarrow> inv (idle c a h s) \<and>
      queue (idle c a h s) = advertise_idle a h (queue s) \<and> wire (idle c a h s) = wire s"
    and job_law: "fair c \<Longrightarrow> inv s \<Longrightarrow> queue s = (a, h) # q \<Longrightarrow> inv (serve_job c j s) \<and>
      queue (serve_job c j s) = q \<and> wire (serve_job c j s) = wire s @ delivery a j"
begin

lemma idle_all:
  assumes "fair c" and "inv s" and "distinct (map fst (queue s @ ws))"
  shows "inv (fold (\<lambda>(a, h). idle c a h) ws s) \<and> queue (fold (\<lambda>(a, h). idle c a h) ws s) = queue s @ ws \<and>
    wire (fold (\<lambda>(a, h). idle c a h) ws s) = wire s"
  using assms(2,3)
proof (induction ws arbitrary: s)
  case (Cons w ws)
  obtain a h where w: "w = (a, h)" by fastforce
  have "a \<notin> fst ` set (queue s)" using Cons.prems(2) by (auto simp: w)
  then have s1: "inv (idle c a h s)" "queue (idle c a h s) = queue s @ [(a, h)]" "wire (idle c a h s) = wire s"
    using idle_law [OF assms(1) Cons.prems(1), of a h] by (simp_all add: advertise_idle_def)
  have "distinct (map fst (queue (idle c a h s) @ ws))" using Cons.prems(2) s1(2) by (simp add: w)
  from Cons.IH [OF s1(1) this] s1(2,3) show ?case by (simp add: w)
qed simp

lemma serve_jobs:
  "fair c \<Longrightarrow> inv s \<Longrightarrow> queue s = ws @ q \<Longrightarrow> length js = length ws \<Longrightarrow>
   inv (fold (serve_job c) js s) \<and> queue (fold (serve_job c) js s) = q \<and>
   wire (fold (serve_job c) js s) = wire s @ concat (map2 delivery (map fst ws) js)"
proof (induction ws arbitrary: js s)
  case (Cons w ws)
  obtain a h where w: "w = (a, h)" by fastforce
  obtain j js' where js: "js = j # js'" using Cons.prems(4) by (cases js) auto
  have "inv (serve_job c j s)" "queue (serve_job c j s) = ws @ q" "wire (serve_job c j s) = wire s @ delivery a j"
    using job_law [OF Cons.prems(1,2), of a h "ws @ q" j] Cons.prems(3) by (simp_all add: w)
  from Cons.IH [OF Cons.prems(1) this(1,2), of js'] this(3) Cons.prems(4) show ?case by (simp add: js w)
qed simp

text \<open>Workers that report in turn are given the next jobs in that turn.\<close>

lemma first_come_first_served:
  assumes "fair c" "inv s" "distinct (map fst (queue s @ ws))" "length js = length (queue s @ ws)"
  shows "queue (fold (serve_job c) js (fold (\<lambda>(a, h). idle c a h) ws s)) = []"
    and "wire (fold (serve_job c) js (fold (\<lambda>(a, h). idle c a h) ws s)) =
      wire s @ concat (map2 delivery (map fst (queue s @ ws)) js)"
  using idle_all [OF assms(1-3)] serve_jobs [OF assms(1), of _ "queue s @ ws" "[]" js] assms(4) by simp_all

end

text \<open>The proxy without a choose function is such a pool.\<close>

definition fair_proxy :: "('i, 'z) proxy_config_scheme \<Rightarrow> bool" where
  "fair_proxy cf \<longleftrightarrow> sound_proxy cf \<and> reliable cf DOWNSTREAM \<and> choose_function cf = None"

definition report :: "('i, 'z) proxy_config_scheme \<Rightarrow> string \<Rightarrow> string \<Rightarrow> 'i proxy \<Rightarrow> 'i proxy" where
  "report cf a h p = fst (bored cf [a, h] p)"

definition request_work :: "('i, 'z) proxy_config_scheme \<Rightarrow> 'i frame \<times> 'i frame \<times> 'i frame list \<Rightarrow> 'i proxy \<Rightarrow> 'i proxy" where
  "request_work cf j p = (case j of (from, info, rest) \<Rightarrow> fst (dispatch_job cf (from # info # rest) p))"

lemma bored_events: "events (fst (bored cf ms p)) = events p"
  by (simp add: bored_def set_node_def Let_def split: list.split option.split)

lemma take_front: "distinct (map fst ((a, h) # q)) \<Longrightarrow> take_worker a ((a, h) # q) = q"
  by (auto simp: take_worker_def filter_id_conv) force

interpretation pool: idle_pool fair_proxy proxy_inv idle_workers events
  "\<lambda>a (from, info, rest). sent_frames DOWNSTREAM (Bytes a # info # rest)" report request_work
proof unfold_locales
  fix c :: "('i, 'z) proxy_config_scheme" and s :: "'i proxy" and a h
  assume "fair_proxy c" "proxy_inv s"
  then obtain p' where "bored c [a, h] s = (p', Inr ())" "proxy_inv p'" "idle_workers p' = advertise_idle a h (idle_workers s)"
    using bored_refines [of s c a h "[]"] by (auto simp: fair_proxy_def sound_proxy_def)
  then show "proxy_inv (report c a h s) \<and> idle_workers (report c a h s) = advertise_idle a h (idle_workers s) \<and>
      events (report c a h s) = events s"
    using bored_events [of c "[a, h]" s] by (simp add: report_def)
next
  fix c :: "('i, 'z) proxy_config_scheme" and s :: "'i proxy" and a h q and j :: "'i frame \<times> 'i frame \<times> 'i frame list"
  assume c: "fair_proxy c" and s: "proxy_inv s" "idle_workers s = (a, h) # q"
  obtain f i r where j: "j = (f, i, r)" by (cases j) auto
  obtain n where "pick c r s = (s, Inr (n, a))" using pick_front [OF s(1) _ s(2)] c by (auto simp: fair_proxy_def)
  then obtain p' where "dispatch_job c (f # i # r) s = (p', Inr ())" "proxy_inv p'"
      "idle_workers p' = take_worker a (idle_workers s)"
      "events p' = events s @ sent_frames DOWNSTREAM (Bytes a # i # r)"
    using dispatch_reliable [OF s(1)] c unfolding fair_proxy_def by blast
  then show "proxy_inv (request_work c j s) \<and> idle_workers (request_work c j s) = q \<and>
      events (request_work c j s) = events s @ (case j of (f, i, r) \<Rightarrow> sent_frames DOWNSTREAM (Bytes a # i # r))"
    using take_front [of a h q] idle_workers_distinct [OF s(1)] s(2) by (simp add: request_work_def j)
qed

section \<open>Properties\<close>

text \<open>A proxy to try the properties on: everything is sent and the application chooses nobody.\<close>

definition plain_proxy :: "'i proxy_config" where
  "plain_proxy = \<lparr>net = (\<lambda>_ _ _ _. Sent), clock = (\<lambda>_. 0), timestamp = (\<lambda>_. []),
     choose_function = None, new_node = (\<lambda>ns. Suc (sum_list ns))\<rparr>"

lemma plain_proxy_fair: "fair_proxy plain_proxy" "sound_proxy plain_proxy" "reliable plain_proxy DOWNSTREAM"
  "choose_function plain_proxy = None"
proof -
  have "Suc (sum_list ns) \<notin> set ns" for ns :: "nat list" using member_le_sum_list [of _ ns] by fastforce
  then show "fair_proxy plain_proxy" "sound_proxy plain_proxy" "reliable plain_proxy DOWNSTREAM"
    "choose_function plain_proxy = None"
    by (simp_all add: fair_proxy_def sound_proxy_def reliable_def plain_proxy_def)
qed

lemma choice_may_not_throw:
  assumes "proxy_inv p" "fifo p \<noteq> []" "\<And>f q ms x. choose_function cf = Some f \<Longrightarrow> f q ms \<noteq> Inl x"
  obtains n a where "pick cf ms p = (p, Inr (n, a))"
  using pick_total [OF assms(1,2), of cf ms] assms(3) by blast

text \<open>
  C9. Whatever idle workers report and whatever requests arrive, with sends that succeed, would block
  or fail and an application that chooses as it likes or throws, the list of heartbeats and the two
  maps of the proxy stay inverse to each other: no iterator it uses is ever dangling.
\<close>

theorem proxy_consistent:
  assumes "sound_proxy cf" and "\<forall>f\<in>set fs. sound_turn f"
  shows "proxy_inv (fst (forward cf fs proxy_new)) \<and> snd (forward cf fs proxy_new) \<noteq> Inl Undefined"
  using defined_forward [OF assms(1), of fs proxy_new] assms(2) proxy_inv_new by (simp add: defined_run_def)

theorem proxy_consistent_witness:
  "proxy_inv (fst (forward plain_proxy
     [\<lparr>idle_in = Some [''w'', ''hb''], job_in = None\<rparr>, \<lparr>idle_in = None, job_in = Some [Bytes ''s'', Info (1 :: nat), Bytes ''x'']\<rparr>] proxy_new))"
  using proxy_consistent [OF plain_proxy_fair(2), of "[\<lparr>idle_in = Some [''w'', ''hb''], job_in = None\<rparr>,
      \<lparr>idle_in = None, job_in = Some [Bytes ''s'', Info (1 :: nat), Bytes ''x'']\<rparr>]"]
  by (simp add: sound_turn_def)

definition idle_after :: "'i forwarded \<Rightarrow> idle_queue \<Rightarrow> idle_queue" where
  "idle_after f q = (case idle_in f of Some (a # h # _) \<Rightarrow> advertise_idle a h q | _ \<Rightarrow> q)"

lemma idle_part:
  assumes "proxy_inv p" "sound_proxy cf" "sound_turn f"
  obtains p' where
    "(case idle_in f of None \<Rightarrow> ret () | Some ms \<Rightarrow> catch_std ''proxy_t'' (bored cf ms)) p = (p', Inr ())"
    "proxy_inv p'" "idle_workers p' = idle_after f (idle_workers p)" "events p' = events p"
proof (cases "idle_in f")
  case None
  then show thesis using assms(1) by (intro that [of p]) (simp_all add: ret_def idle_after_def)
next
  case (Some ms)
  then obtain a h r where ms: "ms = a # h # r" using assms(3) two_frames [of ms] by (auto simp: sound_turn_def)
  obtain p' where "bored cf ms p = (p', Inr ())" "proxy_inv p'" "idle_workers p' = advertise_idle a h (idle_workers p)"
    using bored_refines [OF assms(1), of cf a h r] assms(2) by (auto simp: ms sound_proxy_def)
  then show thesis
    using bored_events [of cf ms p] Some ms by (intro that [of p']) (simp_all add: catch_std_def idle_after_def)
qed

lemma idle_after_nonempty: "q \<noteq> [] \<Longrightarrow> idle_after f q \<noteq> []"
  by (auto simp: idle_after_def advertise_idle_def split: option.split list.split)

lemma forward_turn_spec:
  assumes "proxy_inv p" and "sound_proxy cf" and "sound_turn f" and "reliable cf DOWNSTREAM"
    and "\<And>g q ms x. choose_function cf = Some g \<Longrightarrow> g q ms \<noteq> Inl x"
  shows "\<exists>p'. forward_turn cf f p = (p', Inr ()) \<and> proxy_inv p' \<and>
    (if idle_workers p = [] \<or> job_in f = None
     then idle_workers p' = idle_after f (idle_workers p) \<and> events p' = events p @ [Polled]
     else \<exists>a \<in> fst ` set (idle_after f (idle_workers p)).
            (choose_function cf = None \<longrightarrow> a = fst (hd (idle_after f (idle_workers p)))) \<and>
            idle_workers p' = take_worker a (idle_after f (idle_workers p)) \<and>
            events p' = events p @ Polled # sent_frames DOWNSTREAM (Bytes a # tl (the (job_in f))))"
proof -
  let ?p = "note_event Polled p"
  have p: "idle_workers ?p = idle_workers p" "events ?p = events p @ [Polled]"
    by (simp_all add: idle_workers_def note_event_def)
  obtain p1 where p1: "(case idle_in f of None \<Rightarrow> ret () | Some ms \<Rightarrow> catch_std ''proxy_t'' (bored cf ms)) ?p = (p1, Inr ())"
      "proxy_inv p1" "idle_workers p1 = idle_after f (idle_workers p)" "events p1 = events p @ [Polled]"
    using idle_part [OF _ assms(2,3), of ?p] assms(1) p by (metis proxy_inv_note)
  have run: "forward_turn cf f p = (case (if expire p = 2 then job_in f else None) of
      None \<Rightarrow> ret () | Some messages \<Rightarrow> catch_std ''proxy_t'' (dispatch_job cf messages)) p1"
    using p1(1) by (simp add: forward_turn_def modify_def bnd_def)
  show ?thesis
  proof (cases "idle_workers p = [] \<or> job_in f = None")
    case True
    then have "forward_turn cf f p = (p1, Inr ())" by (auto simp: run expire_def ret_def fifo_idle)
    then show ?thesis using True p1 by auto
  next
    case False
    then obtain ms where j: "job_in f = Some ms" by auto
    then obtain s i r where ms: "ms = s # i # r" using assms(3) two_frames [of ms] by (auto simp: sound_turn_def)
    have q: "idle_workers p1 \<noteq> []" using False p1(3) by (simp add: idle_after_nonempty)
    obtain n a where pk: "pick cf r p1 = (p1, Inr (n, a))"
      using choice_may_not_throw [OF p1(2)] q assms(5) unfolding fifo_idle by blast
    have a: "a \<in> fst ` set (idle_workers p1)"
      using pick_worker(2) [OF p1(2) pk] idle_workers_addresses [OF p1(2)] by auto
    have front: "a = fst (hd (idle_workers p1))" if "choose_function cf = None"
    proof -
      obtain b h q' where bq: "idle_workers p1 = (b, h) # q'" using q by (metis list.exhaust prod.exhaust)
      show ?thesis using pick_front [OF p1(2) that bq, of r] pk bq by auto
    qed
    obtain p' where p': "dispatch_job cf ms p1 = (p', Inr ())" "proxy_inv p'"
        "idle_workers p' = take_worker a (idle_workers p1)"
        "events p' = events p1 @ sent_frames DOWNSTREAM (Bytes a # i # r)"
      using dispatch_reliable [OF p1(2) assms(4) pk] ms by blast
    have "forward_turn cf f p = (p', Inr ())"
      using False p'(1) by (simp add: run expire_def fifo_idle j catch_std_def)
    moreover have "events p' = events p @ Polled # sent_frames DOWNSTREAM (Bytes a # tl (the (job_in f)))"
      using p'(4) p1(4) by (simp add: j ms)
    ultimately show ?thesis
      unfolding if_not_P [OF False] using p'(2,3) a front unfolding p1(3)
      by (intro exI [of _ p'] conjI bexI [of _ a] impI) simp_all
  qed
qed

text \<open>
  C17. A turn of the proxy implements the abstract queue of idle workers: a report appends the worker
  or refreshes its heartbeat, and if a worker was idle before the poll, the request that has arrived
  goes out whole, behind the address of one idle worker, which leaves the queue. Without a choose
  function that worker is the one that has waited longest. With nobody idle, requests are left alone.
\<close>

theorem forward_turn_refines:
  assumes "proxy_inv p" and "sound_proxy cf" and "sound_turn f" and "reliable cf DOWNSTREAM"
    and "\<And>g q ms x. choose_function cf = Some g \<Longrightarrow> g q ms \<noteq> Inl x"
  shows "\<exists>p'. forward_turn cf f p = (p', Inr ()) \<and> proxy_inv p' \<and>
    (if idle_workers p = [] \<or> job_in f = None
     then idle_workers p' = idle_after f (idle_workers p) \<and> events p' = events p @ [Polled]
     else \<exists>a \<in> fst ` set (idle_after f (idle_workers p)).
            (choose_function cf = None \<longrightarrow> a = fst (hd (idle_after f (idle_workers p)))) \<and>
            idle_workers p' = take_worker a (idle_after f (idle_workers p)) \<and>
            events p' = events p @ Polled # sent_frames DOWNSTREAM (Bytes a # tl (the (job_in f))))"
  using assms by (rule forward_turn_spec)

theorem forward_turn_refines_witness:
  "\<exists>p'. forward_turn (plain_proxy :: nat proxy_config) \<lparr>idle_in = Some [''w'', ''hb''], job_in = None\<rparr> proxy_new = (p', Inr ()) \<and>
     proxy_inv p' \<and> idle_workers p' = [(''w'', ''hb'')]"
  using forward_turn_refines [OF proxy_inv_new plain_proxy_fair(2) _ plain_proxy_fair(3),
      of "\<lparr>idle_in = Some [''w'', ''hb''], job_in = None\<rparr>"]
  by (auto simp: sound_turn_def plain_proxy_fair(4) idle_after_def advertise_idle_def)

text \<open>
  Without a choose function work is handed out first come, first served: workers that report in
  some order get the next jobs in that order, each whole, and then nobody is idle.
\<close>

theorem proxy_first_come_first_served:
  assumes "fair_proxy cf" and "distinct (map fst ws)" and "length js = length ws"
  shows "idle_workers (fold (request_work cf) js (fold (\<lambda>(a, h). report cf a h) ws proxy_new)) = [] \<and>
    events (fold (request_work cf) js (fold (\<lambda>(a, h). report cf a h) ws proxy_new)) =
      concat (map2 (\<lambda>a (from, info, rest). sent_frames DOWNSTREAM (Bytes a # info # rest)) (map fst ws) js)"
  using pool.first_come_first_served [OF assms(1) proxy_inv_new, of ws js] assms(2,3) by simp

theorem proxy_first_come_first_served_witness:
  "events (fold (request_work plain_proxy) [(Bytes ''s'', Info (1 :: nat), [Bytes ''x'']), (Bytes ''s'', Info 2, [])]
     (fold (\<lambda>(a, h). report plain_proxy a h) [(''v'', []), (''w'', [])] proxy_new)) =
   sent_frames DOWNSTREAM [Bytes ''v'', Info (1 :: nat), Bytes ''x''] @ sent_frames DOWNSTREAM [Bytes ''w'', Info 2]"
  using proxy_first_come_first_served [OF plain_proxy_fair(1), of "[(''v'', []), (''w'', [])]"
      "[(Bytes ''s'', Info (1 :: nat), [Bytes ''x'']), (Bytes ''s'', Info 2, [])]"]
  by simp

end
