(* ===== verification/Worker.thy ===== *)
theory Worker
  imports Sockets
begin

text \<open>
  \<open>worker_t\<close> of \<open>prime_server.hpp\<close> and \<open>prime_server.cpp\<close>: it advertises itself to a proxy, works on
  the jobs it is given, sends their results on, and drops jobs that have been interrupted. The
  application's work function is a parameter, a finite tree of its calls to the interrupt function;
  what arrives on the interrupt socket and whether the process is shutting down are functions of
  everything that has happened before.
\<close>

section \<open>State\<close>

record 'i worker = "'i io" +
  heart_beat :: string
  job :: u64
  interrupts :: "u64 set"
  interrupt_history :: "u64 list"

record result =
  intermediate :: bool
  result_messages :: "string list"
  result_heart_beat :: string

text \<open>
  A run of the work function: it ends with a result and with what it has made of the request info it
  was given a pointer to, throws, or calls the interrupt function and goes on when that returns.
\<close>

datatype 'i work = Done result 'i | Throws exn | Bail "'i work"

record 'i worker_config = "'i world" +
  info_key :: "'i \<Rightarrow> u64"
  work_function :: "'i frame list \<Rightarrow> 'i \<Rightarrow> 'i work"
  cleanup_function :: "('i event list \<Rightarrow> exn option) option"
  inbox :: "'i event list \<Rightarrow> std_error + u64 list"
  shutting :: "'i event list \<Rightarrow> bool"

type_synonym ('i, 'a) working = "('i worker, exn, 'a) action"

definition NO_JOB :: u64 where
  "NO_JOB = - 1"

definition worker_new :: "string \<Rightarrow> 'i worker" where
  "worker_new hb = \<lparr>events = [], heart_beat = hb, job = NO_JOB, interrupts = {}, interrupt_history = []\<rparr>"

section \<open>Operations\<close>

text \<open>Each look at the outside world is an event, so that the next may see something else.\<close>

definition shutting_down :: "('i, 'z) worker_config_scheme \<Rightarrow> ('i, bool) working" where
  "shutting_down cf s = (note_event Polled s, Inr (shutting cf (events s)))"

definition recv_interrupts :: "('i, 'z) worker_config_scheme \<Rightarrow> ('i, u64 list) working" where
  "recv_interrupts cf s =
     (note_event Polled s, case inbox cf (events s) of Inl e \<Rightarrow> Inl (Std e) | Inr ms \<Rightarrow> Inr ms)"

definition INTERRUPT_AGE_CUTOFF :: u32 where
  "INTERRUPT_AGE_CUTOFF = 600"

definition insert_interrupt :: "u64 \<Rightarrow> 'i worker \<Rightarrow> 'i worker" where
  "insert_interrupt k s =
     s\<lparr>interrupts := insert k (interrupts s), interrupt_history := interrupt_history s @ [k]\<rparr>"

text \<open>\<open>interrupt_t(job & 0xFFFFFFFF)\<close>: the id is the lower half of the key.\<close>

definition interrupt :: "('i, 'a) working" where
  "interrupt s = raise (Interrupted (ucast (job s))) s"

definition handle_interrupt :: "('i, 'z) worker_config_scheme \<Rightarrow> bool \<Rightarrow> ('i, unit) working" where
  "handle_interrupt cf force_check =
     bnd (shutting_down cf) (\<lambda>down.
       if down then interrupt
       else bnd (recv_interrupts cf) (\<lambda>messages.
         bnd (modify (fold insert_interrupt messages)) (\<lambda>_ s.
           if (force_check \<or> messages \<noteq> []) \<and> job s \<in> interrupts s then interrupt s else ret () s)))"

definition advertise :: "('i, 'z) worker_config_scheme \<Rightarrow> ('i, unit) working" where
  "advertise cf s = catch_std ''worker_t'' (send cf UPSTREAM (Bytes (heart_beat s)) False) s"

fun run_work :: "('i, 'z) worker_config_scheme \<Rightarrow> 'i work \<Rightarrow> ('i, result \<times> 'i) working" where
  "run_work cf (Done r i) = ret (r, i)"
| "run_work cf (Throws x) = raise x"
| "run_work cf (Bail w) = bnd (handle_interrupt cf False) (\<lambda>_. run_work cf w)"

text \<open>\<open>send_all\<close> of an intermediate result without messages takes the address of a message that is not there.\<close>

definition send_intermediate :: "('i, 'z) worker_config_scheme \<Rightarrow> 'i \<Rightarrow> string list \<Rightarrow> ('i, unit) working" where
  "send_intermediate cf info messages =
     bnd (send_headed cf DOWNSTREAM (Info info) (map Bytes messages)) (\<lambda>ok.
       if ok then ret () else complain ''Worker failed to forward intermediate result'')"

definition send_final :: "('i, 'z) worker_config_scheme \<Rightarrow> 'i \<Rightarrow> string list \<Rightarrow> ('i, unit) working" where
  "send_final cf info messages =
     (case messages of
        [] \<Rightarrow> complain ''At least one result message is required for the loopback''
      | m # rest \<Rightarrow>
          bnd (if rest \<noteq> [] then complain ''additional parts being dropped'' else ret ()) (\<lambda>_.
          bnd (if m = [] then complain ''Sending empty messages will disconnect the client'' else ret ()) (\<lambda>_.
          bnd (send_headed cf LOOPBACK (Info info) [Bytes m]) (\<lambda>ok.
            if ok then ret () else complain ''Worker failed to forward final result''))))"

definition do_job :: "('i, 'z) worker_config_scheme \<Rightarrow> 'i frame list \<Rightarrow> ('i, unit) working" where
  "do_job cf messages =
     (case messages of
        Info request_info # rest \<Rightarrow>
          bnd (modify (\<lambda>s. s\<lparr>job := info_key cf request_info\<rparr>)) (\<lambda>_.
          bnd (handle_interrupt cf True) (\<lambda>_.
          bnd (run_work cf (work_function cf rest request_info)) (\<lambda>(r, info).
          bnd (modify (\<lambda>s. s\<lparr>heart_beat := result_heart_beat r\<rparr>)) (\<lambda>_.
            if intermediate r then send_intermediate cf info (result_messages r)
            else send_final cf info (result_messages r)))))
      | _ \<Rightarrow> raise Undefined)"

text \<open>\<open>catch (const interrupt_t& i)\<close>, the clause before the one for all other standard exceptions.\<close>

definition catch_interrupt :: "('i, unit) working \<Rightarrow> ('i, unit) working" where
  "catch_interrupt m s =
     (case m s of
        (s', Inl (Interrupted n)) \<Rightarrow>
          (note_event (Complained (''Request '' @ to_dec (unat n) @ '' was interrupted'')) s', Inr ())
      | (s', r) \<Rightarrow> (s', r))"

definition clean_up :: "('i, 'z) worker_config_scheme \<Rightarrow> ('i, unit) working" where
  "clean_up cf =
     catch_std ''worker_t''
       (\<lambda>s. case cleanup_function cf of
          None \<Rightarrow> ret () s
        | Some f \<Rightarrow> (case f (events s) of None \<Rightarrow> ret () s | Some x \<Rightarrow> raise x s))"

definition take_job :: "('i, 'z) worker_config_scheme \<Rightarrow> 'i frame list \<Rightarrow> ('i, unit) working" where
  "take_job cf messages =
     bnd (catch_std ''worker_t'' (catch_interrupt (do_job cf messages))) (\<lambda>_.
     bnd (modify (\<lambda>s. s\<lparr>job := NO_JOB\<rparr>)) (\<lambda>_. clean_up cf))"

text \<open>
  Culling interrupts that are older than the cutoff. The bound is computed in 32 bits and compared
  with the upper half of the 64-bit key.
\<close>

fun cull_loop :: "u32 \<Rightarrow> u64 list \<Rightarrow> u64 set \<Rightarrow> u64 list \<times> u64 set" where
  "cull_loop t [] S = ([], S)"
| "cull_loop t (k # ks) S = (if drop_bit 32 k < (ucast t :: u64) then cull_loop t ks (S - {k}) else (k # ks, S))"

definition cull :: "('i, 'z) worker_config_scheme \<Rightarrow> ('i, unit) working" where
  "cull cf =
     modify (\<lambda>s.
       let drop_dead = stamp (clock cf (events s)) - INTERRUPT_AGE_CUTOFF;
           (history, left) = cull_loop drop_dead (interrupt_history s) (interrupts s)
       in s\<lparr>interrupt_history := history, interrupts := left\<rparr>)"

text \<open>One turn of \<open>work\<close> on what the poll found; the result says whether the loop goes on.\<close>

record 'i turn =
  work_in :: "'i frame list option"
  interrupt_in :: bool

definition hear_interrupts :: "('i, 'z) worker_config_scheme \<Rightarrow> ('i, unit) working" where
  "hear_interrupts cf = bnd (handle_interrupt cf False) (\<lambda>_. cull cf)"

definition turn_tail :: "('i, 'z) worker_config_scheme \<Rightarrow> 'i turn \<Rightarrow> ('i, bool) working" where
  "turn_tail cf t =
     bnd (shutting_down cf) (\<lambda>down.
       if down then ret False
       else
         bnd (if interrupt_in t then hear_interrupts cf else ret ()) (\<lambda>_.
         bnd (advertise cf) (\<lambda>_. ret True)))"

definition work_turn :: "('i, 'z) worker_config_scheme \<Rightarrow> 'i turn \<Rightarrow> ('i, bool) working" where
  "work_turn cf t =
     bnd (modify (note_event Polled)) (\<lambda>_.
     bnd (case work_in t of None \<Rightarrow> ret () | Some messages \<Rightarrow> take_job cf messages) (\<lambda>_.
     turn_tail cf t))"

fun work_loop :: "('i, 'z) worker_config_scheme \<Rightarrow> 'i turn list \<Rightarrow> ('i, unit) working" where
  "work_loop cf [] = ret ()"
| "work_loop cf (t # ts) =
     bnd (shutting_down cf) (\<lambda>down.
       if down then ret ()
       else bnd (work_turn cf t) (\<lambda>go. if go then work_loop cf ts else ret ()))"

definition work :: "('i, 'z) worker_config_scheme \<Rightarrow> 'i turn list \<Rightarrow> ('i, unit) working" where
  "work cf ts = bnd (advertise cf) (\<lambda>_. work_loop cf ts)"

section \<open>Interrupts\<close>

lemma fold_insert_interrupt:
  "fold insert_interrupt ms s =
     s\<lparr>interrupts := interrupts s \<union> set ms, interrupt_history := interrupt_history s @ ms\<rparr>"
  by (induction ms arbitrary: s) (simp_all add: insert_interrupt_def insert_commute)

lemma note_worker [simp]:
  "heart_beat (note_event v s) = heart_beat s" "job (note_event v s) = job s"
  "interrupts (note_event v s) = interrupts s" "interrupt_history (note_event v s) = interrupt_history s"
  "events (note_event v s) = events s @ [v]"
  by (simp_all add: note_event_def)

lemma keeps_shutting_down: "hushed I \<Longrightarrow> keeps I (shutting_down cf)"
  by (simp add: keeps_def shutting_down_def hushed_def)

lemma keeps_interrupt: "keeps I interrupt"
  by (simp add: keeps_def interrupt_def raise_def)

lemma keeps_recv_interrupts: "hushed I \<Longrightarrow> keeps I (recv_interrupts cf)"
  by (simp add: keeps_def recv_interrupts_def hushed_def)

text \<open>
  An invariant survives \<open>handle_interrupt\<close> if it survives what the socket may deliver; everything
  else the worker does with its own state is simpler.
\<close>

definition delivers :: "('i, 'z) worker_config_scheme \<Rightarrow> ('i worker \<Rightarrow> bool) \<Rightarrow> bool" where
  "delivers cf I \<longleftrightarrow> hushed I \<and>
     (\<forall>s ms. I s \<longrightarrow> inbox cf (events s) = Inr ms \<longrightarrow> I (fold insert_interrupt ms (note_event Polled s)))"

lemma keeps_handle_interrupt: "delivers cf I \<Longrightarrow> keeps I (handle_interrupt cf b)"
  by (auto simp: keeps_def handle_interrupt_def bnd_def shutting_down_def recv_interrupts_def modify_def
      interrupt_def raise_def ret_def delivers_def hushed_def split: sum.split)

lemma keeps_run_work: "delivers cf I \<Longrightarrow> keeps I (run_work cf w)"
  by (induction w) (auto intro!: keeps_bnd keeps_handle_interrupt)

lemma keeps_advertise: "hushed I \<Longrightarrow> tolerates UPSTREAM I \<Longrightarrow> keeps I (advertise cf)"
  using keeps_catch_std [OF _ keeps_send] by (fastforce simp: keeps_def advertise_def)

lemma keeps_send_intermediate: "hushed I \<Longrightarrow> tolerates DOWNSTREAM I \<Longrightarrow> keeps I (send_intermediate cf i ms)"
  unfolding send_intermediate_def by (auto intro!: keeps_bnd keeps_send_headed keeps_complain)

lemma keeps_send_final: "hushed I \<Longrightarrow> tolerates LOOPBACK I \<Longrightarrow> keeps I (send_final cf i ms)"
  unfolding send_final_def by (auto intro!: keeps_bnd keeps_send_headed keeps_complain split: list.split)

lemma keeps_do_job:
  assumes "delivers cf I" "tolerates DOWNSTREAM I" "tolerates LOOPBACK I"
    and "\<And>s j. I s \<Longrightarrow> I (s\<lparr>job := j\<rparr>)" and "\<And>s h. I s \<Longrightarrow> I (s\<lparr>heart_beat := h\<rparr>)"
  shows "keeps I (do_job cf ms)"
proof -
  have "hushed I" using assms(1) by (simp add: delivers_def)
  with assms show ?thesis
    unfolding do_job_def
    by (auto intro!: keeps_bnd keeps_modify keeps_handle_interrupt keeps_run_work keeps_send_intermediate keeps_send_final
        split: list.split frame.split)
qed

lemma keeps_catch_interrupt: "hushed I \<Longrightarrow> keeps I m \<Longrightarrow> keeps I (catch_interrupt m)"
  by (fastforce simp: keeps_def catch_interrupt_def hushed_def split: prod.split sum.split exn.split)

lemma keeps_clean_up: "hushed I \<Longrightarrow> keeps I (clean_up cf)"
  unfolding clean_up_def
  by (rule keeps_catch_std) (auto simp: keeps_def ret_def raise_def split: option.split)

lemma keeps_take_job:
  assumes "hushed I" "\<And>s j. I s \<Longrightarrow> I (s\<lparr>job := j\<rparr>)" "keeps I (do_job cf ms)"
  shows "keeps I (take_job cf ms)"
  unfolding take_job_def
  by (intro keeps_bnd keeps_catch_std keeps_catch_interrupt keeps_modify keeps_clean_up assms)

text \<open>What is left after culling is a suffix of the history, and what the set loses was culled.\<close>

lemma cull_loop_spec:
  "cull_loop t ks S = (let old = takeWhile (\<lambda>k. drop_bit 32 k < (ucast t :: u64)) ks in
     (drop (length old) ks, S - set old))"
  by (induction ks arbitrary: S) (auto simp: Let_def)

lemma keeps_turn_tail:
  assumes "delivers cf I" "tolerates UPSTREAM I" "keeps I (cull cf)"
  shows "keeps I (turn_tail cf t)"
proof -
  have "hushed I" using assms(1) by (simp add: delivers_def)
  then show ?thesis
    unfolding turn_tail_def hear_interrupts_def
    using assms by (auto intro!: keeps_bnd keeps_shutting_down keeps_handle_interrupt keeps_advertise)
qed

lemma keeps_work_turn:
  assumes "delivers cf I" "tolerates UPSTREAM I" "\<And>s j. I s \<Longrightarrow> I (s\<lparr>job := j\<rparr>)"
    and "\<And>ms. work_in t = Some ms \<Longrightarrow> keeps I (do_job cf ms)" and "keeps I (cull cf)"
  shows "keeps I (work_turn cf t)"
proof -
  have h: "hushed I" using assms(1) by (simp add: delivers_def)
  have n: "keeps I (modify (note_event Polled))" using h by (simp add: keeps_def modify_def hushed_def)
  show ?thesis
    unfolding work_turn_def
    using assms h n by (auto intro!: keeps_bnd keeps_take_job keeps_turn_tail split: option.split)
qed

lemma keeps_work:
  assumes "hushed I" "tolerates UPSTREAM I" "\<And>t. t \<in> set ts \<Longrightarrow> keeps I (work_turn cf t)"
  shows "keeps I (work cf ts)"
proof -
  have "keeps I (work_loop cf ts)"
    using assms(3) by (induction ts) (auto intro!: keeps_bnd keeps_shutting_down assms(1))
  then show ?thesis unfolding work_def by (intro keeps_bnd keeps_advertise assms)
qed

section \<open>Quiet runs\<close>

text \<open>
  The world is calm for some keys: nobody interrupts them and the process is not shutting down. Then
  looking for interrupts has no effect but on the record of other keys.
\<close>

definition calm :: "('i, 'z) worker_config_scheme \<Rightarrow> u64 set \<Rightarrow> bool" where
  "calm cf K \<longleftrightarrow> (\<forall>vs. \<not> shutting cf vs \<and> (\<exists>ms. inbox cf vs = Inr ms \<and> K \<inter> set ms = {}))"

lemma calm_inbox: "calm cf K \<Longrightarrow> inbox cf vs = Inr ms \<Longrightarrow> K \<inter> set ms = {}"
  unfolding calm_def by (metis sum.inject(2))

definition aside :: "u64 set \<Rightarrow> 'i worker \<Rightarrow> 'i worker \<Rightarrow> bool" where
  "aside K s s' \<longleftrightarrow> job s' = job s \<and> heart_beat s' = heart_beat s \<and> K \<inter> interrupts s' \<subseteq> interrupts s \<and>
     (\<forall>sk. attempts sk (events s') = attempts sk (events s))"

lemma aside_refl [simp]: "aside K s s"
  by (simp add: aside_def)

lemma aside_trans: "aside K s s1 \<Longrightarrow> aside K s1 s2 \<Longrightarrow> aside K s s2"
  unfolding aside_def by (simp, blast)

lemma aside_note [simp]: "\<not> is_attempt v \<Longrightarrow> aside K s (note_event v s)"
  by (cases v) (simp_all add: aside_def)

lemma handle_interrupt_calm:
  assumes "calm cf K" "job s \<in> K" "job s \<notin> interrupts s"
  shows "\<exists>s'. handle_interrupt cf b s = (s', Inr ()) \<and> aside K s s'"
proof -
  obtain ms where ms: "inbox cf (events s @ [Polled]) = Inr ms" "K \<inter> set ms = {}" and up: "\<not> shutting cf (events s)"
    using assms(1) unfolding calm_def by blast
  let ?s = "fold insert_interrupt ms (note_event Polled (note_event Polled s))"
  have "job ?s \<notin> interrupts ?s" using assms(2,3) ms(2) by (auto simp: fold_insert_interrupt)
  then have "handle_interrupt cf b s = (?s, Inr ())"
    using ms(1) up by (simp add: handle_interrupt_def bnd_def shutting_down_def recv_interrupts_def modify_def ret_def)
  moreover have "aside K s ?s" using ms(2) by (auto simp: aside_def fold_insert_interrupt)
  ultimately show ?thesis by blast
qed

text \<open>What the work function comes to if the interrupt function always returns.\<close>

fun work_outcome :: "'i work \<Rightarrow> exn + (result \<times> 'i)" where
  "work_outcome (Done r i) = Inr (r, i)"
| "work_outcome (Throws x) = Inl x"
| "work_outcome (Bail w) = work_outcome w"

lemma run_work_calm:
  assumes "calm cf K" "job s \<in> K" "job s \<notin> interrupts s"
  shows "\<exists>s'. run_work cf w s = (s', work_outcome w) \<and> aside K s s'"
  using assms(2,3)
proof (induction w arbitrary: s)
  case (Bail w)
  obtain s1 where s1: "handle_interrupt cf False s = (s1, Inr ())" "aside K s s1"
    using handle_interrupt_calm [OF assms(1) Bail.prems] by blast
  then have "job s1 \<in> K" "job s1 \<notin> interrupts s1" using Bail.prems by (auto simp: aside_def)
  from Bail.IH [OF this] s1 show ?case by (auto simp: bnd_def intro: aside_trans)
qed (simp_all add: ret_def raise_def)

section \<open>Ending with a standard exception at worst\<close>

definition mild :: "('i worker, exn, 'a) action \<Rightarrow> bool" where
  "mild m \<longleftrightarrow> (\<forall>s. snd (m s) \<noteq> Inl Foreign \<and> snd (m s) \<noteq> Inl Undefined)"

lemma mild_bnd: "mild m \<Longrightarrow> (\<And>x. mild (f x)) \<Longrightarrow> mild (bnd m f)"
proof -
  assume m: "mild m" and f: "\<And>x. mild (f x)"
  have "snd (bnd m f s) \<noteq> Inl x" if "x = Foreign \<or> x = Undefined" for s x
    using m f that unfolding mild_def bnd_def by (auto split: prod.split sum.split) (metis snd_conv)+
  then show ?thesis by (simp add: mild_def)
qed

lemma mild_tame: "tame m \<Longrightarrow> mild m"
  unfolding mild_def tame_def by (metis Inl_inject exn.distinct(3,5) prod.exhaust_sel sum.distinct(1))

lemma mild_simps [simp]: "mild (ret x)" "mild (modify f)" "mild interrupt" "mild (shutting_down cf)" "mild (complain msg)"
  "mild (raise e) \<longleftrightarrow> e \<noteq> Foreign \<and> e \<noteq> Undefined"
  by (simp_all add: mild_def ret_def modify_def interrupt_def raise_def shutting_down_def complain_def)

lemma mild_recv [simp]: "mild (recv_interrupts cf)"
  by (simp add: mild_def recv_interrupts_def split: sum.split)

lemma mild_handle_interrupt [simp]: "mild (handle_interrupt cf b)"
proof -
  have "mild (\<lambda>s. if c s then interrupt s else ret () s)" for c :: "'i worker \<Rightarrow> bool"
    by (simp add: mild_def interrupt_def raise_def ret_def)
  then show ?thesis unfolding handle_interrupt_def by (auto intro!: mild_bnd)
qed

fun sane_work :: "'i work \<Rightarrow> bool" where
  "sane_work (Done r i) = (intermediate r \<longrightarrow> result_messages r \<noteq> [])"
| "sane_work (Throws x) = (x \<noteq> Foreign \<and> x \<noteq> Undefined)"
| "sane_work (Bail w) = sane_work w"

lemma mild_send_intermediate: "ms \<noteq> [] \<Longrightarrow> mild (send_intermediate cf i ms)"
  unfolding send_intermediate_def by (intro mild_bnd mild_tame [OF tame_send_headed]) auto

lemma mild_send_final: "mild (send_final cf i ms)"
  unfolding send_final_def
  by (cases ms) (auto intro!: mild_bnd mild_tame [OF tame_send_headed])

text \<open>A bound on results would be lost in \<open>mild_bnd\<close>, so the work function is followed to its end.\<close>

lemma mild_run_work:
  assumes "sane_work w" and "\<And>r i. (intermediate r \<longrightarrow> result_messages r \<noteq> []) \<Longrightarrow> mild (f (r, i))"
  shows "mild (bnd (run_work cf w) f)"
  using assms(1)
proof (induction w)
  case (Done r i)
  then show ?case using assms(2) [of r i] by (simp add: bnd_def ret_def mild_def)
next
  case (Bail w)
  then show ?case by (simp add: bnd_assoc) (rule mild_bnd, simp_all)
qed (simp add: bnd_def raise_def mild_def)

lemma mild_do_job: "sane_work (work_function cf rest i) \<Longrightarrow> mild (do_job cf (Info i # rest))"
  unfolding do_job_def
  by (auto intro!: mild_bnd [of "modify _"] mild_bnd [of "handle_interrupt _ _"] mild_run_work
      mild_send_intermediate mild_send_final)

lemma catch_all_mild: "mild m \<Longrightarrow> \<exists>s'. catch_std who (catch_interrupt m) s = (s', Inr ())"
proof -
  assume m: "mild m"
  obtain s1 q where "m s = (s1, q)" by fastforce
  then show ?thesis
    using m unfolding mild_def
    by (cases q; cases "projl q") (auto simp: catch_std_def catch_interrupt_def dest: spec [of _ s])
qed

definition sane_cleanup :: "('i, 'z) worker_config_scheme \<Rightarrow> bool" where
  "sane_cleanup cf \<longleftrightarrow> (\<forall>f vs x. cleanup_function cf = Some f \<longrightarrow> f vs = Some x \<longrightarrow> x \<noteq> Foreign \<and> x \<noteq> Undefined)"

lemma clean_up_ends:
  assumes "sane_cleanup cf"
  shows "\<exists>s'. clean_up cf s = (s', Inr ()) \<and> aside K s s'"
  using assms
  by (auto simp: clean_up_def catch_std_def sane_cleanup_def ret_def raise_def split: option.split exn.split)

section \<open>One turn\<close>

lemma at_bnd: "I (fst (m s)) \<Longrightarrow> (\<And>x. keeps I (f x)) \<Longrightarrow> I (fst (bnd m f s))"
  by (auto simp: keeps_def bnd_def split: prod.split sum.split)

lemma work_turn_job:
  "work_in t = Some ms \<Longrightarrow> work_turn cf t s = bnd (take_job cf ms) (\<lambda>_. turn_tail cf t) (note_event Polled s)"
  "work_in t = None \<Longrightarrow> work_turn cf t s = turn_tail cf t (note_event Polled s)"
  by (simp_all add: work_turn_def bnd_def modify_def ret_def)

lemma advertise_ends:
  "\<exists>s' q. advertise cf s = (s', Inr ()) \<and> heart_beat s' = heart_beat s \<and> interrupts s' = interrupts s \<and> (reliable cf UPSTREAM \<longrightarrow> q = Sent) \<and>
     (\<forall>sk. attempts sk (events s') = attempts sk (events s) @ (if sk = UPSTREAM then [(Bytes (heart_beat s), False, q)] else []))"
  by (auto simp: advertise_def catch_std_def send_def Let_def reliable_def split: send_result.split)
    (metis send_result.distinct(1,3))+

lemma hear_interrupts_calm:
  assumes "calm cf K" "job s \<in> K" "job s \<notin> interrupts s"
  shows "\<exists>s'. hear_interrupts cf s = (s', Inr ()) \<and> aside K s s'"
proof -
  obtain s1 where s1: "handle_interrupt cf False s = (s1, Inr ())" "aside K s s1"
    using handle_interrupt_calm [OF assms] by blast
  moreover have "\<exists>s2. cull cf s1 = (s2, Inr ()) \<and> aside K s1 s2"
    by (auto simp: cull_def modify_def aside_def Let_def cull_loop_spec)
  ultimately show ?thesis by (auto simp: hear_interrupts_def bnd_def intro: aside_trans)
qed

lemma turn_tail_calm:
  assumes "calm cf K" "job s \<in> K" "job s \<notin> interrupts s"
  shows "\<exists>s' q. turn_tail cf t s = (s', Inr True) \<and> heart_beat s' = heart_beat s \<and> K \<inter> interrupts s' \<subseteq> interrupts s \<and>
     (reliable cf UPSTREAM \<longrightarrow> q = Sent) \<and>
     (\<forall>sk. attempts sk (events s') = attempts sk (events s) @ (if sk = UPSTREAM then [(Bytes (heart_beat s), False, q)] else []))"
proof -
  let ?s = "note_event Polled s"
  have j: "job ?s \<in> K" "job ?s \<notin> interrupts ?s" using assms(2,3) by simp_all
  obtain s1 where s1: "(if interrupt_in t then hear_interrupts cf else ret ()) ?s = (s1, Inr ())" "aside K ?s s1"
    using hear_interrupts_calm [OF assms(1) j] by (cases "interrupt_in t") (auto simp: ret_def)
  have "turn_tail cf t s = bnd (advertise cf) (\<lambda>_. ret True) s1"
    using s1(1) assms(1) by (simp add: turn_tail_def shutting_down_def bnd_def calm_def)
  moreover obtain s' q where "advertise cf s1 = (s', Inr ())" "heart_beat s' = heart_beat s1" "interrupts s' = interrupts s1"
      "reliable cf UPSTREAM \<longrightarrow> q = Sent"
      "\<forall>sk. attempts sk (events s') = attempts sk (events s1) @ (if sk = UPSTREAM then [(Bytes (heart_beat s1), False, q)] else [])"
    using advertise_ends [of cf s1] by blast
  ultimately show ?thesis using s1(2) by (auto simp: aside_def bnd_def ret_def)
qed

section \<open>Properties\<close>

text \<open>A worker to try the properties on: it checks for interrupts once and answers.\<close>

definition plain_worker :: "u64 worker_config" where
  "plain_worker = \<lparr>net = (\<lambda>_ _ _ _. Sent), clock = (\<lambda>_. 0), timestamp = (\<lambda>_. []), info_key = (\<lambda>i. i),
     work_function = (\<lambda>ms i. Bail (Done \<lparr>intermediate = False, result_messages = [''ok''], result_heart_beat = ''hb''\<rparr> i)),
     cleanup_function = None, inbox = (\<lambda>_. Inr []), shutting = (\<lambda>_. False)\<rparr>"

lemma plain_worker_calm:
  "calm plain_worker K" "sane_cleanup plain_worker" "reliable plain_worker sk" "info_key plain_worker = (\<lambda>i. i)"
  "sane_work (work_function plain_worker ms i)"
  "work_outcome (work_function plain_worker ms i) =
     Inr (\<lparr>intermediate = False, result_messages = [''ok''], result_heart_beat = ''hb''\<rparr>, i)"
  by (simp_all add: plain_worker_def calm_def sane_cleanup_def reliable_def)

text \<open>The keys the interrupt socket has delivered up to now.\<close>

definition heard :: "('i, 'z) worker_config_scheme \<Rightarrow> 'i event list \<Rightarrow> u64 set" where
  "heard cf vs = (\<Union>n\<le>length vs. case inbox cf (take n vs) of Inl _ \<Rightarrow> {} | Inr ms \<Rightarrow> set ms)"

lemma heard_grows: "k \<in> heard cf vs \<Longrightarrow> k \<in> heard cf (vs @ [v])"
proof -
  assume "k \<in> heard cf vs"
  then obtain n where "n \<le> length vs" "k \<in> (case inbox cf (take n (vs @ [v])) of Inl _ \<Rightarrow> {} | Inr ms \<Rightarrow> set ms)"
    by (auto simp: heard_def)
  then show ?thesis unfolding heard_def by (intro UN_I [of n]) simp_all
qed

lemma heard_now: "inbox cf vs = Inr ms \<Longrightarrow> k \<in> set ms \<Longrightarrow> k \<in> heard cf vs"
  by (auto simp: heard_def intro!: bexI [of _ "length vs"])

definition backed :: "('i, 'z) worker_config_scheme \<Rightarrow> 'i worker \<Rightarrow> bool" where
  "backed cf s \<longleftrightarrow> interrupts s \<subseteq> set (interrupt_history s) \<and> set (interrupt_history s) \<subseteq> heard cf (events s)"

lemma backed_note: "backed cf s \<Longrightarrow> backed cf (note_event v s)"
  using heard_grows by (fastforce simp: backed_def)

lemma backed_delivers: "delivers cf (backed cf)"
  unfolding delivers_def hushed_def
proof (intro conjI allI impI backed_note)
  fix s ms
  assume "backed cf s" "inbox cf (events s) = Inr ms"
  moreover have "k \<in> heard cf (events s @ [Polled])" if "k \<in> set ms" for k
    using heard_grows [OF heard_now [OF calculation(2) that]] .
  ultimately show "backed cf (fold insert_interrupt ms (note_event Polled s))"
    using heard_grows by (fastforce simp: backed_def fold_insert_interrupt)
qed

lemma backed_cull: "keeps (backed cf) (cull cf)"
proof (unfold cull_def, rule keeps_modify)
  fix s
  assume b: "backed cf s"
  let ?old = "takeWhile (\<lambda>k. drop_bit 32 k < (ucast (stamp (clock cf (events s)) - INTERRUPT_AGE_CUTOFF) :: u64)) (interrupt_history s)"
  have "interrupt_history s = ?old @ drop (length ?old) (interrupt_history s)"
    by (metis dropWhile_eq_drop takeWhile_dropWhile_id)
  then have "set (interrupt_history s) = set ?old \<union> set (drop (length ?old) (interrupt_history s))"
    by (metis set_append)
  then show "backed cf (let drop_dead = stamp (clock cf (events s)) - INTERRUPT_AGE_CUTOFF;
      (history, left) = cull_loop drop_dead (interrupt_history s) (interrupts s)
      in s\<lparr>interrupt_history := history, interrupts := left\<rparr>)"
    using b by (auto simp: backed_def Let_def cull_loop_spec)
qed

text \<open>
  The worker's record of interrupts is honest in every run: each key it would drop a job for is in
  the history that culling works off, and the history holds only keys that the server has published.
\<close>

theorem interrupts_backed:
  "interrupts (fst (work cf ts (worker_new hb))) \<subseteq> set (interrupt_history (fst (work cf ts (worker_new hb)))) \<and>
   set (interrupt_history (fst (work cf ts (worker_new hb)))) \<subseteq> heard cf (events (fst (work cf ts (worker_new hb))))"
proof -
  have t: "tolerates sk (backed cf)" for sk using backed_note by (auto simp: tolerates_def)
  have h: "hushed (backed cf)" using backed_note by (auto simp: hushed_def)
  have "keeps (backed cf) (work_turn cf u)" for u
    by (intro keeps_work_turn keeps_do_job backed_delivers backed_cull t) (auto simp: backed_def)
  then have "keeps (backed cf) (work cf ts)" by (intro keeps_work h t)
  moreover have "backed cf (worker_new hb)" by (simp add: backed_def worker_new_def)
  ultimately show ?thesis unfolding keeps_def backed_def by blast
qed

lemma do_job_interrupted:
  assumes "info_key cf i \<in> interrupts s \<or> (\<exists>ms. inbox cf (events s @ [Polled]) = Inr ms \<and> info_key cf i \<in> set ms)"
  shows "\<exists>s' x. do_job cf (Info i # rest) s = (s', Inl x) \<and> heart_beat s' = heart_beat s \<and>
    attempts sk (events s') = attempts sk (events s)"
  using assms
  by (auto simp: do_job_def handle_interrupt_def bnd_def modify_def shutting_down_def recv_interrupts_def
      interrupt_def raise_def fold_insert_interrupt split: sum.split)



lemma take_job_ends:
  assumes "mild (do_job cf ms)" "sane_cleanup cf"
  shows "\<exists>s'. take_job cf ms s = (s', Inr ()) \<and> job s' = NO_JOB"
proof -
  obtain s1 where s1: "catch_std ''worker_t'' (catch_interrupt (do_job cf ms)) s = (s1, Inr ())"
    using catch_all_mild [OF assms(1)] by blast
  obtain s2 where "clean_up cf (s1\<lparr>job := NO_JOB\<rparr>) = (s2, Inr ())" "aside {} (s1\<lparr>job := NO_JOB\<rparr>) s2"
    using clean_up_ends [OF assms(2)] by blast
  then show ?thesis using s1 by (auto simp: take_job_def bnd_def modify_def aside_def)
qed



lemma send_result_reliable:
  assumes "reliable cf LOOPBACK" "reliable cf DOWNSTREAM" "result_messages r \<noteq> []"
  shows "\<exists>s'. (if intermediate r then send_intermediate cf i (result_messages r) else send_final cf i (result_messages r)) s =
      (s', Inr ()) \<and> heart_beat s' = heart_beat s \<and> interrupts s' = interrupts s \<and>
    (\<forall>sk. attempts sk (events s') = attempts sk (events s) @
      attempts sk (if intermediate r then sent_frames DOWNSTREAM (Info i # map Bytes (result_messages r))
                   else sent_frames LOOPBACK [Info i, Bytes (hd (result_messages r))]))"
proof (cases "intermediate r")
  case True
  then show ?thesis
    using assms by (simp add: send_intermediate_def bnd_def send_headed_reliable ret_def)
next
  case False
  obtain m rest where "result_messages r = m # rest" using assms(3) by (cases "result_messages r") auto
  then show ?thesis
    using assms False
    by (auto simp: send_final_def bnd_def send_headed_reliable ret_def complain_def modify_def note_event_def)
qed

lemma work_turn_delivers_keys:
  assumes "calm cf K" and "{NO_JOB, info_key cf i} \<subseteq> K" and "K \<inter> interrupts s = {}"
    and "sane_cleanup cf" and "reliable cf LOOPBACK" and "reliable cf DOWNSTREAM" and "reliable cf UPSTREAM"
    and "work_in t = Some (Info i # rest)" and "work_outcome (work_function cf rest i) = Inr (r, i')"
    and "result_messages r \<noteq> []"
  shows "\<exists>s'. work_turn cf t s = (s', Inr True) \<and> K \<inter> interrupts s' = {} \<and>
    attempts UPSTREAM (events s') = attempts UPSTREAM (events s) @ [(Bytes (result_heart_beat r), False, Sent)] \<and>
    (\<forall>sk. sk \<noteq> UPSTREAM \<longrightarrow> attempts sk (events s') = attempts sk (events s) @
      attempts sk (if intermediate r then sent_frames DOWNSTREAM (Info i' # map Bytes (result_messages r))
                   else sent_frames LOOPBACK [Info i', Bytes (hd (result_messages r))]))"
proof -
  let ?sent = "\<lambda>sk. attempts sk (if intermediate r then sent_frames DOWNSTREAM (Info i' # map Bytes (result_messages r))
      else sent_frames LOOPBACK [Info i', Bytes (hd (result_messages r))])"
  let ?s = "(note_event Polled s)\<lparr>job := info_key cf i\<rparr>"
  obtain s1 where s1: "handle_interrupt cf True ?s = (s1, Inr ())" "aside K ?s s1"
    using handle_interrupt_calm [OF assms(1), of ?s True] assms(2,3) by auto
  obtain s2 where s2: "run_work cf (work_function cf rest i) s1 = (s2, Inr (r, i'))" "aside K s1 s2"
    using run_work_calm [OF assms(1), of s1 "work_function cf rest i"] s1(2) assms(2,3,9) by (auto simp: aside_def)
  obtain s3 where s3: "(if intermediate r then send_intermediate cf i' (result_messages r) else send_final cf i' (result_messages r))
        (s2\<lparr>heart_beat := result_heart_beat r\<rparr>) = (s3, Inr ())"
      "heart_beat s3 = result_heart_beat r" "interrupts s3 = interrupts s2"
      "\<And>sk. attempts sk (events s3) = attempts sk (events s2) @ ?sent sk"
    using send_result_reliable [OF assms(5,6,10), of i' "s2\<lparr>heart_beat := result_heart_beat r\<rparr>"] by auto
  have "do_job cf (Info i # rest) (note_event Polled s) = (s3, Inr ())"
    using s1(1) s2(1) s3(1) by (simp add: do_job_def bnd_def modify_def)
  moreover obtain s4 where s4: "clean_up cf (s3\<lparr>job := NO_JOB\<rparr>) = (s4, Inr ())" "aside K (s3\<lparr>job := NO_JOB\<rparr>) s4"
    using clean_up_ends [OF assms(4)] by blast
  ultimately have "take_job cf (Info i # rest) (note_event Polled s) = (s4, Inr ())"
    by (simp add: take_job_def bnd_def modify_def catch_std_def catch_interrupt_def)
  then have turn: "work_turn cf t s = turn_tail cf t s4"
    by (simp add: work_turn_job(1) [OF assms(8)] bnd_def)
  have k4: "K \<inter> interrupts s4 = {}"
    using s1(2) s2(2) s4(2) s3(3) assms(3) unfolding aside_def by simp blast
  then have "NO_JOB \<notin> interrupts s4" using assms(2) by blast
  then obtain s' q where "turn_tail cf t s4 = (s', Inr True)" "q = Sent" "K \<inter> interrupts s' \<subseteq> interrupts s4" "heart_beat s' = heart_beat s4"
      "\<forall>sk. attempts sk (events s') = attempts sk (events s4) @ (if sk = UPSTREAM then [(Bytes (heart_beat s4), False, q)] else [])"
    using turn_tail_calm [OF assms(1), of s4 t] s4(2) assms(2,7) by (auto simp: aside_def)
  moreover have "heart_beat s4 = result_heart_beat r" using s4(2) s3(2) by (simp add: aside_def)
  moreover have "attempts sk (events s4) = attempts sk (events s) @ ?sent sk" for sk
    using s4(2) s3(4) s2(2) s1(2) by (simp add: aside_def)
  moreover have "?sent UPSTREAM = []"
  proof -
    have "attempts UPSTREAM (sent_frames DOWNSTREAM fs) = []" for fs :: "'a frame list" by (induction fs) simp_all
    then show ?thesis by simp
  qed
  ultimately show ?thesis using turn k4 by auto
qed

lemma work_turn_delivers:
  assumes "calm cf {NO_JOB, info_key cf i}" and "NO_JOB \<notin> interrupts s" and "info_key cf i \<notin> interrupts s"
    and "sane_cleanup cf" and "reliable cf LOOPBACK" and "reliable cf DOWNSTREAM" and "reliable cf UPSTREAM"
    and "work_in t = Some (Info i # rest)" and "work_outcome (work_function cf rest i) = Inr (r, i')"
    and "result_messages r \<noteq> []"
  shows "\<exists>s'. work_turn cf t s = (s', Inr True) \<and>
    attempts UPSTREAM (events s') = attempts UPSTREAM (events s) @ [(Bytes (result_heart_beat r), False, Sent)] \<and>
    (\<forall>sk. sk \<noteq> UPSTREAM \<longrightarrow> attempts sk (events s') = attempts sk (events s) @
      attempts sk (if intermediate r then sent_frames DOWNSTREAM (Info i' # map Bytes (result_messages r))
                   else sent_frames LOOPBACK [Info i', Bytes (hd (result_messages r))]))"
  using work_turn_delivers_keys [where K = "{NO_JOB, info_key cf i}", OF assms(1) subset_refl _ assms(4-)] assms(2,3) by blast

text \<open>
  C18. A job that nobody interrupts is answered: the result of the work function goes out whole, to the
  server as its info and first message, or to the next proxy as its info and all messages if it is
  intermediate; nothing else goes out on those sockets, and the worker reports back with the
  heartbeat of the result.
\<close>

theorem result_delivered:
  assumes "calm cf {NO_JOB, info_key cf i}" and "NO_JOB \<notin> interrupts s" and "info_key cf i \<notin> interrupts s"
    and "sane_cleanup cf" and "reliable cf LOOPBACK" and "reliable cf DOWNSTREAM" and "reliable cf UPSTREAM"
    and "work_in t = Some (Info i # rest)" and "work_outcome (work_function cf rest i) = Inr (r, i')"
    and "result_messages r \<noteq> []"
  shows "\<exists>s'. work_turn cf t s = (s', Inr True) \<and>
    attempts UPSTREAM (events s') = attempts UPSTREAM (events s) @ [(Bytes (result_heart_beat r), False, Sent)] \<and>
    (\<forall>sk. sk \<noteq> UPSTREAM \<longrightarrow> attempts sk (events s') = attempts sk (events s) @
      attempts sk (if intermediate r then sent_frames DOWNSTREAM (Info i' # map Bytes (result_messages r))
                   else sent_frames LOOPBACK [Info i', Bytes (hd (result_messages r))]))"
  using assms by (rule work_turn_delivers)

theorem result_delivered_witness:
  "\<exists>s'. work_turn plain_worker \<lparr>work_in = Some [Info 7, Bytes ''x''], interrupt_in = True\<rparr> (worker_new []) = (s', Inr True) \<and>
     attempts UPSTREAM (events s') = [(Bytes ''hb'', False, Sent)] \<and>
     attempts LOOPBACK (events s') = [(Info 7, True, Sent), (Bytes ''ok'', False, Sent)]"
proof -
  let ?t = "\<lparr>work_in = Some [Info 7, Bytes ''x''], interrupt_in = True\<rparr> :: u64 turn"
  obtain s' where "work_turn plain_worker ?t (worker_new []) = (s', Inr True)"
      "attempts UPSTREAM (events s') = [(Bytes ''hb'', False, Sent)]"
      "\<forall>sk. sk \<noteq> UPSTREAM \<longrightarrow> attempts sk (events s') = attempts sk (sent_frames LOOPBACK [Info 7, Bytes ''ok''])"
    using result_delivered [where cf = plain_worker and i = 7 and s = "worker_new []" and t = ?t and rest = "[Bytes ''x'']"]
    by (auto simp: plain_worker_calm worker_new_def)
  then show ?thesis by auto
qed

text \<open>
  Between the check for a shutdown and the handling of interrupts that were polled, a shutdown may
  begin: then \<open>handle_interrupt\<close> throws outside every \<open>try\<close> block, and the exception ends the worker's
  thread.
\<close>

theorem shutdown_escapes:
  assumes "work_in t = None" and "interrupt_in t"
    and "\<not> shutting cf (events s @ [Polled])" and "shutting cf (events s @ [Polled, Polled])"
  shows "snd (work_turn cf t s) = Inl (Interrupted (ucast (job s)))"
  using assms
  by (simp add: work_turn_job(2) turn_tail_def hear_interrupts_def handle_interrupt_def shutting_down_def bnd_def
      interrupt_def raise_def)

theorem shutdown_escapes_witness:
  "snd (work_turn (plain_worker\<lparr>shutting := \<lambda>vs. 2 \<le> length vs\<rparr>) \<lparr>work_in = None, interrupt_in = True\<rparr> (worker_new [])) =
     Inl (Interrupted (ucast NO_JOB))"
  using shutdown_escapes [of "\<lparr>work_in = None, interrupt_in = True\<rparr>" "plain_worker\<lparr>shutting := \<lambda>vs. 2 \<le> length vs\<rparr>" "worker_new []"]
  by (simp add: worker_new_def)

end
