(* ===== verification/Programs.thy ===== *)
theory Programs
  imports Worker Http_Roundtrip "HOL-Library.List_Lexorder" "HOL-Library.Char_ord"
begin

text \<open>
  The work functions that come with the library: serving files (\<open>http_util.cpp\<close>, \<open>prime_filed.cpp\<close>,
  \<open>prime_workerd.cpp\<close>), echoing (\<open>prime_echod.cpp\<close>), the example of \<open>art.cpp\<close>, and the two stages of
  \<open>prime_serverd.cpp\<close>, which looks for primes. The disk, the url library and the texts of standard
  exceptions are parameters. Shown here: the path that goes to the disk has no two dots in a row,
  and the prime computation ends with the right answer.
\<close>

section \<open>Answers\<close>

type_synonym http_work = "http_request_info frame list \<Rightarrow> http_request_info \<Rightarrow> http_request_info work"

text \<open>A response made for the request's info, as the one message of a final result.\<close>

definition answer :: "u16 \<Rightarrow> string \<Rightarrow> string \<Rightarrow> headers_t \<Rightarrow> http_request_info \<Rightarrow> http_request_info work" where
  "answer c m b hs info =
     (let (response, info') = rsp_from_info (rsp_make c m b hs ''HTTP/1.1'') info
      in Done \<lparr>intermediate = False, result_messages = [rsp_to_string response], result_heart_beat = []\<rparr> info')"

text \<open>
  Reading the request in a \<open>try\<close> block with \<open>catch (const std::exception&)\<close>: a \<open>request_exception_t\<close> is not
  caught there.
\<close>

definition read_request ::
  "curl \<Rightarrow> http_request_info frame list \<Rightarrow> (std_error \<Rightarrow> http_request_info work) \<Rightarrow> (http_request \<Rightarrow> http_request_info work)
     \<Rightarrow> http_request_info work" where
  "read_request cu messages caught f =
     (case messages of
        Bytes bs # _ \<Rightarrow>
          (case req_from_string cu bs of
             Inl (Rejected x) \<Rightarrow> Throws Foreign
           | Inl (Thrown e) \<Rightarrow> caught e
           | Inr request \<Rightarrow> f request)
      | _ \<Rightarrow> Throws Undefined)"

definition bad_request :: "(std_error \<Rightarrow> string) \<Rightarrow> http_request_info \<Rightarrow> std_error \<Rightarrow> http_request_info work" where
  "bad_request what info e = answer 400 ''Bad Request'' (what e) [] info"

section \<open>Files\<close>

definition DEFAULT_MIME :: "string \<times> string" where
  "DEFAULT_MIME = (''Content-type'', ''application/octet-stream'')"

definition HTML_MIME :: "string \<times> string" where
  "HTML_MIME = (''Content-type'', ''text/html'')"

definition JS_MIME :: "string \<times> string" where
  "JS_MIME = (''Content-type'', ''application/javascript'')"

definition JSON_MIME :: "string \<times> string" where
  "JSON_MIME = (''Content-type'', ''application/json'')"

definition JPEG_MIME :: "string \<times> string" where
  "JPEG_MIME = (''Content-type'', ''image/jpeg'')"

definition load_mimes :: "(string \<times> string \<times> string) list" where
  "load_mimes = [(''htm'', HTML_MIME), (''html'', HTML_MIME), (''js'', JS_MIME), (''json'', JSON_MIME),
     (''jpg'', JPEG_MIME), (''jpeg'', JPEG_MIME)]"

text \<open>The text after the last dot; without a dot \<open>find_last_of\<close> is \<open>npos\<close>, and one more is 0.\<close>

definition extension :: "string \<Rightarrow> string" where
  "extension file_name = rev (takeWhile (\<lambda>c. c \<noteq> CHR ''.'') (rev file_name))"

definition mime_header :: "string \<Rightarrow> string \<times> string \<Rightarrow> string \<times> string" where
  "mime_header file_name dflt =
     (case map_of load_mimes (map tolower (extension file_name)) of None \<Rightarrow> dflt | Some h \<Rightarrow> h)"

text \<open>The loop that takes double dots out of a path: \<open>p\<close> is the previous dot, \<open>i\<close> the current one.\<close>

definition find_from :: "char \<Rightarrow> nat \<Rightarrow> string \<Rightarrow> nat option" where
  "find_from c n s = map_option (\<lambda>k. n + k) (find_char c (drop n s))"

lemma find_from_Some: "find_from c n s = Some i \<Longrightarrow> n \<le> i \<and> i < length s"
  by (auto simp: find_from_def dest: find_char_Some)

function dots_loop :: "string \<Rightarrow> nat \<Rightarrow> nat option \<Rightarrow> string" where
  "dots_loop s p None = s"
| "dots_loop s p (Some i) =
     (let s1 = (if p + 1 = i then s[p := CHR ''/'', i := CHR ''/''] else s)
      in dots_loop s1 i (find_from CHR ''.'' (i + 1) s1))"
  by pat_completeness auto
termination
  by (relation "measure (\<lambda>(s, p, i). case i of None \<Rightarrow> 0 | Some i \<Rightarrow> Suc (length s - i))")
    (auto split: option.split dest: find_from_Some)

definition disk_path :: "string \<Rightarrow> string" where
  "disk_path s = dots_loop s (length s) (find_from CHR ''.'' 0 s)"

text \<open>What the disk says about a path: a file of some size, which may not open, a directory, or neither.\<close>

datatype file_status = Regular nat "string option" | Directory "(string \<times> bool) list" | Missing

text \<open>The entries go through a \<open>std::map\<close>, which sorts them by name.\<close>

definition listing_line :: "string \<times> bool \<Rightarrow> string" where
  "listing_line e =
     (let q = [CHR 0x27] in
      if \<not> snd e then ''<a href='' @ q @ fst e @ q @ ''>'' @ fst e @ ''</a><br/>''
      else if fst e \<noteq> ''.'' then ''<a href='' @ q @ fst e @ ''/'' @ q @ ''>'' @ fst e @ ''</a><br/>'' else [])"

definition listing :: "(string \<times> bool) list \<Rightarrow> string" where
  "listing entries = concat (map (\<lambda>n. listing_line (n, the (map_of entries n))) (sort (remdups (map fst entries))))"

text \<open>A file that does not open leaves the result without messages.\<close>

definition disk_result ::
  "(string \<Rightarrow> file_status) \<Rightarrow> string \<Rightarrow> bool \<Rightarrow> nat \<Rightarrow> http_request \<Rightarrow> http_request_info \<Rightarrow> http_request_info work" where
  "disk_result disk root allow_listing size_limit request info =
     (let s = disk_path (path request);
          missing = answer 404 ''Not Found'' ''Not Found'' [] info
      in case disk (root @ s) of
           Regular n contents \<Rightarrow>
             if n \<le> size_limit then
               (case contents of
                  None \<Rightarrow> Done \<lparr>intermediate = False, result_messages = [], result_heart_beat = []\<rparr> info
                | Some b \<Rightarrow> answer 200 ''OK'' b (hdr_insert (mime_header s DEFAULT_MIME) [CORS]) info)
             else missing
         | Directory entries \<Rightarrow>
             if allow_listing then answer 200 ''OK'' (listing entries) (hdr_insert HTML_MIME [CORS]) info else missing
         | Missing \<Rightarrow> missing)"

text \<open>\<open>disk_work\<close> of \<open>prime_filed.cpp\<close>, with the default limit of one gigabyte.\<close>

definition disk_work :: "curl \<Rightarrow> (std_error \<Rightarrow> string) \<Rightarrow> (string \<Rightarrow> file_status) \<Rightarrow> string \<Rightarrow> http_work" where
  "disk_work cu what disk root messages info =
     read_request cu messages (bad_request what info)
       (\<lambda>request. disk_result disk root True (1024 * 1024 * 1024) request info)"

text \<open>
  The work function of \<open>prime_workerd.cpp\<close>: it strips slashes and dots in front and opens what is left.
  The request is read outside its \<open>try\<close> block. A file that does not open has the size -1, for which
  \<open>reserve\<close> throws.
\<close>

definition strip_path :: "string \<Rightarrow> string" where
  "strip_path s = dropWhile (\<lambda>c. c = CHR ''/'' \<or> c = CHR ''.'') s"

definition file_work :: "curl \<Rightarrow> (string \<Rightarrow> string option) \<Rightarrow> http_work" where
  "file_work cu open_file messages info =
     read_request cu messages (\<lambda>e. Throws (Std e))
       (\<lambda>request. case open_file (strip_path (path request)) of
          None \<Rightarrow> answer 404 ''Not Found'' [] [] info
        | Some b \<Rightarrow> answer 200 ''OK'' b [] info)"

section \<open>Echo and art\<close>

definition echo_work :: http_work where
  "echo_work messages info =
     (case messages of Bytes bs # _ \<Rightarrow> answer 200 ''OK'' bs [] info | _ \<Rightarrow> Throws Undefined)"

definition art :: "string list" where
  "art =
    [''(_,_)'',
     ''(_|_)'',
     ''(_*_)'',
     ''('' @ [CHR 0xE2, CHR 0x80, CHR 0xBF, CHR 0xCB, CHR 0xA0, CHR 0xE2, CHR 0x80, CHR 0xBF] @ '')'',
     ''('' @ [CHR 0xE2, CHR 0x80, CHR 0xBF, CHR 0xEA, CHR 0x9C, CHR 0x9F, CHR 0xE2, CHR 0x80, CHR 0xBF] @ '')'',
     ''('' @ [CHR 0xE2, CHR 0x80, CHR 0xBF, CHR 0xCE, CHR 0xB5, CHR 0xE2, CHR 0x80, CHR 0xBF] @ '')'']"

definition art_work :: "curl \<Rightarrow> (std_error \<Rightarrow> string) \<Rightarrow> http_work" where
  "art_work cu what messages info =
     read_request cu messages (bad_request what info)
       (\<lambda>request. answer 200 ''OK'' (art ! (unat (info_id info) mod length art)) [] info)"

section \<open>Primes\<close>

text \<open>
  The first stage reads a number from the query or the body and sends its eight bytes on. In the
  \<open>POST\<close> branch an empty body runs into \<open>throw;\<close> with nothing to rethrow, which ends the process, as an
  exception that nobody catches does.
\<close>

definition size_bytes :: "nat \<Rightarrow> string" where
  "size_bytes n = map (\<lambda>k. char_of (n div 256 ^ k mod 256)) [0..<8]"

definition bytes_size :: "string \<Rightarrow> nat" where
  "bytes_size bs = foldr (\<lambda>c a. of_char c + 256 * a) (take 8 bs) 0"

definition pass_on :: "nat \<Rightarrow> http_request_info \<Rightarrow> http_request_info work" where
  "pass_on n info = Done \<lparr>intermediate = True, result_messages = [size_bytes n], result_heart_beat = []\<rparr> info"

definition QUOTE :: char where
  "QUOTE = CHR 0x27"

definition GET_USAGE :: std_error where
  "GET_USAGE = Runtime_error (''GET requests should look like: '' @ [QUOTE] @ ''is_prime?possible_prime=SOME_NUMBER'' @ [QUOTE])"

definition POST_USAGE :: std_error where
  "POST_USAGE = Runtime_error (''POST requests should have a path of '' @ [QUOTE] @ ''is_prime'' @ [QUOTE] @
     '' and a body with '' @ [QUOTE] @ ''SOME_NUMBER'' @ [QUOTE])"

definition possible_prime :: "http_request \<Rightarrow> exn + nat" where
  "possible_prime request =
     (if req_method request = GET then
        (case map_of (query request) ''possible_prime'' of
           Some [v] \<Rightarrow> if path request = ''/is_prime'' then map_sum Std id (stoul v)
             else Inl (Std GET_USAGE)
         | _ \<Rightarrow> Inl (Std GET_USAGE))
      else if req_method request = POST then
        if body request = [] then Inl Foreign
        else (case stoul (body request) of
            Inl e \<Rightarrow> Inl (Std POST_USAGE)
          | Inr n \<Rightarrow> Inr n)
      else Inl (Std (Runtime_error ''Only GET and POST requests supported'')))"

definition parse_work :: "curl \<Rightarrow> (std_error \<Rightarrow> string) \<Rightarrow> http_work" where
  "parse_work cu what messages info =
     read_request cu messages (bad_request what info)
       (\<lambda>request. case possible_prime request of
          Inr n \<Rightarrow> pass_on n info
        | Inl (Std e) \<Rightarrow> bad_request what info e
        | Inl x \<Rightarrow> Throws x)"

text \<open>The second stage: trial division, with the bound lowered as it goes.\<close>

function prime_loop :: "nat \<Rightarrow> nat \<Rightarrow> nat \<Rightarrow> nat \<times> nat" where
  "prime_loop n divisor high =
     (if divisor < high then
        if n mod divisor = 0 then (divisor, high) else prime_loop n (divisor + 1) (n div divisor)
      else (divisor, high))"
  by pat_completeness auto
termination
proof (relation "measure (\<lambda>(n, d, h). max n h - d)", simp)
  fix n d h :: nat
  assume "d < h"
  then show "((n, d + 1, n div d), n, d, h) \<in> measure (\<lambda>(n, d, h). max n h - d)"
    unfolding in_measure prod.case using div_le_dividend [of n d] by linarith
qed

declare prime_loop.simps [simp del]

definition compute :: "nat \<Rightarrow> nat" where
  "compute n = (let (divisor, high) = prime_loop n 2 n in if divisor < high then SIZE_MAX else n)"

definition compute_work :: http_work where
  "compute_work messages info =
     (case messages of
        Bytes bs # _ \<Rightarrow> answer 200 ''OK'' (to_dec (compute (bytes_size bs))) [] info
      | _ \<Rightarrow> Throws Undefined)"

text \<open>
  The client of the batch mode: the range of numbers from the argument, the request that follows the
  last one, and what becomes of a response. \<open>size_sub\<close> wraps around for an end of 0.
\<close>

definition prime_range :: "string \<Rightarrow> std_error + nat \<times> nat" where
  "prime_range arg =
     (let (a, b) = (case find_char CHR '','' arg of None \<Rightarrow> (arg, arg) | Some i \<Rightarrow> (take i arg, drop (i + 1) arg)) in
      case stoul a of
        Inl e \<Rightarrow> Inl e
      | Inr from \<Rightarrow>
          (case stoul b of
             Inl e \<Rightarrow> Inl e
           | Inr last_n \<Rightarrow>
               Inr (max (size_add from (if from mod 2 = 0 then 1 else 0)) 3,
                    size_sub last_n (if last_n mod 2 = 0 then 1 else 0))))"

definition range_requests :: "nat \<times> nat \<Rightarrow> nat option" where
  "range_requests r = (if fst r \<ge> snd r then None else Some ((snd r - fst r) div 2 + 1))"

record prime_client =
  produced_requests :: nat
  last_prime :: nat
  primes :: "nat set"
  collected_results :: nat

definition prime_client_new :: "nat \<Rightarrow> prime_client" where
  "prime_client_new prime_start =
     \<lparr>produced_requests = 0, last_prime = size_sub prime_start 2, primes = {}, collected_results = 0\<rparr>"

definition next_prime_request :: "curl \<Rightarrow> nat \<Rightarrow> prime_client \<Rightarrow> prime_client \<times> (std_error + string)" where
  "next_prime_request cu requests c =
     (let c1 = c\<lparr>produced_requests := produced_requests c + 1\<rparr> in
      if produced_requests c < requests then
        let n = size_add (last_prime c) 2 in
        (c1\<lparr>last_prime := n\<rparr>, req_string cu GET (''/is_prime?possible_prime='' @ to_dec n) [] [] [] ''HTTP/1.1'')
      else (c1, Inr []))"

text \<open>The number is read from the last line break on; what \<open>rfind\<close> does not find ends in an exception as well.\<close>

definition collect_prime :: "nat \<Rightarrow> prime_client \<Rightarrow> string \<Rightarrow> prime_client \<times> bool" where
  "collect_prime requests c response =
     (let tail = rev (takeWhile (\<lambda>x. x \<noteq> LF) (rev response));
          c1 = (case (if LF \<in> set response then stoul (LF # tail) else Inl Out_of_range) of
                  Inl e \<Rightarrow> c
                | Inr n \<Rightarrow> if n \<noteq> SIZE_MAX then c\<lparr>primes := insert n (primes c)\<rparr> else c);
          c2 = c1\<lparr>collected_results := collected_results c1 + 1\<rparr>
      in (c2, collected_results c2 < requests))"

section \<open>Paths without double dots\<close>

text \<open>
  The loop in one pass: a dot next to a dot becomes a slash; \<open>b\<close> says whether a dot came before.
\<close>

fun undot :: "bool \<Rightarrow> string \<Rightarrow> string" where
  "undot b [] = []"
| "undot b (c # cs) =
     (if c = CHR ''.'' \<and> (b \<or> (cs \<noteq> [] \<and> hd cs = CHR ''.'')) then CHR ''/'' else c) # undot (c = CHR ''.'') cs"

lemma undot_plain: "CHR ''.'' \<notin> set m \<Longrightarrow> m \<noteq> [] \<Longrightarrow> undot b (m @ r) = m @ undot False r"
proof (induction m arbitrary: b)
  case (Cons c m)
  then show ?case by (cases m) auto
qed simp

lemma undot_no_dots: "CHR ''.'' \<notin> set m \<Longrightarrow> undot b m = m"
  by (induction m arbitrary: b) auto

lemma find_char_split: "find_char c s = Some i \<Longrightarrow> \<exists>a r. s = a @ c # r \<and> c \<notin> set a \<and> i = length a"
  using find_char_Some [of c s i] id_take_nth_drop [of i s]
  by (intro exI [of _ "take i s"] exI [of _ "drop (Suc i) s"]) auto

lemma find_from_append: "find_from c (length a) (a @ s) = map_option (\<lambda>k. length a + k) (find_char c s)"
  by (simp add: find_from_def)

lemma dots_loop_undot:
  "dots_loop (pre @ CHR ''.'' # rest) p (Some (length pre)) =
   (if p + 1 = length pre then pre[p := CHR ''/''] else pre) @ undot (p + 1 = length pre) (CHR ''.'' # rest)"
proof (induction "length rest" arbitrary: pre rest p rule: less_induct)
  case less
  let ?b = "p + 1 = length pre"
  let ?x = "if ?b then pre[p := CHR ''/''] else pre" and ?c = "if ?b then CHR ''/'' else CHR ''.''"
  let ?pre = "?x @ [?c]"
  have len: "length ?pre = length pre + 1" by simp
  have s1: "(if ?b then (pre @ CHR ''.'' # rest)[p := CHR ''/'', length pre := CHR ''/''] else pre @ CHR ''.'' # rest) = ?pre @ rest"
    by (auto simp: list_update_append)
  have run: "dots_loop (pre @ CHR ''.'' # rest) p (Some (length pre)) =
      dots_loop (?pre @ rest) (length pre) (map_option (\<lambda>k. length ?pre + k) (find_char CHR ''.'' rest))"
    unfolding dots_loop.simps Let_def s1 using find_from_append [of "CHR ''.''" ?pre rest] by (simp only: len)
  show ?case
  proof (cases "find_char CHR ''.'' rest")
    case None
    then have "undot True rest = rest" "rest = [] \<or> hd rest \<noteq> CHR ''.''"
      using undot_no_dots [of rest True] by (cases rest, auto)+
    then show ?thesis unfolding run None by auto
  next
    case (Some i)
    then obtain mid r where rest: "rest = mid @ CHR ''.'' # r" "CHR ''.'' \<notin> set mid" "i = length mid"
      using find_char_split by blast
    have "dots_loop ((?pre @ mid) @ CHR ''.'' # r) (length pre) (Some (length (?pre @ mid))) =
        (if length pre + 1 = length (?pre @ mid) then (?pre @ mid)[length pre := CHR ''/''] else ?pre @ mid) @
        undot (length pre + 1 = length (?pre @ mid)) (CHR ''.'' # r)"
      by (rule less.hyps) (simp add: rest(1))
    moreover have "(length pre + 1 = length (?pre @ mid)) = (mid = [])" by simp
    moreover have "undot True rest = (if mid = [] then undot True (CHR ''.'' # r) else mid @ undot False (CHR ''.'' # r))"
      using undot_plain [OF rest(2), of True "CHR ''.'' # r"] by (simp add: rest(1))
    moreover have "mid \<noteq> [] \<Longrightarrow> hd mid \<noteq> CHR ''.''" using rest(2) by (cases mid) auto
    ultimately show ?thesis
      unfolding run Some by (auto simp: rest(1,3) hd_append list_update_append simp del: dots_loop.simps(2))
  qed
qed

lemma disk_path_undot: "disk_path s = undot False s"
proof (cases "find_char CHR ''.'' s")
  case None
  then have "disk_path s = s" by (simp add: disk_path_def find_from_def del: find_char_None)
  then show ?thesis using None undot_no_dots [of s False] by simp
next
  case (Some i)
  then obtain a r where s: "s = a @ CHR ''.'' # r" "CHR ''.'' \<notin> set a" "i = length a" using find_char_split by blast
  have "disk_path s = dots_loop (a @ CHR ''.'' # r) (length s) (Some (length a))"
    using Some by (simp add: disk_path_def find_from_def s(3)) (simp add: s(1))
  also have "\<dots> = a @ undot False (CHR ''.'' # r)" using dots_loop_undot [of a r "length s"] by (simp add: s(1))
  also have "\<dots> = undot False s"
    using undot_plain [OF s(2), of False "CHR ''.'' # r"] by (cases "a = []") (simp_all add: s(1))
  finally show ?thesis .
qed

lemma undot_safe: "find_pair CHR ''.'' CHR ''.'' (undot b s) = None"
proof (induction s arbitrary: b)
  case (Cons c s)
  then show ?case by (cases s) (auto split: if_splits)
qed simp

lemma undot_same: "find_pair CHR ''.'' CHR ''.'' s = None \<Longrightarrow> undot False s = s \<and> (s = [] \<or> hd s \<noteq> CHR ''.'' \<longrightarrow> undot True s = s)"
proof (induction s)
  case (Cons c s)
  then show ?case by (cases s) (auto split: if_splits)
qed simp

section \<open>Primes\<close>

definition is_prime :: "nat \<Rightarrow> bool" where
  "is_prime n \<longleftrightarrow> 2 \<le> n \<and> (\<forall>d. 2 \<le> d \<and> d < n \<longrightarrow> \<not> d dvd n)"

text \<open>No divisor below the current one, and a bound that lets no smallest divisor slip through.\<close>

lemma prime_bound:
  assumes "2 \<le> n" "2 \<le> d" "\<And>e. 2 \<le> e \<Longrightarrow> e < d \<Longrightarrow> \<not> e dvd n" "(d = 2 \<and> h = n) \<or> h = n div (d - 1)" "h \<le> d"
  shows "is_prime n"
proof (rule ccontr)
  assume "\<not> is_prime n"
  then obtain e where e: "2 \<le> e" "e < n" "e dvd n" using assms(1) by (auto simp: is_prime_def)
  then obtain f where f: "n = e * f" by (elim dvdE)
  have "f dvd n" by (simp add: f)
  moreover have "2 \<le> f"
  proof (rule ccontr)
    assume "\<not> 2 \<le> f"
    then have "f = 0 \<or> f = 1" by linarith
    then show False using e(2) f assms(1) by auto
  qed
  ultimately have de: "d \<le> e" "d \<le> f" using assms(3) e(1,3) by (meson not_le)+
  then have "d * d \<le> n" unfolding f by (rule mult_le_mono)
  moreover have "(d + 1) * (d - 1) \<le> d * d" using assms(2) by (simp add: algebra_simps diff_mult_distrib)
  ultimately have "(d + 1) * (d - 1) \<le> n" by linarith
  then have "d + 1 \<le> n div (d - 1)" using assms(2) by (simp add: less_eq_div_iff_mult_less_eq)
  moreover have "n \<le> 2 \<Longrightarrow> False" using e by linarith
  ultimately show False using assms(4,5) by auto
qed

lemma prime_loop_correct:
  "2 \<le> n \<Longrightarrow> 2 \<le> d \<Longrightarrow> (\<And>e. 2 \<le> e \<Longrightarrow> e < d \<Longrightarrow> \<not> e dvd n) \<Longrightarrow> (d = 2 \<and> h = n) \<or> h = n div (d - 1) \<Longrightarrow>
   prime_loop n d h = (d', h') \<Longrightarrow> (d' < h') = (\<not> is_prime n)"
proof (induction n d h rule: prime_loop.induct)
  case (1 n d h)
  show ?case
  proof (cases "d < h")
    case False
    then have "is_prime n" using prime_bound [OF 1(2-5)] by simp
    then show ?thesis using 1(6) False by (simp add: prime_loop.simps [of n d h])
  next
    case True
    show ?thesis
    proof (cases "n mod d = 0")
      case True': True
      have "h \<le> n" using 1(5) div_le_dividend [of n "d - 1"] by auto
      then have "\<not> is_prime n" using True True' 1(3) by (auto simp: is_prime_def dvd_eq_mod_eq_0 intro!: exI [of _ d])
      then show ?thesis using 1(6) True True' by (simp add: prime_loop.simps [of n d h])
    next
      case False
      have "\<not> e dvd n" if "2 \<le> e" "e < d + 1" for e
        using 1(4) that False by (cases "e = d") (auto simp: dvd_eq_mod_eq_0)
      then show ?thesis
        using 1(1) [OF True False 1(2)] 1(3,6) True False by (simp add: prime_loop.simps [of n d h])
    qed
  qed
qed

lemma compute_correct: "2 \<le> n \<Longrightarrow> compute n = (if is_prime n then n else SIZE_MAX)"
  using prime_loop_correct [of n 2 n] by (auto simp: compute_def split: prod.split)

lemma bytes_size_bytes: "n < size_range \<Longrightarrow> bytes_size (size_bytes n) = n"
proof -
  assume n: "n < size_range"
  have up: "[0..<8] = [0, 1, 2, 3, 4, 5, 6, 7 :: nat]" by (simp add: upt_rec)
  have "n div 256 ^ 8 = 0" using n by (simp add: size_range_def)
  moreover have "n = n mod 256 + 256 * (n div 256)" by simp
  moreover have "n div 256 ^ k = n div 256 ^ k mod 256 + 256 * (n div 256 ^ Suc k)" for k
    using mult_div_mod_eq [of 256 "n div 256 ^ k"] by (simp add: div_mult2_eq [symmetric] mult.commute)
  from this [of 1] this [of 2] this [of 3] this [of 4] this [of 5] this [of 6] this [of 7]
  show ?thesis
    using n by (simp add: bytes_size_def size_bytes_def up size_range_def)
qed

section \<open>Properties\<close>



text \<open>
  C40. The prime computation ends for every number, and the two stages together answer correctly: for
  a number of at least 2 in a request to the first stage, the second stage answers with that number
  if it is prime and with the largest 64-bit number if it is not.
\<close>

theorem prime_answer:
  assumes "possible_prime request = Inr n" and "2 \<le> n" and "n < size_range"
    and "req_from_string cu bs = Inr request"
  shows "\<exists>m. parse_work cu what [Bytes bs] info =
      Done \<lparr>intermediate = True, result_messages = [m], result_heart_beat = []\<rparr> info \<and>
    compute_work [Bytes m] info = answer 200 ''OK'' (to_dec (if is_prime n then n else SIZE_MAX)) [] info"
  using assms
  by (simp add: parse_work_def read_request_def pass_on_def compute_work_def bytes_size_bytes compute_correct)

theorem prime_answer_witness:
  "\<exists>m. parse_work plain_curl (\<lambda>_. []) [Bytes (''POST / HTTP/1.1'' @ CRLF @ ''Content-Length: 1'' @ CRLF @ CRLF @ ''7'')]
         (req_to_info 0 req_new 0) =
       Done \<lparr>intermediate = True, result_messages = [m], result_heart_beat = []\<rparr> (req_to_info 0 req_new 0) \<and>
     compute_work [Bytes m] (req_to_info 0 req_new 0) = answer 200 ''OK'' (to_dec 7) [] (req_to_info 0 req_new 0)"
proof -
  let ?d = "''POST / HTTP/1.1'' @ CRLF @ ''Content-Length: 1'' @ CRLF @ CRLF @ ''7''"
  have "\<exists>r. req_from_string plain_curl ?d = Inr r \<and> possible_prime r = Inr 7"
    by (simp add: req_eval req_from_string_def possible_prime_def)
  then obtain r where r: "req_from_string plain_curl ?d = Inr r" "possible_prime r = Inr 7" by blast
  have "\<not> d dvd 7" if "2 \<le> d" "d < 7" for d :: nat
  proof -
    have "d \<in> {2, 3, 4, 5, 6}" using that by auto
    then show ?thesis by auto
  qed
  then have "is_prime 7" by (auto simp: is_prime_def)
  then show ?thesis
    using prime_answer [OF r(2) _ _ r(1), of "\<lambda>_. []" "req_to_info 0 req_new 0"] by (simp add: size_range_def)
qed

end
