(* ===== verification/Pipeline.thy ===== *)
theory Pipeline
  imports Server_Wire Proxy Programs
begin

text \<open>
  The parts put together, as \<open>prime_echod.cpp\<close> and the other daemons do it: a server, a proxy and a
  worker. A request travels from the client through all of them and its answer back.
\<close>

section \<open>The server's part\<close>

text \<open>One request taken in, with a proxy socket that takes every frame.\<close>

lemma enqueue_one_request:
  assumes "health_check_matcher cf = None" "reliable cf PROXY"
    and "sessions s c = Some r0" "req_from_stream cu (max_request_size cf) r0 d = (r1, Inr [rq])"
    and "req_to_string cu rq = Inr str"
    and "i = req_to_info (clock cf (events s)) rq (request_id s)" "requests s (http_key i) = None"
  shows "\<exists>s'. enqueue (http_protocol cu) cf c d s = (s', Inr True) \<and> requests s' = (requests s)(http_key i \<mapsto> c) \<and>
    sessions s' c \<noteq> None \<and> attempts CLIENT (events s') = attempts CLIENT (events s) \<and>
    attempts PROXY (events s') = attempts PROXY (events s) @ [(Info i, True, Sent), (Bytes str, False, Sent)]"
  using assms
  by (simp add: enqueue_def http_from_stream http_protocol_simps enqueue_one_def enqueue_with_def forward_request_def
      remember_def log_line_if_def send_reliable bnd_def ret_def modify_def note_event_def Let_def)

lemma interrupt_all_reliable:
  "reliable cf INTERRUPT \<Longrightarrow> \<exists>s'. interrupt_all cf ks s = (s', Inr ()) \<and> quiet s' = quiet s \<and>
     attempts CLIENT (events s') = attempts CLIENT (events s)"
proof (induction ks arbitrary: s)
  case (Cons k ks)
  obtain s' where "interrupt_all cf ks (note_event (Attempt INTERRUPT (Key k) False Sent) s) = (s', Inr ())"
      "quiet s' = quiet (note_event (Attempt INTERRUPT (Key k) False Sent) s)"
      "attempts CLIENT (events s') = attempts CLIENT (events (note_event (Attempt INTERRUPT (Key k) False Sent) s))"
    using Cons by blast
  then show ?case using Cons.prems by (simp add: bnd_def send_reliable note_event_def quiet_def)
qed (simp add: ret_def)

text \<open>An answer goes to the connection of the request, and ends it if the client does not keep it alive.\<close>

lemma dequeue_reliable:
  assumes "\<And>sk. reliable cf sk" "requests s (http_key i) = Some c" "sessions s c \<noteq> None"
  shows "\<exists>s'. dequeue (http_protocol cu) cf i response s = (s', Inr True) \<and> requests s' = (requests s)(http_key i := None) \<and>
    attempts CLIENT (events s') = attempts CLIENT (events s) @ [(Bytes c, True, Sent), (Bytes response, False, Sent)] @
      (if http_keep_alive i then [] else [(Bytes c, True, Sent), (Bytes [], False, Sent)])"
proof (cases "http_keep_alive i")
  case True
  then show ?thesis
    using assms by (simp add: dequeue_def http_protocol_simps send_two_def send_reliable bnd_def ret_def modify_def
        log_line_if_def note_event_def)
next
  case False
  obtain r where r: "sessions s c = Some r" using assms(3) by blast
  let ?v = "[Attempt CLIENT (Bytes c) True Sent, Attempt CLIENT (Bytes response) False Sent]"
  let ?w = "[Attempt CLIENT (Bytes c) True Sent, Attempt CLIENT (Bytes []) False Sent]"
  obtain s1 where s1: "log_line_if cf (\<lambda>ts. info_log ts i (length response)) (s\<lparr>events := events s @ ?v\<rparr>) = (s1, Inr ())"
      "quiet s1 = quiet s" "attempts CLIENT (events s1) = attempts CLIENT (events s @ ?v)"
    by (auto simp: log_line_if_def note_event_def quiet_def)
  obtain s2 where s2: "interrupt_all cf (enqueued r) (s1\<lparr>events := events s1 @ ?w\<rparr>) = (s2, Inr ())"
      "quiet s2 = quiet (s1\<lparr>events := events s1 @ ?w\<rparr>)" "attempts CLIENT (events s2) = attempts CLIENT (events s1 @ ?w)"
    using interrupt_all_reliable [OF assms(1), of "enqueued r" "s1\<lparr>events := events s1 @ ?w\<rparr>"] by auto
  have "quiet s2 = quiet s" using s2(2) s1(2) by (simp add: quiet_def)
  then have q: "requests s2 = requests s" "sessions s1 c = Some r"
    using quiet_server [of s2 s] quiet_server [OF s1(2)] r by simp_all
  have "dequeue (http_protocol cu) cf i response s =
      (s2\<lparr>sessions := (sessions s2)(c := None), requests := (requests s2)(http_key i := None)\<rparr>, Inr True)"
    using False assms(1,2) s1(1) s2(1) q(2)
    by (simp add: dequeue_def http_protocol_def send_two_def send_reliable bnd_def ret_def modify_def
        note_event_def close_session_def)
  then show ?thesis using s1(3) s2(3) q(1) False by simp
qed

section \<open>An example\<close>

definition echo_worker :: "http_request_info worker_config" where
  "echo_worker = \<lparr>net = (\<lambda>_ _ _ _. Sent), clock = (\<lambda>_. 0), timestamp = (\<lambda>_. []), info_key = http_key,
     work_function = echo_work, cleanup_function = None, inbox = (\<lambda>_. Inr []), shutting = (\<lambda>_. False)\<rparr>"

lemma echo_worker_calm:
  "calm echo_worker K" "sane_cleanup echo_worker" "reliable echo_worker sk" "info_key echo_worker = http_key"
  "work_function echo_worker = echo_work"
  by (simp_all add: echo_worker_def calm_def sane_cleanup_def reliable_def)

section \<open>Properties\<close>

text \<open>
  C1. From the client and back: bytes that parse as one request go from the server to the proxy, from
  the proxy to the worker that has waited longest, from the echo worker to the server, and the
  response reaches the client's connection, each message whole; the response is to the very request
  that was sent on, and afterwards the server has the outstanding requests it had before.
\<close>

theorem echo_pipeline:
  assumes "health_check_matcher cf = None" and "\<And>sk. reliable cf sk"
    and "sessions s c = Some r0" and "req_from_stream cu (max_request_size cf) r0 d = (r1, Inr [rq])"
    and "req_to_string cu rq = Inr str"
    and "i = req_to_info (clock cf (events s)) rq (request_id s)" and "requests s (http_key i) = None"
    and "fair_proxy pf" and "proxy_inv p" and "idle_workers p = (a, h) # q"
    and "info_key wk = http_key" and "work_function wk = echo_work" and "calm wk UNIV" and "interrupts w = {}"
    and "sane_cleanup wk" and "\<And>sk. reliable wk sk"
    and "(reply, i') = rsp_from_info (rsp_make 200 ''OK'' str [] ''HTTP/1.1'') i"
    and "response = rsp_to_string reply"
  shows "\<exists>s1 p1 w1 s2.
    enqueue (http_protocol cu) cf c d s = (s1, Inr True) \<and>
    attempts PROXY (events s1) = attempts PROXY (events s) @ [(Info i, True, Sent), (Bytes str, False, Sent)] \<and>
    dispatch_job pf [hop, Info i, Bytes str] p = (p1, Inr ()) \<and>
    events p1 = events p @ sent_frames DOWNSTREAM [Bytes a, Info i, Bytes str] \<and>
    work_turn wk \<lparr>work_in = Some [Info i, Bytes str], interrupt_in = signalled\<rparr> w = (w1, Inr True) \<and>
    attempts LOOPBACK (events w1) = attempts LOOPBACK (events w) @ [(Info i', True, Sent), (Bytes response, False, Sent)] \<and>
    dequeue (http_protocol cu) cf i' response s1 = (s2, Inr True) \<and>
    attempts CLIENT (events s2) = attempts CLIENT (events s) @ [(Bytes c, True, Sent), (Bytes response, False, Sent)] @
      (if http_keep_alive i then [] else [(Bytes c, True, Sent), (Bytes [], False, Sent)]) \<and>
    requests s2 = requests s"
proof -
  let ?t = "\<lparr>work_in = Some [Info i, Bytes str], interrupt_in = signalled\<rparr> :: http_request_info turn"
  obtain s1 where s1: "enqueue (http_protocol cu) cf c d s = (s1, Inr True)" "requests s1 = (requests s)(http_key i \<mapsto> c)"
      "sessions s1 c \<noteq> None" "attempts CLIENT (events s1) = attempts CLIENT (events s)"
      "attempts PROXY (events s1) = attempts PROXY (events s) @ [(Info i, True, Sent), (Bytes str, False, Sent)]"
    using enqueue_one_request [OF assms(1,2-7)] by blast
  obtain n where pk: "pick pf [Bytes str] p = (p, Inr (n, a))"
    using pick_front [OF assms(9) _ assms(10)] assms(8) by (auto simp: fair_proxy_def)
  obtain p1 where p1: "dispatch_job pf [hop, Info i, Bytes str] p = (p1, Inr ())"
      "events p1 = events p @ sent_frames DOWNSTREAM [Bytes a, Info i, Bytes str]"
    using dispatch_reliable [OF assms(9) _ pk] assms(8) unfolding fair_proxy_def by blast
  let ?res = "\<lparr>intermediate = False, result_messages = [response], result_heart_beat = []\<rparr>"
  have "calm wk {NO_JOB, info_key wk i}" using assms(13) by (auto simp: calm_def)
  moreover have "work_outcome (work_function wk [Bytes str] i) = Inr (?res, i')"
    using assms(17,18) by (simp add: assms(12) echo_work_def answer_def split: prod.split)
      (metis fst_conv snd_conv)
  ultimately obtain w1 where w1: "work_turn wk ?t w = (w1, Inr True)"
      "attempts LOOPBACK (events w1) = attempts LOOPBACK (events w) @ attempts LOOPBACK (sent_frames LOOPBACK [Info i', Bytes response])"
    using work_turn_delivers [of wk i w ?t "[Bytes str]" ?res i'] assms(14-16) by auto
  have k: "http_key i' = http_key i" "http_keep_alive i' = http_keep_alive i"
    using assms(17) by (auto simp: rsp_from_info_def Let_def http_key_def http_keep_alive_def)
  then have "requests s1 (http_key i') = Some c" using s1(2) by simp
  then obtain s2 where "dequeue (http_protocol cu) cf i' response s1 = (s2, Inr True)"
      "requests s2 = (requests s1)(http_key i' := None)"
      "attempts CLIENT (events s2) = attempts CLIENT (events s1) @ [(Bytes c, True, Sent), (Bytes response, False, Sent)] @
        (if http_keep_alive i' then [] else [(Bytes c, True, Sent), (Bytes [], False, Sent)])"
    using dequeue_reliable [OF assms(2) _ s1(3), of i' cu response] by blast
  moreover have "(requests s1)(http_key i' := None) = requests s"
    using s1(2) k(1) assms(7) by (auto simp: fun_eq_iff)
  ultimately show ?thesis using s1(1,4,5) p1 w1 k(2) by auto
qed

theorem echo_pipeline_witness:
  "\<exists>s1 p1 w1 s2 i i' response. enqueue http0 plain_config ''A'' get_root connected = (s1, Inr True) \<and>
     dispatch_job plain_proxy [Bytes ''S'', Info i, Bytes root_bytes] (report plain_proxy ''w'' [] proxy_new) = (p1, Inr ()) \<and>
     work_turn echo_worker \<lparr>work_in = Some [Info i, Bytes root_bytes], interrupt_in = False\<rparr> (worker_new []) = (w1, Inr True) \<and>
     dequeue http0 plain_config i' response s1 = (s2, Inr True) \<and>
     attempts CLIENT (events s2) = [(Bytes ''A'', True, Sent), (Bytes response, False, Sent), (Bytes ''A'', True, Sent), (Bytes [], False, Sent)]"
proof -
  let ?cf = "plain_config :: (http_request, http_request_info) server_config"
  let ?i = "req_to_info (clock ?cf (events connected)) root_request (request_id connected)"
  let ?p = "report plain_proxy ''w'' [] proxy_new :: http_request_info proxy"
  obtain reply i' where r: "(reply, i') = rsp_from_info (rsp_make 200 ''OK'' root_bytes [] ''HTTP/1.1'') ?i"
    by (metis surj_pair)
  have p: "proxy_inv ?p" "idle_workers ?p = [(''w'', [])]"
    using pool.idle_law [of "plain_proxy :: http_request_info proxy_config" proxy_new "''w''" "[]"]
    by (simp_all add: advertise_idle_def plain_proxy_fair proxy_inv_new)
  have c: "sessions connected ''A'' = Some req_new" "requests connected (http_key ?i) = None" "events connected = []"
    by (simp_all add: connected_state)
  have k: "\<not> http_keep_alive ?i" by (simp add: root_info http_keep_alive_def)
  have m: "req_from_stream plain_curl (max_request_size ?cf) req_new get_root = (req_new\<lparr>req_method := GET\<rparr>, Inr [root_request])"
    using get_root_parsed by simp
  have rel: "reliable ?cf sk" for sk by (simp add: reliable_def)
  have "interrupts (worker_new [] :: http_request_info worker) = {}" by (simp add: worker_new_def)
  from echo_pipeline [OF _ rel c(1) m root_request_sent refl c(2) plain_proxy_fair(1) p echo_worker_calm(4,5,1) this
      echo_worker_calm(2,3) r refl, of "Bytes ''S''" False]
  show ?thesis using k c(3) by (simp del: plain_config_simps(2)) blast
qed

end
