(* ===== verification/Http_Client.thy ===== *)
theory Http_Client
  imports Http_Response
begin

text \<open>
  \<open>http_client_t\<close> of \<open>http_protocol.hpp\<close> and \<open>http_protocol.cpp\<close>: the client's own state machine, which
  looks for the end of each response in the stream and hands the bytes of the response to the
  application's collect function. Shown here: how the stream is cut makes no difference, and the
  collected strings are exactly the responses a server has written.
\<close>

section \<open>State\<close>

text \<open>
  The two iterators into the constants are indices; \<open>left\<close> is the member \<open>length\<close>.
\<close>

record http_client =
  parse_headers :: bool
  parse_length :: bool
  parse_body :: bool
  content_length :: string
  left :: nat
  double_return_itr :: nat
  content_length_itr :: nat
  buffer :: string

definition CONTENT_LENGTH :: string where
  "CONTENT_LENGTH = CRLF @ ''Content-Length: ''"

definition DOUBLE_RETURN :: string where
  "DOUBLE_RETURN = CRLF @ CRLF"

text \<open>
  The end iterator of \<open>DOUBLE_RETURN\<close> is dereferenced at the last byte of a body; the string's
  storage ends with a null byte there.
\<close>

definition deref :: "string \<Rightarrow> nat \<Rightarrow> char" where
  "deref s i = (if i < length s then s ! i else NUL)"

definition client_reset :: "http_client \<Rightarrow> http_client" where
  "client_reset cl = cl\<lparr>parse_headers := True, parse_length := False, parse_body := False, content_length := [],
     left := 0, double_return_itr := 0, content_length_itr := 0\<rparr>"

definition client_new :: http_client where
  "client_new = client_reset \<lparr>parse_headers = False, parse_length = False, parse_body = False, content_length = [],
     left = 0, double_return_itr = 0, content_length_itr = 0, buffer = []\<rparr>"

section \<open>The loop\<close>

text \<open>The parts of the loop's body, up to the test of \<open>done\<close>.\<close>

definition match_content_length :: "http_client \<Rightarrow> char \<Rightarrow> http_client" where
  "match_content_length cl c =
     (if \<not> parse_headers cl then cl
      else if content_length_itr cl \<noteq> length CONTENT_LENGTH \<and> c = deref CONTENT_LENGTH (content_length_itr cl) then
        let cl1 = cl\<lparr>content_length_itr := content_length_itr cl + 1\<rparr> in
        if content_length_itr cl1 = length CONTENT_LENGTH then cl1\<lparr>parse_headers := False, parse_length := True\<rparr> else cl1
      else cl\<lparr>content_length_itr := 0\<rparr>)"

definition match_double_return :: "http_client \<Rightarrow> bool \<Rightarrow> char \<Rightarrow> http_client \<times> bool" where
  "match_double_return cl finished c =
     (if c = deref DOUBLE_RETURN (double_return_itr cl) then
        let cl1 = cl\<lparr>double_return_itr := double_return_itr cl + 1\<rparr> in
        if double_return_itr cl1 = length DOUBLE_RETURN
        then (if left cl1 \<noteq> 0 then (cl1\<lparr>parse_body := True\<rparr>, finished) else (cl1, True))
        else (cl1, finished)
      else (cl\<lparr>double_return_itr := 0\<rparr>, finished))"

text \<open>
  One turn: \<open>done\<close> as it comes out, and whether a \<open>continue\<close> skips the rest; or the exception that
  \<open>stoul\<close> throws.
\<close>

definition client_rest :: "http_client \<Rightarrow> bool \<Rightarrow> char \<Rightarrow> http_client \<times> (std_error + bool \<times> bool)" where
  "client_rest cl finished c =
     (let (cl1, finished1) = match_double_return (match_content_length cl c) finished c in (cl1, Inr (finished1, False)))"

definition client_length :: "http_client \<Rightarrow> bool \<Rightarrow> char \<Rightarrow> http_client \<times> (std_error + bool \<times> bool)" where
  "client_length cl finished c =
     (if parse_length cl then
        if \<not> isdigit c then
          (case stoul (content_length cl) of
             Inl x \<Rightarrow> (cl, Inl x)
           | Inr n \<Rightarrow> client_rest (cl\<lparr>left := n, parse_length := False\<rparr>) finished c)
        else (cl\<lparr>content_length := content_length cl @ [c]\<rparr>, Inr (finished, True))
      else client_rest cl finished c)"

definition client_byte :: "http_client \<Rightarrow> bool \<Rightarrow> char \<Rightarrow> http_client \<times> (std_error + bool \<times> bool)" where
  "client_byte cl finished c =
     (if parse_body cl then
        let cl1 = cl\<lparr>left := size_sub (left cl) 1\<rparr> in
        if left cl1 = 0 then client_length cl1 True c else (cl1, Inr (finished, True))
      else client_length cl finished c)"

text \<open>
  The loop with the bytes since \<open>begin\<close>, the strings collected so far, and the exception it may end
  with; bytes that are not in the buffer yet are lost then.
\<close>

fun client_loop :: "http_client \<Rightarrow> bool \<Rightarrow> string \<Rightarrow> string list \<Rightarrow> string \<Rightarrow> http_client \<times> string list \<times> std_error option" where
  "client_loop cl finished seg collected [] = (cl\<lparr>buffer := buffer cl @ seg\<rparr>, collected, None)"
| "client_loop cl finished seg collected (c # cs) =
     (case client_byte cl finished c of
        (cl1, Inl x) \<Rightarrow> (cl1, collected, Some x)
      | (cl1, Inr (finished1, skip)) \<Rightarrow>
          if \<not> skip \<and> finished1 then
            (if buffer cl1 \<noteq> []
             then client_loop (client_reset (cl1\<lparr>buffer := []\<rparr>)) False [] (collected @ [buffer cl1 @ seg @ [c]]) cs
             else client_loop (client_reset cl1) False [] (collected @ [seg @ [c]]) cs)
          else client_loop cl1 finished1 (seg @ [c]) collected cs)"

definition http_collected :: "http_client \<Rightarrow> string \<Rightarrow> http_client \<times> string list \<times> std_error option" where
  "http_collected cl m = (if m = [] then (cl, [], None) else client_loop cl False [] [] m)"

text \<open>
  \<open>http_client_t::stream_responses\<close>: the collect function acts on the application's state \<open>w\<close> and says
  whether it expects more; without a response that flag stays as it is.
\<close>

fun http_collect :: "('w \<Rightarrow> string \<Rightarrow> 'w \<times> bool) \<Rightarrow> 'w \<times> bool \<Rightarrow> string list \<Rightarrow> 'w \<times> bool" where
  "http_collect collect wm [] = wm"
| "http_collect collect wm (r # rs) = http_collect collect (collect (fst wm) r) rs"

definition http_stream_responses ::
  "('w \<Rightarrow> string \<Rightarrow> 'w \<times> bool) \<Rightarrow> http_client \<Rightarrow> 'w \<times> bool \<Rightarrow> string \<Rightarrow> http_client \<times> ('w \<times> bool) \<times> (std_error + nat)" where
  "http_stream_responses collect cl wm m =
     (case http_collected cl m of
        (cl', rs, Some x) \<Rightarrow> (cl', http_collect collect wm rs, Inl x)
      | (cl', rs, None) \<Rightarrow> (cl', http_collect collect wm rs, Inr (length rs)))"

section \<open>The byte machine\<close>

text \<open>The same machine with every byte in the buffer as soon as it comes.\<close>

definition client_step :: "http_client \<Rightarrow> char \<Rightarrow> (http_client \<times> string list) option" where
  "client_step cl c =
     (case client_byte cl False c of
        (cl1, Inl x) \<Rightarrow> None
      | (cl1, Inr (finished, skip)) \<Rightarrow>
          if finished then Some (client_reset (cl1\<lparr>buffer := []\<rparr>), [buffer cl @ [c]])
          else Some (cl1\<lparr>buffer := buffer cl @ [c]\<rparr>, []))"

definition client_feed :: "(http_client, char, std_error, string) feed" where
  "client_feed cl m = (case http_collected cl m of (cl', rs, Some x) \<Rightarrow> (cl', Inl x) | (cl', rs, None) \<Rightarrow> (cl', Inr rs))"

text \<open>A client is never in a body and in a length header at once, so \<open>continue\<close> never skips a finished response.\<close>

definition client_good :: "http_client \<Rightarrow> bool" where
  "client_good cl \<longleftrightarrow> \<not> (parse_body cl \<and> parse_length cl)"

lemmas client_byte_defs = client_byte_def client_length_def client_rest_def match_content_length_def
  match_double_return_def Let_def

lemma client_byte_buffer:
  "client_byte (cl\<lparr>buffer := b\<rparr>) f c = (case client_byte cl f c of (cl', r) \<Rightarrow> (cl'\<lparr>buffer := b\<rparr>, r))"
  by (simp add: client_byte_defs split: sum.split prod.split)

lemma client_byte_keeps_buffer: "client_byte cl f c = (cl', r) \<Longrightarrow> buffer cl' = buffer cl"
  by (auto simp: client_byte_defs split: sum.splits prod.splits if_splits)

lemma client_byte_skip:
  "client_good cl \<Longrightarrow> client_byte cl False c = (cl', Inr (f, True)) \<Longrightarrow> \<not> f"
  by (auto simp: client_good_def client_byte_defs split: sum.splits prod.splits if_splits)

lemma DOUBLE_RETURN_last: "i + 1 = length DOUBLE_RETURN \<Longrightarrow> deref DOUBLE_RETURN i = LF"
  by (simp add: DOUBLE_RETURN_def CRLF_def deref_def)

lemma CONTENT_LENGTH_last: "i + 1 = length CONTENT_LENGTH \<Longrightarrow> deref CONTENT_LENGTH i = CHR '' ''"
  by (simp add: CONTENT_LENGTH_def CRLF_def deref_def)

lemma client_byte_good:
  assumes "client_good cl" and "client_byte cl False c = (cl', Inr (f, s))" and "\<not> f"
  shows "client_good cl'"
proof -
  have lf: "c = LF \<Longrightarrow> c \<noteq> CHR '' ''" by (simp add: LF_def)
  show ?thesis
    using assms lf DOUBLE_RETURN_last [of "double_return_itr cl"] CONTENT_LENGTH_last [of "content_length_itr cl"]
    by (auto simp: client_good_def client_byte_defs LF_def split: sum.splits prod.splits if_splits)
qed

lemma client_step_good: "client_good cl \<Longrightarrow> client_step cl c = Some (cl', os) \<Longrightarrow> client_good cl'"
proof -
  assume g: "client_good cl" and st: "client_step cl c = Some (cl', os)"
  obtain cl1 r where b: "client_byte cl False c = (cl1, r)" by fastforce
  then obtain f s where r: "r = Inr (f, s)" using st by (cases r) (auto simp: client_step_def)
  show ?thesis
  proof (cases f)
    case True
    then show ?thesis using st b r by (auto simp: client_step_def client_good_def client_reset_def)
  next
    case False
    have "client_good cl1" using client_byte_good [OF g _ False] b r by simp
    then show ?thesis using st b r False by (auto simp: client_step_def client_good_def)
  qed
qed

lemma client_loop_run:
  "client_good cl \<Longrightarrow>
   (case client_loop cl False seg outs cs of (cl', rs, None) \<Rightarrow> Some (cl', rs) | (cl', rs, Some x) \<Rightarrow> None) =
   map_option (\<lambda>(s, os). (s, outs @ os)) (run client_step (cl\<lparr>buffer := buffer cl @ seg\<rparr>) cs)"
proof (induction cs arbitrary: cl seg outs)
  case (Cons c cs)
  obtain cl1 r where b: "client_byte cl False c = (cl1, r)" by fastforce
  have bb: "client_byte (cl\<lparr>buffer := buffer cl @ seg\<rparr>) False c = (cl1\<lparr>buffer := buffer cl @ seg\<rparr>, r)"
    by (simp add: client_byte_buffer b)
  note kb = client_byte_keeps_buffer [OF b]
  show ?case
  proof (cases r)
    case (Inl x)
    then show ?thesis using b bb by (simp add: client_step_def)
  next
    case (Inr q)
    then obtain f s where r: "r = Inr (f, s)" by (cases q) auto
    show ?thesis
    proof (cases f)
      case True
      then have s: "\<not> s" using client_byte_skip [OF Cons.prems] b r by (cases s) auto
      have g: "client_good (client_reset (cl1\<lparr>buffer := []\<rparr>))" by (simp add: client_good_def client_reset_def)
      have e: "buffer cl1 = [] \<Longrightarrow> client_reset cl1 = client_reset (cl1\<lparr>buffer := []\<rparr>)"
        by (simp add: client_reset_def)
      have lp: "client_loop cl False seg outs (c # cs) =
          client_loop (client_reset (cl1\<lparr>buffer := []\<rparr>)) False [] (outs @ [buffer cl @ seg @ [c]]) cs"
        using b r True s kb e by auto
      have st: "client_step (cl\<lparr>buffer := buffer cl @ seg\<rparr>) c =
          Some (client_reset (cl1\<lparr>buffer := []\<rparr>), [buffer cl @ seg @ [c]])"
        using bb r True by (simp add: client_step_def)
      have "(client_reset (cl1\<lparr>buffer := []\<rparr>))\<lparr>buffer := buffer (client_reset (cl1\<lparr>buffer := []\<rparr>)) @ []\<rparr> =
          client_reset (cl1\<lparr>buffer := []\<rparr>)" by simp
      then show ?thesis
        unfolding lp Cons.IH [OF g] using st
        by (cases "run client_step (client_reset (cl1\<lparr>buffer := []\<rparr>)) cs") auto
    next
      case False
      have g: "client_good cl1" using client_byte_good [OF Cons.prems _ False] b r by simp
      have lp: "client_loop cl False seg outs (c # cs) = client_loop cl1 False (seg @ [c]) outs cs"
        using b r False by simp
      have st: "client_step (cl\<lparr>buffer := buffer cl @ seg\<rparr>) c = Some (cl1\<lparr>buffer := buffer cl1 @ seg @ [c]\<rparr>, [])"
        using bb r False kb by (simp add: client_step_def)
      show ?thesis
        unfolding lp Cons.IH [OF g] using st
        by (cases "run client_step (cl1\<lparr>buffer := buffer cl1 @ seg @ [c]\<rparr>) cs") auto
    qed
  qed
qed simp

interpretation client: byte_refined client_feed client_good client_step
proof unfold_locales
  fix cl xs
  assume g: "client_good cl"
  have "outcome (\<lambda>s. s) (client_feed cl xs) =
      (case client_loop cl False [] [] xs of (cl', rs, None) \<Rightarrow> Some (cl', rs) | (cl', rs, Some x) \<Rightarrow> None)"
    by (auto simp: client_feed_def http_collected_def split: prod.split option.split)
  also have "\<dots> = map_option (\<lambda>(s, os). (s, [] @ os)) (run client_step (cl\<lparr>buffer := buffer cl @ []\<rparr>) xs)"
    by (rule client_loop_run [OF g])
  also have "\<dots> = run client_step cl xs" by (cases "run client_step cl xs") auto
  finally show "outcome (\<lambda>s. s) (client_feed cl xs) = run client_step cl xs" .
qed (rule client_step_good)

section \<open>Reading what a server writes\<close>

text \<open>The client among the headers, behind the name of the length header, and after its value.\<close>

definition seeking :: "nat \<Rightarrow> nat \<Rightarrow> string \<Rightarrow> http_client" where
  "seeking d i b = \<lparr>parse_headers = True, parse_length = False, parse_body = False, content_length = [],
     left = 0, double_return_itr = d, content_length_itr = i, buffer = b\<rparr>"

definition counting :: "bool \<Rightarrow> string \<Rightarrow> nat \<Rightarrow> nat \<Rightarrow> string \<Rightarrow> http_client" where
  "counting pl ds n d b = \<lparr>parse_headers = False, parse_length = pl, parse_body = False, content_length = ds,
     left = n, double_return_itr = d, content_length_itr = length CONTENT_LENGTH, buffer = b\<rparr>"

lemma client_new_seeking: "client_new = seeking 0 0 []"
  by (simp add: client_new_def client_reset_def seeking_def)

lemma reset_seeking: "buffer cl = [] \<Longrightarrow> client_reset cl = seeking 0 0 []"
  by (cases cl) (simp add: client_reset_def seeking_def)

lemma CONTENT_LENGTH_length [simp]: "length CONTENT_LENGTH = 18"
  by (simp add: CONTENT_LENGTH_def CRLF_def)

lemma DOUBLE_RETURN_length [simp]: "length DOUBLE_RETURN = 4"
  by (simp add: DOUBLE_RETURN_def CRLF_def)

lemma step_seeking:
  assumes "i < 18" and "d < 3"
  shows "client_step (seeking d i b) c =
    (let i' = if c = CONTENT_LENGTH ! i then i + 1 else 0;
         d' = if c = DOUBLE_RETURN ! d then d + 1 else 0
     in Some (if i' = 18 then counting True [] 0 d' (b @ [c]) else seeking d' i' (b @ [c]), []))"
  using assms
  by (auto simp: client_step_def client_byte_defs seeking_def counting_def deref_def)

lemma text_run: "CR \<notin> set xs \<Longrightarrow> run client_step (seeking 0 0 b) xs = Some (seeking 0 0 (b @ xs), [])"
proof (induction xs arbitrary: b)
  case (Cons x xs)
  have "CONTENT_LENGTH ! 0 = CR" "DOUBLE_RETURN ! 0 = CR" by (simp_all add: CONTENT_LENGTH_def DOUBLE_RETURN_def CRLF_def)
  then have "client_step (seeking 0 0 b) x = Some (seeking 0 0 (b @ [x]), [])"
    using Cons.prems by (auto simp: step_seeking)
  then show ?case using Cons.IH [of "b @ [x]"] Cons.prems by simp
qed simp

lemma crlf_run: "run client_step (seeking 0 0 b) CRLF = Some (seeking 2 2 (b @ CRLF), [])"
  by (simp add: CRLF_def step_seeking) (simp add: CONTENT_LENGTH_def DOUBLE_RETURN_def CRLF_def CR_def LF_def numeral_2_eq_2)

text \<open>A header line with another name leaves the pattern somewhere.\<close>

fun diverges :: "string \<Rightarrow> string \<Rightarrow> bool" where
  "diverges (x # xs) (y # ys) = (x \<noteq> y \<or> diverges xs ys)"
| "diverges _ _ = False"

lemma header_diverges:
  "CHR '':'' \<notin> set k \<Longrightarrow> CHR '':'' \<notin> set w \<Longrightarrow> k \<noteq> w \<Longrightarrow> diverges (k @ CHR '':'' # a) (w @ CHR '':'' # b)"
proof (induction k arbitrary: w)
  case Nil
  then show ?case by (cases w) auto
next
  case (Cons x k)
  then show ?case by (cases w) auto
qed

lemma step_in_line:
  assumes "2 \<le> i" "i < 18" "d = 0 \<or> d = 2" "c \<noteq> CR"
  shows "client_step (seeking d i b) c =
    Some (if c \<noteq> CONTENT_LENGTH ! i then seeking 0 0 (b @ [c])
          else if i = 17 then counting True [] 0 0 (b @ [c]) else seeking 0 (i + 1) (b @ [c]), [])"
proof -
  have "DOUBLE_RETURN ! d = CR" using assms(3) by (auto simp: DOUBLE_RETURN_def CRLF_def)
  moreover have "d < 3" using assms(3) by auto
  ultimately show ?thesis using assms(1,2,4) by (auto simp: step_seeking)
qed

lemma diverging_run:
  "diverges xs (drop i CONTENT_LENGTH) \<Longrightarrow> CR \<notin> set xs \<Longrightarrow> 2 \<le> i \<Longrightarrow> d = 0 \<or> d = 2 \<Longrightarrow>
   run client_step (seeking d i b) xs = Some (seeking 0 0 (b @ xs), [])"
proof (induction xs arbitrary: i d b)
  case (Cons x xs)
  have i: "i < 18"
  proof (rule ccontr)
    assume "\<not> i < 18"
    then have "drop i CONTENT_LENGTH = []" by simp
    then show False using Cons.prems(1) by simp
  qed
  then have dr: "drop i CONTENT_LENGTH = CONTENT_LENGTH ! i # drop (Suc i) CONTENT_LENGTH"
    by (simp add: Cons_nth_drop_Suc)
  show ?case
  proof (cases "x = CONTENT_LENGTH ! i")
    case False
    then have "client_step (seeking d i b) x = Some (seeking 0 0 (b @ [x]), [])"
      using step_in_line [OF Cons.prems(3) i Cons.prems(4)] Cons.prems(2) by auto
    then show ?thesis using text_run Cons.prems(2) by simp
  next
    case True
    then have dv: "diverges xs (drop (Suc i) CONTENT_LENGTH)" using Cons.prems(1) dr by simp
    then have "i \<noteq> 17" by auto
    then have "client_step (seeking d i b) x = Some (seeking 0 (Suc i) (b @ [x]), [])"
      using step_in_line [OF Cons.prems(3) i Cons.prems(4)] Cons.prems(2) True by auto
    then show ?thesis using Cons.IH [OF dv, of 0 "b @ [x]"] Cons.prems(2,3) by simp
  qed
qed simp

lemma header_run:
  assumes "plain_header kv" "fst kv \<noteq> ''Content-Length''"
  shows "run client_step (seeking 2 2 b) (header_line kv) = Some (seeking 2 2 (b @ header_line kv), [])"
proof -
  let ?l = "fst kv @ '': '' @ snd kv"
  have "diverges (fst kv @ CHR '':'' # CHR '' '' # snd kv) (''Content-Length'' @ CHR '':'' # '' '')"
    using assms by (intro header_diverges) (simp_all add: plain_header_def)
  moreover have "drop 2 CONTENT_LENGTH = ''Content-Length'' @ CHR '':'' # '' ''" by (simp add: CONTENT_LENGTH_def CRLF_def)
  ultimately have "diverges ?l (drop 2 CONTENT_LENGTH)" by simp
  moreover have "CR \<notin> set ?l" using assms(1) by (auto simp: plain_header_def CR_def)
  ultimately have "run client_step (seeking 2 2 b) ?l = Some (seeking 0 0 (b @ ?l), [])" by (intro diverging_run) auto
  then have "run client_step (seeking 2 2 b) (?l @ CRLF) = Some (seeking 2 2 ((b @ ?l) @ CRLF), [])"
    using crlf_run [of "b @ ?l"] by (simp only: run_append) simp
  then show ?thesis by (simp add: header_line_def)
qed

lemma name_run:
  "2 \<le> i \<Longrightarrow> i < 18 \<Longrightarrow> d = 0 \<or> d = 2 \<Longrightarrow> CR \<notin> set (drop i CONTENT_LENGTH) \<Longrightarrow>
   run client_step (seeking d i b) (drop i CONTENT_LENGTH) = Some (counting True [] 0 0 (b @ drop i CONTENT_LENGTH), [])"
proof (induction "18 - i" arbitrary: i d b)
  case (Suc n)
  have dr: "drop i CONTENT_LENGTH = CONTENT_LENGTH ! i # drop (Suc i) CONTENT_LENGTH"
    using Suc.prems(2) by (simp add: Cons_nth_drop_Suc)
  then have st: "client_step (seeking d i b) (CONTENT_LENGTH ! i) =
      Some (if i = 17 then counting True [] 0 0 (b @ [CONTENT_LENGTH ! i]) else seeking 0 (i + 1) (b @ [CONTENT_LENGTH ! i]), [])"
    using step_in_line [OF Suc.prems(1-3)] Suc.prems(4) by auto
  show ?case
  proof (cases "i = 17")
    case True
    then show ?thesis using st dr by simp
  next
    case False
    then have "run client_step (seeking 0 (Suc i) (b @ [CONTENT_LENGTH ! i])) (drop (Suc i) CONTENT_LENGTH) =
        Some (counting True [] 0 0 ((b @ [CONTENT_LENGTH ! i]) @ drop (Suc i) CONTENT_LENGTH), [])"
      using Suc dr by (intro Suc.hyps(1)) auto
    then show ?thesis using st dr False by simp
  qed
qed simp

lemma digits_run:
  "(\<And>c. c \<in> set ds \<Longrightarrow> isdigit c) \<Longrightarrow>
   run client_step (counting True es 0 0 b) ds = Some (counting True (es @ ds) 0 0 (b @ ds), [])"
proof (induction ds arbitrary: es b)
  case (Cons c ds)
  have "client_step (counting True es 0 0 b) c = Some (counting True (es @ [c]) 0 0 (b @ [c]), [])"
    using Cons.prems by (simp add: client_step_def client_byte_defs counting_def)
  then show ?case using Cons.IH [of "es @ [c]" "b @ [c]"] Cons.prems by simp
qed simp

lemma not_digit: "\<not> isdigit CR" "\<not> isdigit LF"
  by (simp_all add: isdigit_def CR_def LF_def)

text \<open>The end of the headers: the client is in the body, or done if the length is 0.\<close>

lemma headers_end_run:
  assumes "stoul ds = Inr n"
  shows "run client_step (counting True ds 0 0 b) (CRLF @ CRLF) =
    Some (if n = 0 then (seeking 0 0 [], [b @ CRLF @ CRLF])
          else ((counting False ds n 4 (b @ CRLF @ CRLF))\<lparr>parse_body := True\<rparr>, []))"
proof -
  have "client_step (counting True ds 0 0 b) CR = Some (counting False ds n 1 (b @ [CR]), [])"
    using assms not_digit by (simp add: client_step_def client_byte_defs counting_def deref_def DOUBLE_RETURN_def CRLF_def)
  moreover have "client_step (counting False ds n 1 e) LF = Some (counting False ds n 2 (e @ [LF]), [])" for e
    by (simp add: client_step_def client_byte_defs counting_def deref_def DOUBLE_RETURN_def CRLF_def)
  moreover have "client_step (counting False ds n 2 e) CR = Some (counting False ds n 3 (e @ [CR]), [])" for e
    by (simp add: client_step_def client_byte_defs counting_def deref_def DOUBLE_RETURN_def CRLF_def)
  moreover have "client_step (counting False ds n 3 e) LF =
      Some (if n = 0 then (seeking 0 0 [], [e @ [LF]]) else ((counting False ds n 4 (e @ [LF]))\<lparr>parse_body := True\<rparr>, []))" for e
    by (simp add: client_step_def client_byte_defs counting_def deref_def DOUBLE_RETURN_def CRLF_def reset_seeking)
  ultimately show ?thesis by (simp add: CRLF_def)
qed

lemma body_run:
  "length bs = n \<Longrightarrow> 0 < n \<Longrightarrow> n < size_range \<Longrightarrow>
   run client_step ((counting False ds n 4 b)\<lparr>parse_body := True\<rparr>) bs = Some (seeking 0 0 [], [b @ bs])"
proof (induction bs arbitrary: n b)
  case (Cons x bs)
  show ?case
  proof (cases bs)
    case Nil
    then have n: "n = 1" using Cons.prems by simp
    have "client_step ((counting False ds n 4 b)\<lparr>parse_body := True\<rparr>) x = Some (seeking 0 0 [], [b @ [x]])"
      using n Cons.prems by (auto simp: client_step_def client_byte_defs counting_def deref_def reset_seeking)
    then show ?thesis using Nil by simp
  next
    case (Cons y ys)
    have "size_sub n 1 = n - 1" using Cons.prems by simp
    then have "client_step ((counting False ds n 4 b)\<lparr>parse_body := True\<rparr>) x =
        Some ((counting False ds (n - 1) 4 (b @ [x]))\<lparr>parse_body := True\<rparr>, [])"
      using Cons.prems Cons by (auto simp: client_step_def client_byte_defs counting_def)
    moreover have "run client_step ((counting False ds (n - 1) 4 (b @ [x]))\<lparr>parse_body := True\<rparr>) bs =
        Some (seeking 0 0 [], [(b @ [x]) @ bs])"
      using Cons.prems Cons by (intro Cons.IH) auto
    ultimately show ?thesis by simp
  qed
qed simp

lemma run_seq:
  "run step s xs = Some (s1, []) \<Longrightarrow> run step s1 ys = Some (s2, os) \<Longrightarrow> run step s (xs @ ys) = Some (s2, os)"
  by (simp add: run_append)

lemma headers_run:
  "\<forall>kv \<in> set hs. plain_header kv \<and> fst kv \<noteq> ''Content-Length'' \<Longrightarrow>
   run client_step (seeking 2 2 b) (concat (map header_line hs)) = Some (seeking 2 2 (b @ concat (map header_line hs)), [])"
proof (induction hs arbitrary: b)
  case (Cons kv hs)
  have "run client_step (seeking 2 2 b) (header_line kv @ concat (map header_line hs)) =
      Some (seeking 2 2 ((b @ header_line kv) @ concat (map header_line hs)), [])"
    using Cons by (intro run_seq [OF header_run]) auto
  then show ?case by simp
qed simp

lemma response_run:
  assumes "rsp_plain r"
  shows "run client_step client_new (rsp_to_string r) = Some (client_new, [rsp_to_string r])"
proof -
  let ?hs = "filter (\<lambda>kv. fst kv \<noteq> ''Content-Length'') (headers r)" and ?n = "length (body r)"
  let ?l = "version r @ '' '' @ to_dec (unat (code r)) @ '' '' @ message r"
  let ?h = "concat (map header_line ?hs)"
  have "CR \<notin> set (to_dec (unat (code r)))" using to_dec_digits by (force simp: isdigit_def CR_def)
  moreover have "CR \<notin> set (version r)" using assms by (auto simp: rsp_plain_def SUPPORTED_VERSIONS_def CR_def)
  ultimately have "CR \<notin> set ?l" using assms by (auto simp: rsp_plain_def CR_def)
  note line = run_seq [OF text_run [OF this, of "[]"] crlf_run]
  have hs: "\<forall>kv \<in> set ?hs. plain_header kv \<and> fst kv \<noteq> ''Content-Length''" using assms by (auto simp: rsp_plain_def)
  have nm: "drop 2 CONTENT_LENGTH = ''Content-Length: ''" by (simp add: CONTENT_LENGTH_def CRLF_def)
  have "CR \<notin> set (drop 2 CONTENT_LENGTH)" unfolding nm by (simp add: CR_def)
  then have name: "run client_step (seeking 2 2 b) (drop 2 CONTENT_LENGTH) = Some (counting True [] 0 0 (b @ drop 2 CONTENT_LENGTH), [])" for b
    by (intro name_run) auto
  have dg: "run client_step (counting True [] 0 0 b) (to_dec ?n) = Some (counting True (to_dec ?n) 0 0 (b @ to_dec ?n), [])" for b
    using digits_run [of "to_dec ?n" "[]" b] to_dec_digits by simp
  have "stoul (to_dec ?n) = Inr ?n" using assms by (simp add: rsp_plain_def)
  note fin = headers_end_run [OF this]
  let ?b = "(?l @ CRLF) @ ?h @ drop 2 CONTENT_LENGTH @ to_dec ?n"
  have "run client_step (seeking 0 0 []) ?b =
      Some (counting True (to_dec ?n) 0 0 ((((([] @ ?l) @ CRLF) @ ?h) @ drop 2 CONTENT_LENGTH) @ to_dec ?n), [])"
    by (rule run_seq [OF line run_seq [OF headers_run [OF hs] run_seq [OF name dg]]])
  then have head: "run client_step (seeking 0 0 []) ?b = Some (counting True (to_dec ?n) 0 0 ?b, [])" by simp
  define B where "B = ?b"
  have str: "rsp_to_string r = B @ (CRLF @ CRLF) @ body r"
    unfolding B_def nm by (simp add: rsp_to_string_def rsp_generic_def)
  note head = head [folded B_def]
  show ?thesis
  proof (cases "body r = []")
    case True
    then have "run client_step (counting True (to_dec ?n) 0 0 B) (CRLF @ CRLF) = Some (seeking 0 0 [], [B @ CRLF @ CRLF])"
      using fin [of B] by simp
    from run_seq [OF head this] show ?thesis using True by (simp add: str client_new_seeking)
  next
    case False
    then have "run client_step ((counting False (to_dec ?n) ?n 4 (B @ CRLF @ CRLF))\<lparr>parse_body := True\<rparr>) (body r) =
        Some (seeking 0 0 [], [(B @ CRLF @ CRLF) @ body r])"
      using assms by (intro body_run) (auto simp: rsp_plain_def)
    moreover have "run client_step (counting True (to_dec ?n) 0 0 B) (CRLF @ CRLF) =
        Some ((counting False (to_dec ?n) ?n 4 (B @ CRLF @ CRLF))\<lparr>parse_body := True\<rparr>, [])"
      using fin [of B] False by simp
    ultimately have "run client_step (seeking 0 0 []) (B @ (CRLF @ CRLF) @ body r) =
        Some (seeking 0 0 [], [(B @ CRLF @ CRLF) @ body r])"
      by (intro run_seq [OF head run_seq])
    then show ?thesis unfolding str client_new_seeking by simp
  qed
qed

lemma responses_run:
  "\<forall>r \<in> set rps. rsp_plain r \<Longrightarrow>
   run client_step client_new (concat (map rsp_to_string rps)) = Some (client_new, map rsp_to_string rps)"
  by (induction rps) (simp_all add: run_append response_run)

lemma responses_collected:
  assumes "\<forall>r \<in> set rps. rsp_plain r" and "concat pieces = concat (map rsp_to_string rps)"
  shows "feed_all client_feed client_new pieces = (client_new, Inr (map rsp_to_string rps))"
proof -
  have g: "client_good client_new" by (simp add: client_new_seeking seeking_def client_good_def)
  have "outcome (\<lambda>s. s) (client_feed client_new (concat pieces)) = Some (client_new, map rsp_to_string rps)"
    using responses_run [OF assms(1)] client.feed_run [OF g] assms(2) by simp
  then show ?thesis using client.chunks.feed_all_concat [OF g, of pieces] by simp
qed

section \<open>Properties\<close>

text \<open>
  The client does not depend on how the stream is cut into pieces: piece by piece or in one call,
  the same strings are collected, the same state is left behind, and the same streams make it throw.
\<close>

theorem http_client_chunking:
  assumes "client_good cl"
  shows "outcome (\<lambda>s. s) (feed_all client_feed cl pieces) = outcome (\<lambda>s. s) (client_feed cl (concat pieces))"
  by (rule client.chunks.feed_all_concat [OF assms])

theorem http_client_chunking_witness:
  "outcome (\<lambda>s. s) (feed_all client_feed client_new [''HTTP/1.1 200 OK'' @ [CR], [LF, CR], [LF] @ ''HT'']) =
   outcome (\<lambda>s. s) (client_feed client_new (concat [''HTTP/1.1 200 OK'' @ [CR], [LF, CR], [LF] @ ''HT'']))"
  by (rule http_client_chunking) (simp add: client_new_seeking seeking_def client_good_def)

text \<open>
  C14. What a server writes is collected whole: any sequence of responses with plain headers, cut
  anywhere on the way, is handed to the collect function as exactly the strings that were sent, in
  order, and the client is back in its initial state.
\<close>

theorem http_client_collects:
  assumes "\<forall>r \<in> set rps. rsp_plain r" and "concat pieces = concat (map rsp_to_string rps)"
  shows "feed_all client_feed client_new pieces = (client_new, Inr (map rsp_to_string rps))"
  by (rule responses_collected [OF assms])

theorem http_client_collects_witness:
  "feed_all client_feed client_new
     [''HTTP/1.1 200 OK'' @ CRLF @ ''A: b'' @ [CR], [LF] @ ''Content-Length: 2'' @ CRLF @ CRLF @ ''h'', ''i''] =
   (client_new, Inr (map rsp_to_string [rsp_make 200 ''OK'' ''hi'' [(''A'', ''b'')] ''HTTP/1.1'']))"
proof (rule http_client_collects)
  show "\<forall>r \<in> set [rsp_make 200 ''OK'' ''hi'' [(''A'', ''b'')] ''HTTP/1.1'']. rsp_plain r"
    by (simp add: rsp_plain_def rsp_make_def http_entity_make_def http_entity.defs plain_header_def
        SUPPORTED_VERSIONS_def hdr_wf_def caseless_eq_def eval_simps)
qed (simp add: rsp_to_string_def rsp_generic_def rsp_make_def http_entity_make_def http_entity.defs
      header_line_def eval_simps)

end
