(* ===== verification/Client.thy ===== *)
theory Client
  imports Sockets Netstring Http_Client
begin

text \<open>
  \<open>client_t::batch\<close> of \<open>prime_server.cpp\<close>, the loop both clients share: it sends up to a batch of
  requests, then receives until a batch of responses has come or the application wants no more. What
  a client makes of the bytes it receives, the virtual \<open>stream_responses\<close>, is an interface that the
  HTTP and the netstring client implement.
\<close>

section \<open>State\<close>

text \<open>\<open>'c\<close> is the state of the parser of responses, \<open>'w\<close> that of the application.\<close>

record ('c, 'w) client = "unit io" +
  parser :: 'c
  app :: 'w

type_synonym ('c, 'w) response_streamer =
  "('w \<Rightarrow> string \<Rightarrow> 'w \<times> bool) \<Rightarrow> 'c \<Rightarrow> 'w \<times> bool \<Rightarrow> string \<Rightarrow> 'c \<times> ('w \<times> bool) \<times> (exn + nat)"

record ('c, 'w) client_config = "unit world" +
  request_function :: "'w \<Rightarrow> 'w \<times> (exn + string)"
  collect_function :: "'w \<Rightarrow> string \<Rightarrow> 'w \<times> bool"
  stream_responses :: "('c, 'w) response_streamer"
  batch_size :: nat
  stopping :: "unit event list \<Rightarrow> bool"

type_synonym ('c, 'w, 'a) batching = "(('c, 'w) client, exn, 'a) action"

section \<open>Operations\<close>

text \<open>A \<open>try\<close> block in a loop: after a standard exception the loop goes on with \<open>d\<close>.\<close>

definition catch_value :: "string \<Rightarrow> (('c, 'w) client \<Rightarrow> 'a) \<Rightarrow> ('c, 'w, 'a) batching \<Rightarrow> ('c, 'w, 'a) batching" where
  "catch_value who d m s =
     (case m s of
        (s', Inl (Std x)) \<Rightarrow> (note_event (Complained who) s', Inr (d s'))
      | (s', Inl (Interrupted n)) \<Rightarrow> (note_event (Complained who) s', Inr (d s'))
      | (s', r) \<Rightarrow> (s', r))"

definition next_request :: "('c, 'w, 'z) client_config_scheme \<Rightarrow> ('c, 'w, string) batching" where
  "next_request cf s = (case request_function cf (app s) of (w, r) \<Rightarrow> (s\<lparr>app := w\<rparr>, r))"

text \<open>One turn of the request loop; it ends with an empty request.\<close>

definition request_one :: "('c, 'w, 'z) client_config_scheme \<Rightarrow> string \<Rightarrow> ('c, 'w, bool) batching" where
  "request_one cf identity =
     catch_value ''client_t'' (\<lambda>_. True)
       (bnd (next_request cf) (\<lambda>request.
          if request = [] then ret False
          else bnd (send_two cf SERVER (Bytes identity) (Bytes request)) (\<lambda>ok.
            bnd (if ok then ret () else complain ''Client failed to send request'') (\<lambda>_. ret True))))"

fun request_some :: "('c, 'w, 'z) client_config_scheme \<Rightarrow> string \<Rightarrow> nat \<Rightarrow> ('c, 'w, unit) batching" where
  "request_some cf identity 0 = ret ()"
| "request_some cf identity (Suc n) =
     bnd (request_one cf identity) (\<lambda>go. if go then request_some cf identity n else ret ())"

text \<open>
  One turn of the receive loop on what \<open>recv_all\<close> gives: the number of responses so far and the
  application's \<open>more\<close>, which \<open>stream_responses\<close> assigns through a reference. A message has an
  identity frame and a data frame.
\<close>

definition stream_message ::
  "('c, 'w, 'z) client_config_scheme \<Rightarrow> nat \<Rightarrow> bool \<Rightarrow> string \<Rightarrow> ('c, 'w) client \<Rightarrow> ('c, 'w) client \<times> bool \<times> (exn + nat)" where
  "stream_message cf current_batch mr data s =
     (case stream_responses cf (collect_function cf) (parser s) (app s, mr) data of
        (c, (w, mr'), r) \<Rightarrow> (s\<lparr>parser := c, app := w\<rparr>, mr', map_sum id (\<lambda>n. current_batch + n) r))"

definition receive_one ::
  "('c, 'w, 'z) client_config_scheme \<Rightarrow> nat \<Rightarrow> bool \<Rightarrow> std_error + string list \<Rightarrow> ('c, 'w, nat \<times> bool) batching" where
  "receive_one cf current_batch mr received s =
     (case received of
        Inl e \<Rightarrow> catch_value ''client_t'' (\<lambda>_. (current_batch, mr)) (raise (Std e)) s
      | Inr (_ # data # _) \<Rightarrow>
          (case stream_message cf current_batch mr data s of
             (s', mr', Inl x) \<Rightarrow> catch_value ''client_t'' (\<lambda>_. (current_batch, mr')) (raise x) s'
           | (s', mr', Inr n) \<Rightarrow> (s', Inr (n, mr')))
      | Inr _ \<Rightarrow> (s, Inl Undefined))"

text \<open>
  The receive loop over what is still to arrive; \<open>None\<close> is a client that waits for a message that
  does not come.
\<close>

type_synonym arrivals = "(std_error + string list) list"

fun receive_some ::
  "('c, 'w, 'z) client_config_scheme \<Rightarrow> nat \<Rightarrow> bool \<Rightarrow> arrivals \<Rightarrow> ('c, 'w, (bool \<times> arrivals) option) batching" where
  "receive_some cf n mr [] = (if n < batch_size cf then ret None else ret (Some (mr, [])))"
| "receive_some cf n mr (m # ms) =
     (if n < batch_size cf then
        bnd (receive_one cf n mr m) (\<lambda>(n', mr'). if mr' then receive_some cf n' mr' ms else ret (Some (mr', ms)))
      else ret (Some (mr, m # ms)))"

lemma receive_some_shorter:
  "receive_some cf n mr ms s = (s', Inr (Some (mr', rest))) \<Longrightarrow>
   length rest \<le> length ms \<and> (mr' \<longrightarrow> \<not> mr \<longrightarrow> length rest < length ms)"
proof (induction ms arbitrary: n mr s)
  case (Cons m ms)
  show ?case
  proof (cases "n < batch_size cf")
    case False
    then show ?thesis using Cons.prems by (auto simp: ret_def)
  next
    case True
    then obtain s1 n1 mr1 where "receive_one cf n mr m s = (s1, Inr (n1, mr1))"
        "(if mr1 then receive_some cf n1 mr1 ms else ret (Some (mr1, ms))) s1 = (s', Inr (Some (mr', rest)))"
      using Cons.prems by (auto simp: bnd_Inr)
    then show ?thesis using Cons.IH [of n1 mr1 s1] by (cases mr1) (auto simp: ret_def)
  qed
qed (auto simp: ret_def split: if_splits)

text \<open>
  The outer loop: requests, responses, and again while the application expects more. It ends with
  \<open>True\<close>, or with \<open>False\<close> when it waits for ever. Every turn that is not the last receives something.
\<close>

function batch_loop :: "('c, 'w, 'z) client_config_scheme \<Rightarrow> string \<Rightarrow> arrivals \<Rightarrow> ('c, 'w, bool) batching" where
  "batch_loop cf identity ins s =
     (case request_some cf identity (batch_size cf) s of
        (s1, Inl x) \<Rightarrow> (s1, Inl x)
      | (s1, Inr _) \<Rightarrow>
          (case receive_some cf 0 False ins s1 of
             (s2, Inl x) \<Rightarrow> (s2, Inl x)
           | (s2, Inr None) \<Rightarrow> (s2, Inr False)
           | (s2, Inr (Some (mr, rest))) \<Rightarrow>
               if mr \<and> \<not> stopping cf (events s2) then batch_loop cf identity rest s2 else (s2, Inr True)))"
  by pat_completeness auto
termination
  by (relation "measure (\<lambda>(cf, identity, ins, s). length ins)")
    (auto dest!: receive_some_shorter [OF sym])

declare batch_loop.simps [simp del]

text \<open>\<open>batch\<close> first swallows the message that says that the connection is there.\<close>

definition batch ::
  "('c, 'w, 'z) client_config_scheme \<Rightarrow> string list \<Rightarrow> string \<Rightarrow> arrivals \<Rightarrow> ('c, 'w, bool) batching" where
  "batch cf connection identity ins =
     (if length connection \<noteq> 2 \<or> hd connection = [] \<or> last connection \<noteq> []
      then raise (Std (Logic_error ''Connection should have garnered an identity frame followed by a blank message''))
      else batch_loop cf identity ins)"

section \<open>The two clients\<close>

definition http_streamer :: "(http_client, 'w) response_streamer" where
  "http_streamer collect cl wm m =
     (case http_stream_responses collect cl wm m of (cl', wm', r) \<Rightarrow> (cl', wm', map_sum Std id r))"

text \<open>The netstring parser's exceptions do not derive from \<open>std::exception\<close>.\<close>

definition netstring_streamer :: "(netstring_entity, 'w) response_streamer" where
  "netstring_streamer collect e wm m =
     (case ns_stream_responses collect e wm m of (e', wm', r) \<Rightarrow> (e', wm', map_sum (\<lambda>_. Foreign) id r))"

text \<open>
  What a client owes the loop: it hands some strings to the collect function, in order, and answers
  how many; \<open>more\<close> is what the collect function said last, and stays as it was if there was none.
\<close>

locale response_client =
  fixes stream :: "('c, 'w) response_streamer"
  assumes stream_collects: "\<exists>c' rs r. stream collect c wm m = (c', http_collect collect wm rs, r) \<and>
      (\<forall>n. r = Inr n \<longrightarrow> n = length rs)"
begin

lemma nothing_collected: "stream collect c wm m = (c', wm', Inr 0) \<Longrightarrow> wm' = wm"
  using stream_collects [of collect c wm m] by auto

text \<open>A message that completes no response ends the receive loop, whatever is still to come.\<close>

lemma receive_gives_up:
  assumes "stream_responses cf = stream" "0 < batch_size cf"
    and "stream (collect_function cf) (parser s) (app s, False) data = (c', wm', Inr 0)"
  shows "receive_some cf 0 False (Inr (a # data # fs) # rest) s = (s\<lparr>parser := c'\<rparr>, Inr (Some (False, rest)))"
proof -
  have "wm' = (app s, False)" by (rule nothing_collected [OF assms(3)])
  then show ?thesis
    using assms by (simp add: receive_one_def stream_message_def bnd_def ret_def)
qed

lemma batch_gives_up:
  assumes "stream_responses cf = stream" "0 < batch_size cf"
    and "request_some cf identity (batch_size cf) s = (s1, Inr ())"
    and "stream (collect_function cf) (parser s1) (app s1, False) data = (c', wm', Inr 0)"
  shows "batch_loop cf identity (Inr (a # data # fs) # rest) s = (s1\<lparr>parser := c'\<rparr>, Inr True)"
  using assms(3) receive_gives_up [OF assms(1,2,4), of a fs rest]
  by (simp add: batch_loop.simps [of cf identity])

end

lemma ns_collect_http: "ns_collect collect wm rs = http_collect collect wm (map (\<lambda>r. ns_string (ns_body r)) rs)"
proof (induction rs arbitrary: wm)
  case Nil
  then show ?case by (cases wm) simp
next
  case (Cons r rs)
  then show ?case by (cases wm) simp
qed

interpretation http_client: response_client http_streamer
proof
  fix collect :: "'w \<Rightarrow> string \<Rightarrow> 'w \<times> bool" and c wm m
  obtain cl rs x where "http_collected c m = (cl, rs, x)" by (cases "http_collected c m") auto
  then show "\<exists>c' rs r. http_streamer collect c wm m = (c', http_collect collect wm rs, r) \<and>
      (\<forall>n. r = Inr n \<longrightarrow> n = length rs)"
    by (cases x) (auto simp: http_streamer_def http_stream_responses_def intro!: exI [of _ rs])
qed

interpretation netstring_client: response_client netstring_streamer
proof
  fix collect :: "'w \<Rightarrow> string \<Rightarrow> 'w \<times> bool" and c wm m
  obtain e r where s: "ns_from_stream SIZE_MAX c m = (e, r)" by fastforce
  show "\<exists>c' rs r. netstring_streamer collect c wm m = (c', http_collect collect wm rs, r) \<and>
      (\<forall>n. r = Inr n \<longrightarrow> n = length rs)"
  proof (cases r)
    case (Inl x)
    then show ?thesis
      using s by (auto simp: netstring_streamer_def ns_stream_responses_def intro!: exI [of _ "[]"])
  next
    case (Inr es)
    then show ?thesis
      using s by (auto simp: netstring_streamer_def ns_stream_responses_def ns_collect_http
          intro!: exI [of _ "map (\<lambda>r. ns_string (ns_body r)) es"])
  qed
qed

section \<open>Properties\<close>

text \<open>An application that keeps the responses and expects \<open>n\<close> of them, and sends one request.\<close>

definition keep :: "nat \<Rightarrow> string list \<Rightarrow> string \<Rightarrow> string list \<times> bool" where
  "keep n w r = (w @ [r], length w + 1 < n)"

definition keeper :: "nat \<Rightarrow> nat \<Rightarrow> (http_client, string list) client_config" where
  "keeper bs n = \<lparr>net = (\<lambda>_ _ _ _. Sent), clock = (\<lambda>_. 0), timestamp = (\<lambda>_. []),
     request_function = (\<lambda>w. (w, Inr [])), collect_function = keep n, stream_responses = http_streamer,
     batch_size = bs, stopping = (\<lambda>_. False)\<rparr>"

lemma http_collect_keep:
  "length w + length rs \<le> n \<Longrightarrow>
   http_collect (keep n) (w, mr) rs = (w @ rs, if rs = [] then mr else length w + length rs < n)"
  by (induction rs arbitrary: w mr) (auto simp: keep_def)

text \<open>Whole responses in one message.\<close>

lemma http_streamer_whole:
  assumes "\<forall>r \<in> set rps. rsp_plain r"
  shows "http_streamer collect client_new wm (concat (map rsp_to_string rps)) =
    (client_new, http_collect collect wm (map rsp_to_string rps), Inr (length rps))"
proof -
  have g: "client_good client_new" by (simp add: client_new_seeking seeking_def client_good_def)
  have "client_feed client_new (concat (map rsp_to_string rps)) = (client_new, Inr (map rsp_to_string rps))"
    using responses_run [OF assms] client.feed_Inr_run [OF g] by simp
  then have "http_collected client_new (concat (map rsp_to_string rps)) = (client_new, map rsp_to_string rps, None)"
    by (auto simp: client_feed_def split: prod.splits option.splits)
  then show ?thesis by (simp add: http_streamer_def http_stream_responses_def)
qed



text \<open>
  C38. A client stops early if the first message it gets back completes no response: \<open>more\<close> is reset to
  false before the receive loop and only assigned when a response is collected, so the loop ends, and
  the batch with it, without having read the rest of the response.
\<close>

theorem client_gives_up:
  assumes "stream_responses cf = http_streamer" and "0 < batch_size cf"
    and "request_some cf identity (batch_size cf) s = (s1, Inr ())"
    and "http_collected (parser s1) data = (c', [], None)"
  shows "batch_loop cf identity (Inr [identity, data] # rest) s = (s1\<lparr>parser := c'\<rparr>, Inr True)"
proof -
  have "http_streamer (collect_function cf) (parser s1) (app s1, False) data = (c', (app s1, False), Inr 0)"
    using assms(4) by (simp add: http_streamer_def http_stream_responses_def)
  from http_client.batch_gives_up [OF assms(1-3) this] show ?thesis .
qed

theorem client_gives_up_witness:
  "\<exists>s'. batch_loop (keeper 2 1) ''I'' [Inr [''I'', ''HTTP/1.1 200 O''], Inr [''I'', ''K'' @ CRLF @ CRLF]]
       \<lparr>events = [], parser = client_new, app = []\<rparr> = (s', Inr True) \<and> app s' = []"
proof -
  let ?s = "\<lparr>events = [], parser = client_new, app = []\<rparr> :: (http_client, string list) client"
  have g: "client_good client_new" by (simp add: client_new_seeking seeking_def client_good_def)
  have cr: "CR \<notin> set ''HTTP/1.1 200 O''" by (simp add: CR_def)
  have "client_feed client_new ''HTTP/1.1 200 O'' = (seeking 0 0 ''HTTP/1.1 200 O'', Inr [])"
    using client.feed_Inr_run [OF g] text_run [OF cr, of "[]"] unfolding client_new_seeking append_Nil by blast
  then have c: "http_collected (parser ?s) ''HTTP/1.1 200 O'' = (seeking 0 0 ''HTTP/1.1 200 O'', [], None)"
    by (auto simp: client_feed_def split: prod.splits option.splits)
  have "request_some (keeper 2 1) ''I'' (batch_size (keeper 2 1)) ?s = (?s, Inr ())"
    by (simp add: keeper_def numeral_2_eq_2 request_one_def next_request_def catch_value_def bnd_def ret_def)
  from client_gives_up [OF _ _ this c, of "[Inr [''I'', ''K'' @ CRLF @ CRLF]]"] show ?thesis by (simp add: keeper_def)
qed

end
