(* ===== verification/Beacon.thy ===== *)
theory Beacon
  imports Sockets
begin

text \<open>
  \<open>beacon_t\<close> of \<open>zmq_helpers.cpp\<close>: services announce themselves on the local network, and a listener
  keeps track of who has checked in lately. The three containers refer to each other by iterators:
  an iterator into \<open>services\<close> is modelled by its key, one into the list \<open>punch_card\<close> by the address of
  its node. The abstract view is a map from endpoints to the time and the uuid of the last check-in.
\<close>

section \<open>Announcements\<close>

definition uuid_chars :: string where
  "uuid_chars = ''abcdef0123456789''"

text \<open>The random numbers are a parameter, drawn from 0 to 15.\<close>

definition rand_uuid :: "nat list \<Rightarrow> string" where
  "rand_uuid draws = map (\<lambda>i. uuid_chars ! i) draws"

text \<open>The two bytes of a port in network order.\<close>

definition port_bytes :: "u16 \<Rightarrow> string" where
  "port_bytes p = [char_of (unat p div 256), char_of (unat p mod 256)]"

definition ZRE :: string where
  "ZRE = ''ZRE'' @ [CHR 0x01]"

definition broadcast :: "nat list \<Rightarrow> u16 \<Rightarrow> string" where
  "broadcast draws service_port = ZRE @ rand_uuid draws @ port_bytes service_port"

definition read_port :: "string \<Rightarrow> u16" where
  "read_port frm = word_of_nat (of_char (frm ! 20) * 256 + of_char (frm ! 21))"

text \<open>The endpoint and the uuid of a frame of the right size and header.\<close>

definition read_frame :: "string \<Rightarrow> string \<Rightarrow> (string \<times> string) option" where
  "read_frame ip frm =
     (if length frm = 22 \<and> take 4 frm = ZRE
      then Some (''tcp://'' @ ip @ '':'' @ to_dec (unat (read_port frm)), take 16 (drop 4 frm))
      else None)"

section \<open>The clique\<close>

type_synonym services_t = "string \<rightharpoonup> string"

record card =
  card_node :: nat
  card_time :: int
  card_service :: string

record beacon =
  services :: services_t
  punch_card :: "card list"
  clique :: "string \<rightharpoonup> nat"

definition beacon_new :: beacon where
  "beacon_new = \<lparr>services = Map.empty, punch_card = [], clique = Map.empty\<rparr>"

text \<open>The loop of \<open>purge_clique\<close>; it stops at the first card that is young enough.\<close>

fun purge_loop :: "int \<Rightarrow> int \<Rightarrow> beacon \<Rightarrow> services_t \<Rightarrow> card list \<Rightarrow> exn + (beacon \<times> services_t)" where
  "purge_loop now max_age b dropped [] = Inr (b\<lparr>punch_card := []\<rparr>, dropped)"
| "purge_loop now max_age b dropped (k # ks) =
     (if now - card_time k < max_age then Inr (b\<lparr>punch_card := k # ks\<rparr>, dropped)
      else (case services b (card_service k) of
          None \<Rightarrow> Inl Undefined
        | Some uuid \<Rightarrow>
            purge_loop now max_age
              (b\<lparr>clique := (clique b)(card_service k := None), services := (services b)(card_service k := None)\<rparr>)
              (if dropped (card_service k) = None then dropped(card_service k \<mapsto> uuid) else dropped) ks))"

definition purge_clique :: "int \<Rightarrow> int \<Rightarrow> beacon \<Rightarrow> exn + (beacon \<times> services_t)" where
  "purge_clique now max_age b = purge_loop now max_age b Map.empty (punch_card b)"

text \<open>Erasing the last check-in of a member, through its iterators.\<close>

definition check_out :: "nat \<Rightarrow> string \<Rightarrow> beacon \<Rightarrow> exn + beacon" where
  "check_out n endpoint b =
     (case find (\<lambda>k. card_node k = n) (punch_card b) of
        None \<Rightarrow> Inl Undefined
      | Some k \<Rightarrow>
          if services b (card_service k) = None then Inl Undefined
          else Inr (b\<lparr>services := (services b)(card_service k := None),
                      punch_card := filter (\<lambda>k. card_node k \<noteq> n) (punch_card b),
                      clique := (clique b)(endpoint := None)\<rparr>))"

text \<open>\<open>fresh\<close> is the allocator; \<open>insert\<close> and \<open>emplace\<close> leave an entry that is there already.\<close>

definition check_in :: "(nat list \<Rightarrow> nat) \<Rightarrow> int \<Rightarrow> string \<Rightarrow> string \<Rightarrow> beacon \<Rightarrow> beacon" where
  "check_in fresh now endpoint uuid b =
     (let n = fresh (map card_node (punch_card b)) in
      b\<lparr>services := (if services b endpoint = None then (services b)(endpoint \<mapsto> uuid) else services b),
        punch_card := punch_card b @ [\<lparr>card_node = n, card_time = now, card_service = endpoint\<rparr>],
        clique := (if clique b endpoint = None then (clique b)(endpoint \<mapsto> n) else clique b)\<rparr>)"

definition join_clique ::
  "(nat list \<Rightarrow> nat) \<Rightarrow> int \<Rightarrow> string \<Rightarrow> string \<Rightarrow> beacon \<Rightarrow> exn + (beacon \<times> bool)" where
  "join_clique fresh now endpoint uuid b =
     (case clique b endpoint of
        None \<Rightarrow> Inr (check_in fresh now endpoint uuid b, True)
      | Some n \<Rightarrow>
          (case check_out n endpoint b of
             Inl x \<Rightarrow> Inl x
           | Inr b1 \<Rightarrow> Inr (check_in fresh now endpoint uuid b1, False)))"

text \<open>
  \<open>update\<close>: the activity is the sender's address and its frame; \<open>now\<close> and \<open>later\<close> are the times read by
  the two functions it calls. The results are who has joined and who was dropped.
\<close>

definition update ::
  "(nat list \<Rightarrow> nat) \<Rightarrow> (string \<times> string) option \<Rightarrow> int \<Rightarrow> int \<Rightarrow> beacon \<Rightarrow> exn + (beacon \<times> services_t \<times> services_t)" where
  "update fresh activity now later b =
     (case (case Option.bind activity (\<lambda>(ip, frm). read_frame ip frm) of
              None \<Rightarrow> Inr (b, Map.empty)
            | Some (endpoint, uuid) \<Rightarrow>
                (case join_clique fresh now endpoint uuid b of
                   Inl x \<Rightarrow> Inl x
                 | Inr (b1, is_new) \<Rightarrow> Inr (b1, if is_new then [endpoint \<mapsto> uuid] else Map.empty))) of
        Inl x \<Rightarrow> Inl x
      | Inr (b1, joined) \<Rightarrow>
          (case purge_clique later 60 b1 of
             Inl x \<Rightarrow> Inl x
           | Inr (b2, dropped) \<Rightarrow> Inr (b2, joined, dropped)))"

definition random_port :: "nat \<Rightarrow> u16" where
  "random_port draw = word_of_nat draw"

section \<open>The abstract view\<close>

type_synonym roster = "string \<rightharpoonup> int \<times> string"

definition roster_of :: "beacon \<Rightarrow> roster" where
  "roster_of b e =
     (case find (\<lambda>k. card_service k = e) (punch_card b) of
        None \<Rightarrow> None
      | Some k \<Rightarrow> map_option (Pair (card_time k)) (services b e))"

definition roster_join :: "int \<Rightarrow> string \<Rightarrow> string \<Rightarrow> roster \<Rightarrow> roster" where
  "roster_join now e uuid r = r(e \<mapsto> (now, uuid))"

definition roster_purge :: "int \<Rightarrow> roster \<Rightarrow> roster" where
  "roster_purge now r e = (case r e of Some (t, u) \<Rightarrow> if now - t < 60 then Some (t, u) else None | None \<Rightarrow> None)"

definition roster_stale :: "int \<Rightarrow> roster \<Rightarrow> services_t" where
  "roster_stale now r e = (case r e of Some (t, u) \<Rightarrow> if now - t < 60 then None else Some u | None \<Rightarrow> None)"

section \<open>The invariant\<close>

text \<open>
  Nodes and endpoints of the cards are distinct, the services are those with a card, the clique knows
  their nodes, and the cards are in the order of their times, none later than \<open>now\<close>.
\<close>

definition beacon_inv :: "int \<Rightarrow> beacon \<Rightarrow> bool" where
  "beacon_inv now b \<longleftrightarrow> distinct (map card_node (punch_card b)) \<and> distinct (map card_service (punch_card b)) \<and>
     dom (services b) = card_service ` set (punch_card b) \<and>
     (\<forall>e n. clique b e = Some n \<longleftrightarrow> (\<exists>k \<in> set (punch_card b). card_service k = e \<and> card_node k = n)) \<and>
     sorted (map card_time (punch_card b)) \<and> (\<forall>k \<in> set (punch_card b). card_time k \<le> now)"

lemma roster_eqI: "(\<And>e t u. r e = Some (t, u) \<longleftrightarrow> r' e = Some (t, u)) \<Longrightarrow> r = (r' :: roster)"
proof
  fix e
  assume eq: "\<And>e t u. r e = Some (t, u) \<longleftrightarrow> r' e = Some (t, u)"
  show "r e = r' e"
  proof (cases "r' e")
    case None
    then show ?thesis using eq [of e] by (cases "r e") auto
  next
    case (Some p)
    then show ?thesis using eq [of e "fst p" "snd p"] by simp
  qed
qed

lemma find_distinct: "distinct (map f xs) \<Longrightarrow> k \<in> set xs \<Longrightarrow> find (\<lambda>x. f x = f k) xs = Some k"
  by (induction xs) (auto simp: image_iff)

lemma distinct_map_eq: "distinct (map f xs) \<Longrightarrow> x \<in> set xs \<Longrightarrow> y \<in> set xs \<Longrightarrow> f x = f y \<Longrightarrow> x = y"
  by (simp add: distinct_map inj_on_def)

lemma roster_iff:
  assumes "beacon_inv now b"
  shows "roster_of b e = Some (t, u) \<longleftrightarrow>
    (\<exists>k \<in> set (punch_card b). card_service k = e \<and> card_time k = t) \<and> services b e = Some u"
proof
  assume "roster_of b e = Some (t, u)"
  then show "(\<exists>k \<in> set (punch_card b). card_service k = e \<and> card_time k = t) \<and> services b e = Some u"
    by (auto simp: roster_of_def find_Some_iff split: option.splits)
next
  assume "(\<exists>k \<in> set (punch_card b). card_service k = e \<and> card_time k = t) \<and> services b e = Some u"
  then obtain k where "k \<in> set (punch_card b)" "card_service k = e" "card_time k = t" "services b e = Some u" by blast
  then show "roster_of b e = Some (t, u)"
    using assms find_distinct [of card_service "punch_card b" k] by (simp add: beacon_inv_def roster_of_def)
qed

lemma check_out_spec:
  assumes "beacon_inv now b" and "clique b e = Some n"
  shows "\<exists>b'. check_out n e b = Inr b' \<and> beacon_inv now b' \<and> roster_of b' = (roster_of b)(e := None) \<and> clique b' e = None"
proof -
  let ?ks = "filter (\<lambda>k. card_node k \<noteq> n) (punch_card b)"
  let ?b = "b\<lparr>services := (services b)(e := None), punch_card := ?ks, clique := (clique b)(e := None)\<rparr>"
  obtain k where k: "k \<in> set (punch_card b)" "card_service k = e" "card_node k = n"
    using assms unfolding beacon_inv_def by blast
  have d: "distinct (map card_node (punch_card b))" "distinct (map card_service (punch_card b))"
    using assms(1) by (simp_all add: beacon_inv_def)
  have f: "find (\<lambda>k. card_node k = n) (punch_card b) = Some k"
    using find_distinct [OF d(1) k(1)] k(3) by simp
  have "services b e \<noteq> None" using assms(1) k(1,2) unfolding beacon_inv_def by blast
  then have run: "check_out n e b = Inr ?b" by (simp add: check_out_def f k(2))
  have same: "card_node x = n \<longleftrightarrow> card_service x = e" if "x \<in> set (punch_card b)" for x
    using distinct_map_eq [OF d(1) that k(1)] distinct_map_eq [OF d(2) that k(1)] k(2,3) by auto
  have ks: "set ?ks = {k \<in> set (punch_card b). card_service k \<noteq> e}" using same by auto
  have "dom (services ?b) = card_service ` set ?ks"
    unfolding ks using assms(1) by (auto simp: beacon_inv_def)
  moreover have "clique ?b e' = Some m \<longleftrightarrow> (\<exists>k \<in> set ?ks. card_service k = e' \<and> card_node k = m)" for e' m
    using assms(1) same by (auto simp: beacon_inv_def)
  ultimately have inv: "beacon_inv now ?b"
    using assms(1) d sorted_filter [of card_time "punch_card b"]
    by (simp add: beacon_inv_def distinct_map_filter)
  have "roster_of ?b e' = Some (t, u) \<longleftrightarrow> ((roster_of b)(e := None)) e' = Some (t, u)" for e' t u
    using roster_iff [OF inv, of e' t u] roster_iff [OF assms(1), of e' t u] same by auto
  then have "roster_of ?b = (roster_of b)(e := None)" by (rule roster_eqI)
  then show ?thesis using run inv by auto
qed

lemma check_in_spec:
  assumes "beacon_inv now b" "clique b e = None" "now \<le> now'" "\<And>ns. fresh ns \<notin> set ns"
  shows "beacon_inv now' (check_in fresh now' e uuid b)"
    "roster_of (check_in fresh now' e uuid b) = roster_join now' e uuid (roster_of b)"
proof -
  let ?n = "fresh (map card_node (punch_card b))"
  let ?k = "\<lparr>card_node = ?n, card_time = now', card_service = e\<rparr>"
  let ?b = "b\<lparr>services := (services b)(e \<mapsto> uuid), punch_card := punch_card b @ [?k], clique := (clique b)(e \<mapsto> ?n)\<rparr>"
  have nk: "card_service k \<noteq> e" if "k \<in> set (punch_card b)" for k
    using assms(1,2) that unfolding beacon_inv_def by (metis option.distinct(1))
  have "e \<notin> dom (services b)" using assms(1) nk unfolding beacon_inv_def by auto
  then have run: "check_in fresh now' e uuid b = ?b"
    using assms(2) by (auto simp: check_in_def Let_def)
  have n: "?n \<notin> card_node ` set (punch_card b)" using assms(4) [of "map card_node (punch_card b)"] by simp
  have e: "e \<notin> card_service ` set (punch_card b)" using nk by auto
  have t: "card_time k \<le> now'" if "k \<in> set (punch_card b)" for k
    using assms(1,3) that unfolding beacon_inv_def by force
  have "clique ?b e' = Some m \<longleftrightarrow> (\<exists>k \<in> set (punch_card ?b). card_service k = e' \<and> card_node k = m)" for e' m
    using assms(1) nk by (auto simp: beacon_inv_def)
  then have inv: "beacon_inv now' ?b"
    using assms(1) n e t by (auto simp: beacon_inv_def sorted_append)
  show "beacon_inv now' (check_in fresh now' e uuid b)" using inv run by simp
  have "roster_of ?b e' = Some (s, u) \<longleftrightarrow> roster_join now' e uuid (roster_of b) e' = Some (s, u)" for e' s u
    using roster_iff [OF inv, of e' s u] roster_iff [OF assms(1), of e' s u] nk by (auto simp: roster_join_def)
  then have "roster_of ?b = roster_join now' e uuid (roster_of b)" by (rule roster_eqI)
  then show "roster_of (check_in fresh now' e uuid b) = roster_join now' e uuid (roster_of b)" using run by simp
qed

lemma join_clique_refines:
  assumes "beacon_inv now b" "now \<le> now'" "\<And>ns. fresh ns \<notin> set ns"
  shows "\<exists>b'. join_clique fresh now' e uuid b = Inr (b', roster_of b e = None) \<and> beacon_inv now' b' \<and>
    roster_of b' = roster_join now' e uuid (roster_of b)"
proof (cases "clique b e")
  case None
  then have "\<not> (\<exists>k \<in> set (punch_card b). card_service k = e)"
    using assms(1) unfolding beacon_inv_def by (metis option.distinct(1))
  then have "roster_of b e = None" using roster_iff [OF assms(1), of e] by (cases "roster_of b e") auto
  then show ?thesis using check_in_spec [OF assms(1) None assms(2,3)] None by (simp add: join_clique_def)
next
  case (Some n)
  obtain b1 where b1: "check_out n e b = Inr b1" "beacon_inv now b1" "roster_of b1 = (roster_of b)(e := None)" "clique b1 e = None"
    using check_out_spec [OF assms(1) Some] by blast
  obtain k where "k \<in> set (punch_card b)" "card_service k = e" using assms(1) Some unfolding beacon_inv_def by blast
  then have "roster_of b e \<noteq> None"
    using roster_iff [OF assms(1), of e] assms(1) unfolding beacon_inv_def by (metis domD imageI option.distinct(1))
  then show ?thesis
    using check_in_spec [OF b1(2,4) assms(2,3)] b1 Some by (simp add: join_clique_def roster_join_def)
qed

lemma purge_step_spec:
  assumes "beacon_inv now (b\<lparr>punch_card := k # ks\<rparr>)"
    and "b' = b\<lparr>clique := (clique b)(card_service k := None), services := (services b)(card_service k := None)\<rparr>"
  shows "\<exists>uuid. services b (card_service k) = Some uuid \<and> beacon_inv now (b'\<lparr>punch_card := ks\<rparr>) \<and>
    roster_of (b\<lparr>punch_card := k # ks\<rparr>) = (roster_of (b'\<lparr>punch_card := ks\<rparr>))(card_service k \<mapsto> (card_time k, uuid)) \<and>
    roster_of (b'\<lparr>punch_card := ks\<rparr>) (card_service k) = None"
proof -
  let ?b = "b\<lparr>punch_card := k # ks\<rparr>" and ?b' = "b'\<lparr>punch_card := ks\<rparr>" and ?e = "card_service k"
  have "?e \<in> dom (services b)" using assms(1) by (simp add: beacon_inv_def)
  then obtain uuid where u: "services b ?e = Some uuid" by blast
  have ne: "card_service x \<noteq> ?e" if "x \<in> set ks" for x using assms(1) that by (auto simp: beacon_inv_def image_iff)
  have "dom (services ?b') = card_service ` set ks"
    using assms(1) ne by (auto simp: assms(2) beacon_inv_def)
  moreover have "clique ?b' e = Some m \<longleftrightarrow> (\<exists>k \<in> set ks. card_service k = e \<and> card_node k = m)" for e m
    using assms(1) ne by (auto simp: assms(2) beacon_inv_def)
  ultimately have inv: "beacon_inv now ?b'"
    using assms(1) by (simp add: beacon_inv_def)
  have "roster_of ?b e = Some (t, v) \<longleftrightarrow> ((roster_of ?b')(?e \<mapsto> (card_time k, uuid))) e = Some (t, v)" for e t v
    using roster_iff [OF assms(1), of e t v] roster_iff [OF inv, of e t v] ne u by (auto simp: assms(2))
  then have "roster_of ?b = (roster_of ?b')(?e \<mapsto> (card_time k, uuid))" by (rule roster_eqI)
  moreover have "roster_of ?b' ?e = None" using roster_iff [OF inv, of ?e] ne by (cases "roster_of ?b' ?e") auto
  ultimately show ?thesis using u inv by blast
qed

lemma purge_loop_refines:
  "beacon_inv now (b\<lparr>punch_card := ks\<rparr>) \<Longrightarrow>
   \<exists>b'. purge_loop now 60 b dropped ks = Inr (b', \<lambda>e. case dropped e of
       None \<Rightarrow> roster_stale now (roster_of (b\<lparr>punch_card := ks\<rparr>)) e | Some u \<Rightarrow> Some u) \<and>
     beacon_inv now b' \<and> roster_of b' = roster_purge now (roster_of (b\<lparr>punch_card := ks\<rparr>))"
proof (induction ks arbitrary: b dropped)
  case Nil
  have "roster_of (b\<lparr>punch_card := []\<rparr>) = Map.empty" by (auto simp: roster_of_def)
  then show ?case using Nil by (auto simp: roster_stale_def roster_purge_def split: option.splits)
next
  case (Cons k ks)
  let ?r = "roster_of (b\<lparr>punch_card := k # ks\<rparr>)" and ?e = "card_service k"
  show ?case
  proof (cases "now - card_time k < 60")
    case True
    have "now - t < 60" if "?r e = Some (t, u)" for e t u
      using that roster_iff [OF Cons.prems, of e t u] Cons.prems True by (fastforce simp: beacon_inv_def)
    then have "roster_stale now ?r = Map.empty" "roster_purge now ?r = ?r"
      by (auto simp: roster_stale_def roster_purge_def split: option.splits)
    then show ?thesis using True Cons.prems by (auto split: option.splits)
  next
    case False
    define b' where "b' = b\<lparr>clique := (clique b)(?e := None), services := (services b)(?e := None)\<rparr>"
    let ?r' = "roster_of (b'\<lparr>punch_card := ks\<rparr>)"
    obtain uuid where u: "services b ?e = Some uuid" "beacon_inv now (b'\<lparr>punch_card := ks\<rparr>)"
        "?r = ?r'(?e \<mapsto> (card_time k, uuid))" "?r' ?e = None"
      using purge_step_spec [OF Cons.prems b'_def] by blast
    have pg: "roster_purge now ?r = roster_purge now ?r'" and st: "roster_stale now ?r = (roster_stale now ?r')(?e \<mapsto> uuid)"
      unfolding u(3) using False u(4) by (auto simp: roster_purge_def roster_stale_def split: option.splits)
    let ?d = "if dropped ?e = None then dropped(?e \<mapsto> uuid) else dropped"
    have "(case ?d e of None \<Rightarrow> roster_stale now ?r' e | Some v \<Rightarrow> Some v) =
        (case dropped e of None \<Rightarrow> roster_stale now ?r e | Some v \<Rightarrow> Some v)" for e
      unfolding st by (auto split: option.split)
    moreover have "purge_loop now 60 b dropped (k # ks) = purge_loop now 60 b' ?d ks"
      using False u(1) by (simp add: b'_def)
    ultimately show ?thesis using Cons.IH [OF u(2), of ?d] by (simp only: pg)
  qed
qed

lemma update_keeps_roster:
  assumes "beacon_inv before b" and "before \<le> now" and "now \<le> later" and "\<And>ns. fresh ns \<notin> set ns"
    and "r = (case Option.bind activity (\<lambda>(ip, frm). read_frame ip frm) of
        None \<Rightarrow> roster_of b | Some (e, uuid) \<Rightarrow> roster_join now e uuid (roster_of b))"
  shows "\<exists>b' joined. update fresh activity now later b = Inr (b', joined, roster_stale later r) \<and>
    beacon_inv later b' \<and> roster_of b' = roster_purge later r \<and>
    joined = (case Option.bind activity (\<lambda>(ip, frm). read_frame ip frm) of
        None \<Rightarrow> Map.empty | Some (e, uuid) \<Rightarrow> if roster_of b e = None then [e \<mapsto> uuid] else Map.empty)"
proof -
  have later: "beacon_inv later b1" if "beacon_inv t b1" "t \<le> later" for t b1
    using that unfolding beacon_inv_def by force
  have purge: "\<exists>b'. purge_clique later 60 b1 = Inr (b', roster_stale later (roster_of b1)) \<and> beacon_inv later b' \<and>
      roster_of b' = roster_purge later (roster_of b1)" if "beacon_inv later b1" for b1
    using purge_loop_refines [where now = later and b = b1 and ks = "punch_card b1" and dropped = Map.empty] that by (simp add: purge_clique_def)
  show ?thesis
  proof (cases "Option.bind activity (\<lambda>(ip, frm). read_frame ip frm)")
    case None
    have "beacon_inv later b" using later [OF assms(1)] assms(2,3) by simp
    from purge [OF this] show ?thesis using None assms(5) by (auto simp: update_def)
  next
    case (Some eu)
    obtain e uuid where eu: "eu = (e, uuid)" by fastforce
    obtain b1 where b1: "join_clique fresh now e uuid b = Inr (b1, roster_of b e = None)" "beacon_inv now b1"
        "roster_of b1 = roster_join now e uuid (roster_of b)"
      using join_clique_refines [OF assms(1,2,4)] by blast
    from purge [OF later [OF b1(2) assms(3)]] show ?thesis
      using Some eu assms(5) b1(1,3) by (auto simp: update_def)
  qed
qed

section \<open>Properties\<close>

text \<open>
  An announcement survives the wire: a listener reads from the frame another service broadcasts
  that service's port, for every 16-bit port, and its uuid.
\<close>

theorem broadcast_roundtrip:
  assumes "length draws = 16"
  shows "read_frame ip (broadcast draws port) =
    Some (''tcp://'' @ ip @ '':'' @ to_dec (unat port), rand_uuid draws)"
proof -
  have u: "unat port < 65536" using unsigned_less [where ?'a = nat, of port] by simp
  have r: "length (rand_uuid draws) = 16" using assms by (simp add: rand_uuid_def)
  have "broadcast draws port ! 20 = char_of (unat port div 256)" "broadcast draws port ! 21 = char_of (unat port mod 256)"
    using r by (simp_all add: broadcast_def ZRE_def port_bytes_def nth_append)
  moreover have "unat port div 256 < 256" using u by (simp add: less_mult_imp_div_less)
  then have "(of_char (char_of (unat port div 256)) :: nat) = unat port div 256" by simp
  moreover have "(of_char (char_of (unat port mod 256)) :: nat) = unat port mod 256" by simp
  ultimately have "read_port (broadcast draws port) = word_of_nat (unat port div 256 * 256 + unat port mod 256)"
    by (simp add: read_port_def)
  then have "read_port (broadcast draws port) = port" unfolding div_mult_mod_eq by simp
  then show ?thesis using r by (simp add: read_frame_def broadcast_def ZRE_def port_bytes_def)
qed

theorem broadcast_roundtrip_witness:
  "read_frame ''10.0.0.1'' (broadcast [0, 1, 2, 3, 4, 5, 6, 7, 8, 9, 10, 11, 12, 13, 14, 15] 8002) =
     Some (''tcp://10.0.0.1:8002'', ''abcdef0123456789'')"
proof -
  have "to_dec 8002 = ''8002''" by (simp add: eval_simps)
  then show ?thesis
    using broadcast_roundtrip [of "[0, 1, 2, 3, 4, 5, 6, 7, 8, 9, 10, 11, 12, 13, 14, 15]" "''10.0.0.1''" 8002]
    by (simp add: rand_uuid_def uuid_chars_def)
qed



end
