(* ===== verification/Beacon_History.thy ===== *)
theory Beacon_History
  imports Beacon
begin

text \<open>
  The whole of \<open>beacon_t\<close>: its constructor, the commands it sends to the actor of czmq that does the
  broadcasting and listening, and the calls a program makes one after another. The actor itself is library
  code: the commands it is sent are recorded, its answers are inputs.
\<close>

section \<open>The device\<close>

datatype command = CONFIGURE int | PUBLISH string int | SILENCE | SUBSCRIBE string | UNSUBSCRIBE

record device =
  told :: "command list"
  ip :: string
  cat :: beacon

text \<open>
  The constructor: \<open>made\<close> says whether there is an actor, \<open>name\<close> is what it answers to \<open>CONFIGURE\<close>, a C string.
\<close>

definition beacon_open :: "bool \<Rightarrow> string option \<Rightarrow> u16 \<Rightarrow> std_error + device" where
  "beacon_open made name discovery_port =
     (if \<not> made then Inl (Runtime_error ''Beacon not supported'')
      else (case name of
          None \<Rightarrow> Inl (Runtime_error ''Beacon not supported'')
        | Some s \<Rightarrow>
            if takeWhile (\<lambda>c. c \<noteq> NUL) s = [] then Inl (Runtime_error ''Beacon not supported'')
            else Inr \<lparr>told = [CONFIGURE (int (unat discovery_port))], ip = takeWhile (\<lambda>c. c \<noteq> NUL) s, cat = beacon_new\<rparr>))"

definition DISCOVERY_PORT :: u16 where
  "DISCOVERY_PORT = 5670"

definition tell :: "command \<Rightarrow> device \<Rightarrow> device" where
  "tell c d = d\<lparr>told := told d @ [c]\<rparr>"

definition get_ip :: "device \<Rightarrow> string" where
  "get_ip d = ip d"

definition start_broadcast :: "nat list \<Rightarrow> u16 \<Rightarrow> int \<Rightarrow> device \<Rightarrow> device" where
  "start_broadcast draws service_port interval d = tell (PUBLISH (broadcast draws service_port) interval) d"

definition silence :: "device \<Rightarrow> device" where
  "silence d = tell SILENCE d"

definition subscribe :: "string \<Rightarrow> device \<Rightarrow> device" where
  "subscribe flt d = tell (SUBSCRIBE flt) d"

definition unsubscribe :: "device \<Rightarrow> device" where
  "unsubscribe d = tell UNSUBSCRIBE d"

definition known_services :: "device \<Rightarrow> services_t" where
  "known_services d = services (cat d)"

section \<open>A sequence of calls\<close>

datatype device_call =
    Broadcast "nat list" u16 int
  | Silence
  | Subscribe string
  | Unsubscribe
  | Update "(string \<times> string) option" int int

fun device_step :: "(nat list \<Rightarrow> nat) \<Rightarrow> device_call \<Rightarrow> device \<Rightarrow> exn + device" where
  "device_step fresh (Broadcast draws port interval) d = Inr (start_broadcast draws port interval d)"
| "device_step fresh Silence d = Inr (silence d)"
| "device_step fresh (Subscribe flt) d = Inr (subscribe flt d)"
| "device_step fresh Unsubscribe d = Inr (unsubscribe d)"
| "device_step fresh (Update activity now later) d =
     (case update fresh activity now later (cat d) of Inl x \<Rightarrow> Inl x | Inr (b, _) \<Rightarrow> Inr (d\<lparr>cat := b\<rparr>))"

fun device_run :: "(nat list \<Rightarrow> nat) \<Rightarrow> device_call list \<Rightarrow> device \<Rightarrow> exn + device" where
  "device_run fresh [] d = Inr d"
| "device_run fresh (c # cs) d = (case device_step fresh c d of Inl x \<Rightarrow> Inl x | Inr d1 \<Rightarrow> device_run fresh cs d1)"

lemma device_run_append:
  "device_run fresh (xs @ ys) d = (case device_run fresh xs d of Inl x \<Rightarrow> Inl x | Inr d1 \<Rightarrow> device_run fresh ys d1)"
  by (induction xs arbitrary: d) (auto split: sum.split)

section \<open>The history\<close>

text \<open>
  What the calls say of the world: the commands given, the last announcement of each endpoint, the time
  of the last \<open>update\<close>, and whether the clock ran forward from \<open>t\<close> on.
\<close>

fun command_of :: "device_call \<Rightarrow> command list" where
  "command_of (Broadcast draws port interval) = [PUBLISH (broadcast draws port) interval]"
| "command_of Silence = [SILENCE]"
| "command_of (Subscribe flt) = [SUBSCRIBE flt]"
| "command_of Unsubscribe = [UNSUBSCRIBE]"
| "command_of (Update _ _ _) = []"

fun note_announcement :: "device_call \<Rightarrow> roster \<Rightarrow> roster" where
  "note_announcement (Update activity now later) r =
     (case Option.bind activity (\<lambda>(ip, frm). read_frame ip frm) of None \<Rightarrow> r | Some (e, uuid) \<Rightarrow> roster_join now e uuid r)"
| "note_announcement _ r = r"

definition last_seen :: "device_call list \<Rightarrow> roster" where
  "last_seen cs = fold note_announcement cs Map.empty"

fun time_after :: "device_call \<Rightarrow> int \<Rightarrow> int" where
  "time_after (Update _ _ later) t = later"
| "time_after _ t = t"

definition last_update :: "int \<Rightarrow> device_call list \<Rightarrow> int" where
  "last_update t cs = fold time_after cs t"

fun forward :: "int \<Rightarrow> device_call list \<Rightarrow> bool" where
  "forward t [] = True"
| "forward t (Update _ now later # cs) = (t \<le> now \<and> now \<le> later \<and> forward later cs)"
| "forward t (_ # cs) = forward t cs"

lemma forward_append: "forward t (xs @ ys) \<longleftrightarrow> forward t xs \<and> forward (last_update t xs) ys"
  by (induction t xs rule: forward.induct) (auto simp: last_update_def)

lemma last_update_snoc [simp]: "last_update t (cs @ [c]) = time_after c (last_update t cs)"
  by (simp add: last_update_def)

lemma last_seen_snoc [simp]: "last_seen (cs @ [c]) = note_announcement c (last_seen cs)"
  by (simp add: last_seen_def)

lemma purge_purge: "t \<le> now \<Longrightarrow> roster_purge now (roster_purge t r) = roster_purge now r"
  by (auto simp: roster_purge_def split: option.splits)

lemma purge_join_purge: "t \<le> now \<Longrightarrow> roster_purge now (roster_join s e u (roster_purge t r)) = roster_purge now (roster_join s e u r)"
  by (auto simp: roster_purge_def roster_join_def split: option.splits)

lemma roster_services: "beacon_inv now b \<Longrightarrow> services b e = map_option snd (roster_of b e)"
proof -
  assume inv: "beacon_inv now b"
  show ?thesis
  proof (cases "services b e")
    case None
    then show ?thesis using roster_iff [OF inv, of e] by (cases "roster_of b e") auto
  next
    case (Some u)
    then have "e \<in> card_service ` set (punch_card b)" using inv unfolding beacon_inv_def by blast
    then obtain k where "k \<in> set (punch_card b)" "card_service k = e" by blast
    then have "roster_of b e = Some (card_time k, u)" using roster_iff [OF inv] Some by blast
    then show ?thesis using Some by simp
  qed
qed

text \<open>The invariant of a run: the clique is the roster of the last announcements, as of the last update.\<close>

definition history :: "int \<Rightarrow> device_call list \<Rightarrow> device \<Rightarrow> device \<Rightarrow> bool" where
  "history t cs d0 d \<longleftrightarrow> beacon_inv (last_update t cs) (cat d) \<and>
     roster_of (cat d) = roster_purge (last_update t cs) (last_seen cs) \<and>
     told d = told d0 @ concat (map command_of cs) \<and> ip d = ip d0"

lemma history_new: "cat d = beacon_new \<Longrightarrow> history t [] d d"
  by (auto simp: history_def beacon_inv_def beacon_new_def roster_of_def roster_purge_def last_seen_def)

lemma history_tell:
  "history t cs d0 d \<Longrightarrow> command_of c = [m] \<Longrightarrow> time_after c = id \<Longrightarrow> note_announcement c = id \<Longrightarrow> history t (cs @ [c]) d0 (tell m d)"
  by (simp add: history_def tell_def)

lemma history_step:
  assumes "history t cs d0 d" "forward (last_update t cs) [c]" "\<And>ns. fresh ns \<notin> set ns"
  shows "\<exists>d'. device_step fresh c d = Inr d' \<and> history t (cs @ [c]) d0 d'"
proof (cases c)
  case (Update activity now later)
  define r where "r = (case Option.bind activity (\<lambda>(ip, frm). read_frame ip frm) of
      None \<Rightarrow> roster_of (cat d) | Some (e, uuid) \<Rightarrow> roster_join now e uuid (roster_of (cat d)))"
  have h: "beacon_inv (last_update t cs) (cat d)" "roster_of (cat d) = roster_purge (last_update t cs) (last_seen cs)"
    using assms(1) by (simp_all add: history_def)
  have le: "last_update t cs \<le> now" "now \<le> later" using assms(2) Update by simp_all
  obtain b' j where u: "update fresh activity now later (cat d) = Inr (b', j, roster_stale later r)" "beacon_inv later b'"
      "roster_of b' = roster_purge later r"
    using update_keeps_roster [OF h(1) le assms(3) r_def] by blast
  have "roster_purge later r = roster_purge later (note_announcement c (last_seen cs))"
    using le by (auto simp: r_def h(2) Update purge_purge purge_join_purge split: option.split)
  then show ?thesis using assms(1) u Update by (simp add: history_def)
qed (use assms(1) in \<open>auto simp: start_broadcast_def silence_def subscribe_def unsubscribe_def fun_eq_iff intro!: history_tell\<close>)

lemma history_run:
  assumes "cat d0 = beacon_new" "\<And>ns. fresh ns \<notin> set ns"
  shows "forward t cs \<Longrightarrow> \<exists>d. device_run fresh cs d0 = Inr d \<and> history t cs d0 d"
proof (induction cs rule: rev_induct)
  case (snoc c cs)
  then obtain d where "device_run fresh cs d0 = Inr d" "history t cs d0 d" by (auto simp: forward_append)
  moreover obtain d' where "device_step fresh c d = Inr d'" "history t (cs @ [c]) d0 d'"
    using history_step [OF calculation(2) _ assms(2)] snoc.prems by (auto simp: forward_append)
  ultimately show ?case by (simp add: device_run_append)
qed (simp add: history_new assms(1))

section \<open>Properties\<close>



end
