(* ===== verification/Resources.thy ===== *)
theory Resources
  imports Prelude "HOL-Library.Multiset"
begin

text \<open>
  The owners of \<open>zmq_helpers.hpp\<close> and \<open>zmq_helpers.cpp\<close>: \<open>context_t\<close>, \<open>socket_t\<close> and \<open>message_t\<close> hold what
  the zmq library gives them in \<open>std::shared_ptr\<close>s with a deleter that gives it back. Objects are copied
  and destroyed in any order, by any of the components and threads. A socket keeps a copy of its
  context, so that the context is not terminated under it.
\<close>

section \<open>State\<close>

text \<open>What the library hands out: a context, a socket of a context, a message.\<close>

datatype block = Ctx nat | Sock nat nat | Msg nat

text \<open>The objects and what their members point to, in the order of declaration.\<close>

datatype object = Context_t nat | Socket_t nat nat | Message_t nat

fun members :: "object \<Rightarrow> block list" where
  "members (Context_t c) = [Ctx c]"
| "members (Socket_t c k) = [Ctx c, Sock c k]"
| "members (Message_t m) = [Msg m]"

datatype call = Opened block | Released block

text \<open>
  The objects that are alive, with as many copies as there are; the use counts of the shared
  pointers; the calls that made and released something; the messages that were allocated and lost; and whether a
  deleter has thrown, which ends the process because destructors must not throw. An object that has
  been moved from holds nothing and is not counted.
\<close>

record resources =
  objects :: "object multiset"
  uses :: "block \<Rightarrow> nat"
  calls :: "call list"
  stranded :: nat
  aborted :: bool

definition resources_new :: resources where
  "resources_new = \<lparr>objects = {#}, uses = (\<lambda>_. 0), calls = [], stranded = 0, aborted = False\<rparr>"

section \<open>Operations\<close>

text \<open>\<open>ptr.reset(p, deleter)\<close>, a copy of a pointer, and the end of one; \<open>ok\<close> is what the library's call reports.\<close>

definition open_block :: "block \<Rightarrow> resources \<Rightarrow> resources" where
  "open_block b s = s\<lparr>uses := (uses s)(b := 1), calls := calls s @ [Opened b]\<rparr>"

definition acquire :: "block \<Rightarrow> resources \<Rightarrow> resources" where
  "acquire b s = s\<lparr>uses := (uses s)(b := uses s b + 1)\<rparr>"

definition release :: "(block \<Rightarrow> bool) \<Rightarrow> block \<Rightarrow> resources \<Rightarrow> resources" where
  "release ok b s =
     (if uses s b = 1
      then s\<lparr>uses := (uses s)(b := 0), calls := calls s @ [Released b], aborted := aborted s \<or> \<not> ok b\<rparr>
      else s\<lparr>uses := (uses s)(b := uses s b - 1)\<rparr>)"

definition enter :: "object \<Rightarrow> resources \<Rightarrow> resources" where
  "enter x s = s\<lparr>objects := add_mset x (objects s)\<rparr>"

text \<open>The constructors, on what the library returns: a pointer, or an error and its text.\<close>

definition make_context :: "string + nat \<Rightarrow> resources \<Rightarrow> resources \<times> (std_error + unit)" where
  "make_context r s =
     (case r of
        Inl e \<Rightarrow> (s, Inl (Runtime_error e))
      | Inr c \<Rightarrow> (enter (Context_t c) (open_block (Ctx c) s), Inr ()))"

text \<open>The member \<open>context\<close> is copied before the socket is made, and destroyed again if that fails.\<close>

definition make_socket :: "(block \<Rightarrow> bool) \<Rightarrow> nat \<Rightarrow> string + nat \<Rightarrow> resources \<Rightarrow> resources \<times> (std_error + unit)" where
  "make_socket ok c r s =
     (let s1 = acquire (Ctx c) s in
      case r of
        Inl e \<Rightarrow> (release ok (Ctx c) s1, Inl (Runtime_error e))
      | Inr k \<Rightarrow> (enter (Socket_t c k) (open_block (Sock c k) s1), Inr ()))"

text \<open>\<open>new zmq_msg_t()\<close> comes first, and nothing deletes it when the initialisation fails.\<close>

definition make_message :: "string + nat \<Rightarrow> resources \<Rightarrow> resources \<times> (std_error + unit)" where
  "make_message r s =
     (case r of
        Inl e \<Rightarrow> (s\<lparr>stranded := stranded s + 1\<rparr>, Inl (Runtime_error e))
      | Inr m \<Rightarrow> (enter (Message_t m) (open_block (Msg m) s), Inr ()))"

text \<open>The implicit copy constructors, and the destructors, which destroy the last member first.\<close>

definition copy_object :: "object \<Rightarrow> resources \<Rightarrow> resources" where
  "copy_object x s = enter x (fold acquire (members x) s)"

definition destroy_object :: "(block \<Rightarrow> bool) \<Rightarrow> object \<Rightarrow> resources \<Rightarrow> resources" where
  "destroy_object ok x s =
     fold (release ok) (rev (members x)) (s\<lparr>objects := objects s - {#x#}\<rparr>)"

text \<open>What a program may do: the library never hands out what it has handed out before.\<close>

definition unseen :: "block \<Rightarrow> resources \<Rightarrow> bool" where
  "unseen b s \<longleftrightarrow> Opened b \<notin> set (calls s)"

inductive owners :: "resources \<Rightarrow> bool" where
  start: "owners resources_new"
| made_context: "owners s \<Longrightarrow> \<not> aborted s \<Longrightarrow> (\<And>c. r = Inr c \<Longrightarrow> unseen (Ctx c) s) \<Longrightarrow> owners (fst (make_context r s))"
| made_socket: "owners s \<Longrightarrow> \<not> aborted s \<Longrightarrow> Context_t c \<in># objects s \<Longrightarrow> (\<And>k. r = Inr k \<Longrightarrow> unseen (Sock c k) s) \<Longrightarrow>
    owners (fst (make_socket ok c r s))"
| made_message: "owners s \<Longrightarrow> \<not> aborted s \<Longrightarrow> (\<And>m. r = Inr m \<Longrightarrow> unseen (Msg m) s) \<Longrightarrow> owners (fst (make_message r s))"
| copying: "owners s \<Longrightarrow> \<not> aborted s \<Longrightarrow> x \<in># objects s \<Longrightarrow> owners (copy_object x s)"
| destruction: "owners s \<Longrightarrow> \<not> aborted s \<Longrightarrow> x \<in># objects s \<Longrightarrow> owners (destroy_object ok x s)"

section \<open>Messages\<close>

text \<open>
  A message by its bytes. Memory that is not copied into a new message is whatever \<open>malloc\<close> left there (\<open>rest\<close>);
  \<open>memcmp\<close> compares byte by byte.
\<close>

definition message_bytes :: "nat \<Rightarrow> string option \<Rightarrow> string \<Rightarrow> string" where
  "message_bytes n data rest = (case data of Some d \<Rightarrow> take n d | None \<Rightarrow> take n rest)"

fun memcmp_equal :: "nat \<Rightarrow> string \<Rightarrow> string \<Rightarrow> bool" where
  "memcmp_equal 0 a b = True"
| "memcmp_equal (Suc n) (x # a) (y # b) = (x = y \<and> memcmp_equal n a b)"
| "memcmp_equal (Suc n) _ _ = False"

definition message_eq :: "string \<Rightarrow> string \<Rightarrow> bool" where
  "message_eq a b \<longleftrightarrow> length a = length b \<and> memcmp_equal (length a) a b"

definition message_ne :: "string \<Rightarrow> string \<Rightarrow> bool" where
  "message_ne a b \<longleftrightarrow> length a \<noteq> length b \<or> \<not> memcmp_equal (length a) a b"

definition message_hash :: "(string \<Rightarrow> nat) \<Rightarrow> string \<Rightarrow> nat" where
  "message_hash string_view_hash m = string_view_hash (take (length m) m)"

text \<open>
  What \<open>std::unordered_map\<close> asks of its key type. Both operators mean equality of bytes, so that the maps
  of the server and the proxy may be maps from bytes.
\<close>

locale hashed_key =
  fixes eq :: "'k \<Rightarrow> 'k \<Rightarrow> bool"
    and hash :: "'k \<Rightarrow> nat"
  assumes eq_refl: "eq a a"
    and eq_sym: "eq a b \<Longrightarrow> eq b a"
    and eq_trans: "eq a b \<Longrightarrow> eq b c \<Longrightarrow> eq a c"
    and hash_eq: "eq a b \<Longrightarrow> hash a = hash b"
begin

text \<open>A lookup that searches the key's own bucket only finds what a search of all entries finds.\<close>

lemma bucket_lookup:
  "find (\<lambda>e. eq (fst e) k) (filter (\<lambda>e. hash (fst e) mod n = hash k mod n) es) = find (\<lambda>e. eq (fst e) k) es"
  by (induction es) (auto dest: hash_eq)

end

lemma memcmp_equal_eq: "length a = length b \<Longrightarrow> memcmp_equal (length a) a b \<longleftrightarrow> a = b"
  by (induction a b rule: list_induct2) auto

lemma message_eq_iff [simp]: "message_eq a b \<longleftrightarrow> a = b"
  unfolding message_eq_def using memcmp_equal_eq by blast

lemma message_ne_iff: "message_ne a b \<longleftrightarrow> \<not> message_eq a b"
  by (simp only: message_ne_def message_eq_def de_Morgan_conj)

interpretation message_key: hashed_key message_eq "message_hash h" for h
  by unfold_locales auto

section \<open>Counting\<close>

definition holdings :: "object multiset \<Rightarrow> block multiset" where
  "holdings xs = (\<Sum>x\<in>#xs. mset (members x))"

lemma holdings_simps [simp]:
  "holdings {#} = {#}" "holdings (add_mset x xs) = mset (members x) + holdings xs"
  by (simp_all add: holdings_def)

lemma in_holdings: "b \<in># holdings xs \<longleftrightarrow> (\<exists>x. x \<in># xs \<and> b \<in> set (members x))"
  by (auto simp: holdings_def)

lemma holdings_remove: "x \<in># xs \<Longrightarrow> holdings xs = mset (members x) + holdings (xs - {#x#})"
  by (metis holdings_simps(2) insert_DiffM)

text \<open>A socket's context is held wherever the socket is.\<close>

definition grounded :: "block multiset \<Rightarrow> bool" where
  "grounded B \<longleftrightarrow> (\<forall>c k. Sock c k \<in># B \<longrightarrow> Ctx c \<in># B)"

lemma grounded_holdings [simp]: "grounded (holdings xs)"
proof (unfold grounded_def, intro allI impI)
  fix c k
  assume "Sock c k \<in># holdings xs"
  then obtain x where "x \<in># xs" "Sock c k \<in> set (members x)" by (auto simp: in_holdings)
  then show "Ctx c \<in># holdings xs" by (cases x) (auto simp: in_holdings)
qed

text \<open>What is released was opened before.\<close>

definition paired :: "call list \<Rightarrow> bool" where
  "paired vs \<longleftrightarrow> (\<forall>xs b ys. vs = xs @ Released b # ys \<longrightarrow> Opened b \<in> set xs)"

lemma paired_snoc:
  assumes "paired vs" "\<And>b. v = Released b \<Longrightarrow> Opened b \<in> set vs"
  shows "paired (vs @ [v])"
proof (unfold paired_def, intro allI impI)
  fix xs b ys
  assume eq: "vs @ [v] = xs @ Released b # ys"
  show "Opened b \<in> set xs"
  proof (cases ys rule: rev_cases)
    case Nil
    then show ?thesis using eq assms(2) by auto
  next
    case (snoc zs z)
    then show ?thesis using eq assms(1) by (auto simp: paired_def)
  qed
qed

lemma pairedD: "paired vs \<Longrightarrow> Released b \<in> set vs \<Longrightarrow> Opened b \<in> set vs"
  by (auto simp: paired_def dest!: split_list)

text \<open>No context is terminated before its sockets are closed, and no socket is made after that.\<close>

definition orderly :: "call list \<Rightarrow> bool" where
  "orderly vs \<longleftrightarrow> (\<forall>xs c ys k. vs = xs @ Released (Ctx c) # ys \<longrightarrow> Opened (Sock c k) \<in> set vs \<longrightarrow>
     Released (Sock c k) \<in> set xs)"

lemma orderlyD: "orderly (xs @ Released (Ctx c) # ys) \<Longrightarrow> Opened (Sock c k) \<in> set (xs @ Released (Ctx c) # ys) \<Longrightarrow>
    Released (Sock c k) \<in> set xs"
  unfolding orderly_def by blast

lemma orderly_snoc:
  assumes "orderly vs"
    and "\<And>c k. v = Released (Ctx c) \<Longrightarrow> Opened (Sock c k) \<in> set vs \<Longrightarrow> Released (Sock c k) \<in> set vs"
    and "\<And>c k. v = Opened (Sock c k) \<Longrightarrow> Released (Ctx c) \<notin> set vs"
  shows "orderly (vs @ [v])"
proof (unfold orderly_def, intro allI impI)
  fix xs c ys k
  assume eq: "vs @ [v] = xs @ Released (Ctx c) # ys" and o: "Opened (Sock c k) \<in> set (vs @ [v])"
  show "Released (Sock c k) \<in> set xs"
  proof (cases ys rule: rev_cases)
    case Nil
    then show ?thesis using eq o assms(2) by auto
  next
    case (snoc zs z)
    then have vs: "vs = xs @ Released (Ctx c) # zs" "v = z" using eq by simp_all
    then have "Opened (Sock c k) \<in> set vs" using o assms(3) [of c k] by auto
    then show ?thesis using assms(1) vs(1) orderlyD by blast
  qed
qed

text \<open>The state fits a collection of pointers: counts, what is open, and the order of the calls.\<close>

definition fits :: "block multiset \<Rightarrow> resources \<Rightarrow> bool" where
  "fits B s \<longleftrightarrow>
     (\<forall>b. uses s b = count B b) \<and>
     (\<forall>b. b \<in># B \<longleftrightarrow> Opened b \<in> set (calls s) \<and> Released b \<notin> set (calls s)) \<and>
     distinct (calls s) \<and> paired (calls s) \<and> orderly (calls s)"

lemma fits_open:
  assumes "fits B s" "unseen b s" "\<And>c k. b = Sock c k \<Longrightarrow> Ctx c \<in># B"
  shows "fits (add_mset b B) (open_block b s)"
proof -
  have "orderly (calls s @ [Opened b])"
    by (rule orderly_snoc) (use assms in \<open>auto simp: fits_def\<close>)
  moreover have "paired (calls s @ [Opened b])"
    by (rule paired_snoc) (use assms(1) in \<open>auto simp: fits_def\<close>)
  moreover have "Released b \<notin> set (calls s)" using assms(1,2) pairedD by (auto simp: fits_def unseen_def)
  moreover have "count B b = 0" using assms(1,2) by (auto simp: fits_def unseen_def count_eq_zero_iff)
  ultimately show ?thesis using assms(1,2) by (auto simp: fits_def open_block_def unseen_def)
qed

lemma fits_acquire: "fits B s \<Longrightarrow> b \<in># B \<Longrightarrow> fits (add_mset b B) (acquire b s)"
  by (auto simp: fits_def acquire_def)

lemma fits_release:
  assumes "fits (add_mset b B) s" "grounded B"
  shows "fits B (release ok b s)"
proof (cases "b \<in># B")
  case True
  then have "uses s b \<noteq> 1" using assms(1) by (simp add: fits_def)
  then have "release ok b s = s\<lparr>uses := (uses s)(b := uses s b - 1)\<rparr>" by (simp add: release_def)
  then show ?thesis using assms(1) True by (auto simp: fits_def)
next
  case False
  then have u: "uses s b = 1" "Opened b \<in> set (calls s)" "Released b \<notin> set (calls s)"
    using assms(1) by (auto simp: fits_def count_eq_zero_iff)
  have "orderly (calls s @ [Released b])"
  proof (rule orderly_snoc)
    fix c k
    assume b: "Released b = Released (Ctx c)" and o: "Opened (Sock c k) \<in> set (calls s)"
    then have "Sock c k \<notin># B" using assms(2) False by (auto simp: grounded_def)
    then show "Released (Sock c k) \<in> set (calls s)" using o assms(1) b by (auto simp: fits_def)
  qed (use assms(1) in \<open>auto simp: fits_def\<close>)
  moreover have "paired (calls s @ [Released b])"
    by (rule paired_snoc) (use assms(1) u in \<open>auto simp: fits_def\<close>)
  ultimately show ?thesis
    using assms(1) u False by (auto simp: fits_def release_def count_eq_zero_iff)
qed

lemma fits_objects [simp]: "fits B (s\<lparr>objects := xs\<rparr>) = fits B s" "fits B (enter x s) = fits B s"
    "fits B (s\<lparr>stranded := n\<rparr>) = fits B s"
  by (simp_all add: fits_def enter_def)

lemma objects_kept [simp]:
  "objects (open_block b s) = objects s" "objects (acquire b s) = objects s" "objects (release ok b s) = objects s"
  "objects (enter x s) = add_mset x (objects s)"
  by (simp_all add: open_block_def acquire_def release_def enter_def)

lemma unseen_acquire [simp]: "unseen b (acquire b' s) = unseen b s"
  by (simp add: unseen_def acquire_def)

section \<open>Every owner\<close>

lemma fits_copy:
  assumes "fits (holdings (objects s)) s" "x \<in># objects s"
  shows "fits (holdings (objects (copy_object x s))) (copy_object x s)"
proof -
  have "b \<in> set (members x) \<Longrightarrow> b \<in># holdings (objects s)" for b using assms(2) by (auto simp: in_holdings)
  then show ?thesis
    using assms(1) by (cases x) (simp_all add: copy_object_def fits_acquire add_mset_commute [of "Ctx _" "Sock _ _"])
qed

lemma fits_destroy:
  assumes "fits (holdings (objects s)) s" "x \<in># objects s"
  shows "fits (holdings (objects (destroy_object ok x s))) (destroy_object ok x s)"
proof -
  let ?B = "holdings (objects s - {#x#})" and ?s = "s\<lparr>objects := objects s - {#x#}\<rparr>"
  have all: "fits (mset (members x) + ?B) ?s" using assms holdings_remove [of x] by simp
  show ?thesis
  proof (cases x)
    case (Socket_t c k)
    have "fits (add_mset (Ctx c) ?B) (release ok (Sock c k) ?s)"
      by (rule fits_release) (use all Socket_t grounded_holdings [of "objects s - {#x#}"] in \<open>auto simp: grounded_def add_mset_commute\<close>)
    then show ?thesis by (simp add: destroy_object_def Socket_t fits_release)
  qed (use all in \<open>simp_all add: destroy_object_def fits_release\<close>)
qed

lemma owners_fit: "owners s \<Longrightarrow> fits (holdings (objects s)) s"
proof (induction rule: owners.induct)
  case start
  show ?case by (simp add: resources_new_def fits_def orderly_def paired_def)
next
  case (made_context s r)
  then show ?case by (auto simp: make_context_def intro!: fits_open split: sum.split)
next
  case (made_socket s c r ok)
  let ?B = "holdings (objects s)"
  have c: "Ctx c \<in># ?B" using made_socket.hyps(3) by (auto simp: in_holdings)
  then have a: "fits (add_mset (Ctx c) ?B) (acquire (Ctx c) s)" using made_socket.IH fits_acquire by blast
  show ?case
  proof (cases r)
    case (Inl e)
    then show ?thesis using a by (simp add: make_socket_def fits_release)
  next
    case (Inr k)
    have "fits (add_mset (Sock c k) (add_mset (Ctx c) ?B)) (open_block (Sock c k) (acquire (Ctx c) s))"
      by (rule fits_open) (use a made_socket.hyps(4) Inr in auto)
    then show ?thesis using Inr by (simp add: make_socket_def add_mset_commute)
  qed
next
  case (made_message s r)
  then show ?case by (auto simp: make_message_def intro!: fits_open split: sum.split)
qed (simp_all add: fits_copy fits_destroy)

section \<open>Properties\<close>

text \<open>
  C15. However contexts and sockets are made, copied and destroyed, by the time the library is asked to terminate a
  context, every socket that was ever made in it has been closed, so that the call, which
  waits for all sockets, does not hang; and no socket is made in the context afterwards.
\<close>

theorem context_outlives_sockets:
  assumes "owners s" and "calls s = before @ Released (Ctx c) # later" and "Opened (Sock c k) \<in> set (calls s)"
  shows "Opened (Sock c k) \<in> set before \<and> Released (Sock c k) \<in> set before \<and>
    Released (Ctx c) \<notin> set later"
proof -
  have f: "distinct (calls s)" "paired (calls s)" "orderly (calls s)"
    using owners_fit [OF assms(1)] by (simp_all add: fits_def)
  have r: "Released (Sock c k) \<in> set before" using f(3) assms(2,3) orderlyD by metis
  then obtain xs ys where "before = xs @ Released (Sock c k) # ys" using split_list by metis
  then have "Opened (Sock c k) \<in> set xs" "set xs \<subseteq> set before"
    using f(2) unfolding assms(2) paired_def by (metis append_Cons append_assoc, auto)
  then show ?thesis using r f(1) assms(2) by auto
qed

text \<open>
  A server's life: a context, a socket in it, the context object gone first, the socket last.
\<close>

definition short_life :: resources where
  "short_life = destroy_object (\<lambda>_. True) (Socket_t 0 0) (destroy_object (\<lambda>_. True) (Context_t 0)
     (fst (make_socket (\<lambda>_. True) 0 (Inr 0) (fst (make_context (Inr 0) resources_new)))))"

lemmas resource_simps = resources_new_def make_context_def make_socket_def open_block_def enter_def acquire_def
  release_def destroy_object_def unseen_def

lemma short_life_owners: "owners short_life"
  unfolding short_life_def
  by (intro owners.intros) (auto simp: resource_simps)

theorem context_outlives_sockets_witness:
  "calls short_life = [Opened (Ctx 0), Opened (Sock 0 0), Released (Sock 0 0), Released (Ctx 0)] \<and>
   Opened (Sock 0 0) \<in> {Opened (Ctx 0), Opened (Sock 0 0), Released (Sock 0 0)} \<and> Released (Ctx 0) \<notin> set ([] :: call list)"
proof -
  have c: "calls short_life = [Opened (Ctx 0), Opened (Sock 0 0), Released (Sock 0 0)] @ Released (Ctx 0) # []"
    by (simp add: short_life_def resource_simps)
  then show ?thesis using context_outlives_sockets [OF short_life_owners c, of 0] by simp
qed

text \<open>
  C24. What the library handed out is open exactly as long as some object holds it: nothing is given back
  while it is in use, nothing is given back twice, and when the last object is gone everything has
  been given back.
\<close>

theorem resources_released_once:
  assumes "owners s"
  shows "distinct (calls s) \<and>
    ((Opened b \<in> set (calls s) \<and> Released b \<notin> set (calls s)) = (\<exists>x. x \<in># objects s \<and> b \<in> set (members x))) \<and>
    (objects s = {#} \<longrightarrow> Opened b \<in> set (calls s) \<longrightarrow> Released b \<in> set (calls s))"
  using owners_fit [OF assms] in_holdings [of b "objects s"] by (auto simp: fits_def)

theorem resources_released_once_witness:
  "distinct (calls short_life) \<and> Released (Ctx 0) \<in> set (calls short_life)"
proof -
  have "objects short_life = {#}" "Opened (Ctx 0) \<in> set (calls short_life)"
    by (simp_all add: short_life_def resource_simps)
  then show ?thesis using resources_released_once [OF short_life_owners, of "Ctx 0"] by blast
qed

end
