(* ===== verification/Wiring.thy ===== *)
theory Wiring
  imports Sockets
begin

text \<open>
  How the components are plugged together: making, tuning, binding and connecting \<open>zmq::socket_t\<close>
  (\<open>zmq_helpers.cpp\<close>), the constructors of client, server, proxy and worker (\<open>prime_server.cpp\<close>), and what it
  means for the sockets of several components to fit each other.
\<close>

section \<open>Calls to the library\<close>

datatype socket_type = ZMQ_STREAM | ZMQ_DEALER | ZMQ_ROUTER | ZMQ_PUSH | ZMQ_PULL | ZMQ_PUB | ZMQ_SUB

datatype sockopt = ZMQ_SNDHWM int | ZMQ_RCVHWM int | ZMQ_SUBSCRIBE string | ZMQ_IPV6 bool

text \<open>The calls a constructor makes, and what the library reports: success, or an error with its
  text and whether it is \<open>EAFNOSUPPORT\<close>.\<close>

datatype zcall =
    Z_socket sock socket_type
  | Z_setsockopt sock sockopt
  | Z_bind sock string
  | Z_connect sock string

datatype zresult = Z_ok | Z_error bool string

type_synonym zhistory = "(zcall \<times> zresult) list"

type_synonym zlib = "zhistory \<Rightarrow> zcall \<Rightarrow> zresult"

type_synonym 'a plumbing = "(zhistory, std_error, 'a) action"

definition zcall_made :: "zlib \<Rightarrow> zcall \<Rightarrow> zresult plumbing" where
  "zcall_made lib c h = (h @ [(c, lib h c)], Inr (lib h c))"

definition zcheck :: "zresult \<Rightarrow> unit plumbing" where
  "zcheck r = (case r of Z_ok \<Rightarrow> ret () | Z_error _ e \<Rightarrow> raise (Runtime_error e))"

section \<open>Sockets\<close>

definition socket_new :: "zlib \<Rightarrow> sock \<Rightarrow> socket_type \<Rightarrow> unit plumbing" where
  "socket_new lib sk ty = bnd (zcall_made lib (Z_socket sk ty)) zcheck"

definition setsockopt :: "zlib \<Rightarrow> sock \<Rightarrow> sockopt \<Rightarrow> unit plumbing" where
  "setsockopt lib sk opt = bnd (zcall_made lib (Z_setsockopt sk opt)) zcheck"

definition socket_connect :: "zlib \<Rightarrow> sock \<Rightarrow> string \<Rightarrow> unit plumbing" where
  "socket_connect lib sk address =
     bnd (setsockopt lib sk (ZMQ_IPV6 True)) (\<lambda>_. bnd (zcall_made lib (Z_connect sk address)) zcheck)"

text \<open>Both address families first; IPv4 alone if the system does not support that.\<close>

definition socket_bind :: "zlib \<Rightarrow> sock \<Rightarrow> string \<Rightarrow> unit plumbing" where
  "socket_bind lib sk address =
     bnd (setsockopt lib sk (ZMQ_IPV6 True)) (\<lambda>_.
     bnd (zcall_made lib (Z_bind sk address)) (\<lambda>r.
       case r of
         Z_ok \<Rightarrow> ret ()
       | Z_error unsupported e \<Rightarrow>
           if unsupported
           then bnd (setsockopt lib sk (ZMQ_IPV6 False)) (\<lambda>_. bnd (zcall_made lib (Z_bind sk address)) zcheck)
           else raise (Runtime_error e)))"

fun in_order :: "unit plumbing list \<Rightarrow> unit plumbing" where
  "in_order [] = ret ()"
| "in_order (m # ms) = bnd m (\<lambda>_. in_order ms)"

section \<open>The constructors\<close>

definition client_setup :: "zlib \<Rightarrow> string \<Rightarrow> unit plumbing" where
  "client_setup lib server_endpoint =
     in_order
       [socket_new lib SERVER ZMQ_STREAM,
        setsockopt lib SERVER (ZMQ_SNDHWM 0), setsockopt lib SERVER (ZMQ_RCVHWM 0),
        socket_connect lib SERVER server_endpoint]"

definition server_setup :: "zlib \<Rightarrow> string \<Rightarrow> string \<Rightarrow> string \<Rightarrow> string \<Rightarrow> unit plumbing" where
  "server_setup lib client_endpoint proxy_endpoint result_endpoint interrupt_endpoint =
     in_order
       [socket_new lib CLIENT ZMQ_STREAM, socket_new lib PROXY ZMQ_DEALER,
        socket_new lib LOOPBACK ZMQ_PULL, socket_new lib INTERRUPT ZMQ_PUB,
        setsockopt lib CLIENT (ZMQ_SNDHWM 0), setsockopt lib CLIENT (ZMQ_RCVHWM 0),
        socket_bind lib CLIENT client_endpoint,
        setsockopt lib PROXY (ZMQ_RCVHWM 0), setsockopt lib PROXY (ZMQ_SNDHWM 0),
        socket_connect lib PROXY proxy_endpoint,
        setsockopt lib LOOPBACK (ZMQ_RCVHWM 0),
        socket_bind lib LOOPBACK result_endpoint,
        setsockopt lib INTERRUPT (ZMQ_SNDHWM 0),
        socket_bind lib INTERRUPT interrupt_endpoint]"

definition proxy_setup :: "zlib \<Rightarrow> string \<Rightarrow> string \<Rightarrow> unit plumbing" where
  "proxy_setup lib upstream_endpoint downstream_endpoint =
     in_order
       [socket_new lib UPSTREAM ZMQ_ROUTER, socket_new lib DOWNSTREAM ZMQ_ROUTER,
        setsockopt lib UPSTREAM (ZMQ_RCVHWM 0), setsockopt lib UPSTREAM (ZMQ_SNDHWM 0),
        socket_bind lib UPSTREAM upstream_endpoint,
        setsockopt lib DOWNSTREAM (ZMQ_RCVHWM 0), setsockopt lib DOWNSTREAM (ZMQ_SNDHWM 0),
        socket_bind lib DOWNSTREAM downstream_endpoint]"

definition worker_setup :: "zlib \<Rightarrow> string \<Rightarrow> string \<Rightarrow> string \<Rightarrow> string \<Rightarrow> unit plumbing" where
  "worker_setup lib upstream_proxy_endpoint downstream_proxy_endpoint result_endpoint interrupt_endpoint =
     in_order
       [socket_new lib UPSTREAM ZMQ_DEALER, socket_new lib DOWNSTREAM ZMQ_DEALER,
        socket_new lib LOOPBACK ZMQ_PUSH, socket_new lib INTERRUPT ZMQ_SUB,
        setsockopt lib UPSTREAM (ZMQ_RCVHWM 0), setsockopt lib UPSTREAM (ZMQ_SNDHWM 0),
        socket_connect lib UPSTREAM upstream_proxy_endpoint,
        setsockopt lib DOWNSTREAM (ZMQ_RCVHWM 0), setsockopt lib DOWNSTREAM (ZMQ_SNDHWM 0),
        socket_connect lib DOWNSTREAM downstream_proxy_endpoint,
        setsockopt lib LOOPBACK (ZMQ_SNDHWM 0),
        socket_connect lib LOOPBACK result_endpoint,
        setsockopt lib INTERRUPT (ZMQ_RCVHWM 0), setsockopt lib INTERRUPT (ZMQ_SUBSCRIBE []),
        socket_connect lib INTERRUPT interrupt_endpoint]"

section \<open>Plugs\<close>

text \<open>
  What is left of a set-up: the ends that are bound and connected, each with the type its socket was
  made with.
\<close>

record plug =
  plug_type :: socket_type
  bound :: bool
  endpoint :: string

fun type_of :: "zhistory \<Rightarrow> sock \<Rightarrow> socket_type option" where
  "type_of [] sk = None"
| "type_of ((Z_socket sk' ty, Z_ok) # h) sk = (if sk' = sk then Some ty else type_of h sk)"
| "type_of (_ # h) sk = type_of h sk"

definition plug_end :: "zhistory \<Rightarrow> sock \<Rightarrow> bool \<Rightarrow> string \<Rightarrow> plug list" where
  "plug_end all sk b a = (case type_of all sk of None \<Rightarrow> [] | Some ty \<Rightarrow> [\<lparr>plug_type = ty, bound = b, endpoint = a\<rparr>])"

fun plugs_in :: "zhistory \<Rightarrow> zhistory \<Rightarrow> plug list" where
  "plugs_in all [] = []"
| "plugs_in all ((Z_bind sk a, Z_ok) # h) = plug_end all sk True a @ plugs_in all h"
| "plugs_in all ((Z_connect sk a, Z_ok) # h) = plug_end all sk False a @ plugs_in all h"
| "plugs_in all (_ # h) = plugs_in all h"

definition plugs :: "zhistory \<Rightarrow> plug list" where
  "plugs h = plugs_in h h"

text \<open>The pairs of types that zmq lets talk to each other.\<close>

fun compatible :: "socket_type \<Rightarrow> socket_type \<Rightarrow> bool" where
  "compatible ZMQ_STREAM ZMQ_STREAM = True"
| "compatible ZMQ_DEALER ZMQ_ROUTER = True"
| "compatible ZMQ_PUSH ZMQ_PULL = True"
| "compatible ZMQ_SUB ZMQ_PUB = True"
| "compatible _ _ = False"

text \<open>
  Plugs fit: every endpoint is bound once, and every end that is connected has a partner of a matching type, except for
  ends that lead nowhere on purpose.
\<close>

definition fitting :: "string list \<Rightarrow> plug list \<Rightarrow> bool" where
  "fitting dead ps \<longleftrightarrow>
     distinct (map endpoint (filter bound ps)) \<and>
     list_all (\<lambda>p. bound p \<or> endpoint p \<in> set dead \<or>
       list_ex (\<lambda>q. bound q \<and> endpoint q = endpoint p \<and> compatible (plug_type p) (plug_type q)) ps) ps"

text \<open>High water marks count only for ends that are bound or connected afterwards.\<close>

fun is_mark :: "sock \<Rightarrow> zcall \<Rightarrow> bool" where
  "is_mark sk (Z_setsockopt sk' (ZMQ_SNDHWM _)) = (sk' = sk)"
| "is_mark sk (Z_setsockopt sk' (ZMQ_RCVHWM _)) = (sk' = sk)"
| "is_mark sk _ = False"

fun tuned_first :: "zhistory \<Rightarrow> bool" where
  "tuned_first [] = True"
| "tuned_first ((Z_bind sk a, r) # h) = (list_all (\<lambda>(c, _). \<not> is_mark sk c) h \<and> tuned_first h)"
| "tuned_first ((Z_connect sk a, r) # h) = (list_all (\<lambda>(c, _). \<not> is_mark sk c) h \<and> tuned_first h)"
| "tuned_first (_ # h) = tuned_first h"

section \<open>Facts\<close>

lemmas setup_defs = socket_new_def setsockopt_def socket_connect_def socket_bind_def zcall_made_def zcheck_def

text \<open>What a call that succeeds leaves in the history, whatever the library does.\<close>

lemma setup_ok:
  "socket_new lib sk ty h = (h', Inr ()) \<Longrightarrow> h' = h @ [(Z_socket sk ty, Z_ok)]"
  "setsockopt lib sk opt h = (h', Inr ()) \<Longrightarrow> h' = h @ [(Z_setsockopt sk opt, Z_ok)]"
  "socket_connect lib sk a h = (h', Inr ()) \<Longrightarrow>
     h' = h @ [(Z_setsockopt sk (ZMQ_IPV6 True), Z_ok), (Z_connect sk a, Z_ok)]"
  by (auto simp: setup_defs seq_simps split: zresult.splits)

lemma bind_ok:
  "socket_bind lib sk a h = (h', Inr ()) \<Longrightarrow>
   h' = h @ [(Z_setsockopt sk (ZMQ_IPV6 True), Z_ok), (Z_bind sk a, Z_ok)] \<or>
   (\<exists>e. h' = h @ [(Z_setsockopt sk (ZMQ_IPV6 True), Z_ok), (Z_bind sk a, Z_error True e),
      (Z_setsockopt sk (ZMQ_IPV6 False), Z_ok), (Z_bind sk a, Z_ok)])"
  by (auto simp: setup_defs seq_simps split: zresult.splits if_splits)

lemma in_order_ok: "in_order (m # ms) h = (h', Inr ()) \<Longrightarrow> \<exists>h1. m h = (h1, Inr ()) \<and> in_order ms h1 = (h', Inr ())"
  by (auto simp: bnd_Inr)

lemmas plug_simps = in_order.simps(1) ret_def plugs_def plug_end_def

lemma server_plugs:
  assumes "server_setup lib c p r i [] = (h, Inr ())"
  shows "tuned_first h \<and>
     plugs h = [\<lparr>plug_type = ZMQ_STREAM, bound = True, endpoint = c\<rparr>, \<lparr>plug_type = ZMQ_DEALER, bound = False, endpoint = p\<rparr>,
       \<lparr>plug_type = ZMQ_PULL, bound = True, endpoint = r\<rparr>, \<lparr>plug_type = ZMQ_PUB, bound = True, endpoint = i\<rparr>]"
  using assms unfolding server_setup_def
  by (auto simp: plug_simps simp del: in_order.simps(2) dest!: in_order_ok setup_ok bind_ok)

lemma proxy_plugs:
  assumes "proxy_setup lib u d [] = (h, Inr ())"
  shows "tuned_first h \<and>
     plugs h = [\<lparr>plug_type = ZMQ_ROUTER, bound = True, endpoint = u\<rparr>, \<lparr>plug_type = ZMQ_ROUTER, bound = True, endpoint = d\<rparr>]"
  using assms unfolding proxy_setup_def
  by (auto simp: plug_simps simp del: in_order.simps(2) dest!: in_order_ok setup_ok bind_ok)

lemma worker_plugs:
  assumes "worker_setup lib u d r i [] = (h, Inr ())"
  shows "tuned_first h \<and>
     plugs h = [\<lparr>plug_type = ZMQ_DEALER, bound = False, endpoint = u\<rparr>, \<lparr>plug_type = ZMQ_DEALER, bound = False, endpoint = d\<rparr>,
       \<lparr>plug_type = ZMQ_PUSH, bound = False, endpoint = r\<rparr>, \<lparr>plug_type = ZMQ_SUB, bound = False, endpoint = i\<rparr>]"
  using assms unfolding worker_setup_def
  by (auto simp: plug_simps simp del: in_order.simps(2) dest!: in_order_ok setup_ok bind_ok)

lemma client_plugs:
  assumes "client_setup lib s [] = (h, Inr ())"
  shows "tuned_first h \<and> plugs h = [\<lparr>plug_type = ZMQ_STREAM, bound = False, endpoint = s\<rparr>]"
  using assms unfolding client_setup_def
  by (auto simp: plug_simps simp del: in_order.simps(2) dest!: in_order_ok setup_ok bind_ok)

text \<open>A library that never fails.\<close>

definition willing :: zlib where
  "willing h c = Z_ok"

lemma setup_willing:
  "\<exists>h'. socket_new willing sk ty h = (h', Inr ())" "\<exists>h'. setsockopt willing sk opt h = (h', Inr ())"
  "\<exists>h'. socket_connect willing sk a h = (h', Inr ())" "\<exists>h'. socket_bind willing sk a h = (h', Inr ())"
  by (simp_all add: setup_defs bnd_def ret_def willing_def)

lemma in_order_willing:
  "(\<And>h m. m \<in> set ms \<Longrightarrow> \<exists>h'. m h = (h', Inr ())) \<Longrightarrow> \<exists>h'. in_order ms h = (h', Inr ())"
proof (induction ms arbitrary: h)
  case (Cons m ms)
  obtain h1 where "m h = (h1, Inr ())" using Cons.prems by force
  moreover have "\<exists>h'. in_order ms h1 = (h', Inr ())" by (rule Cons.IH) (simp add: Cons.prems)
  ultimately show ?case by (auto simp: bnd_Inr)
qed (simp add: ret_def)

lemma constructors_willing:
  "\<exists>h. client_setup willing s [] = (h, Inr ())" "\<exists>h. server_setup willing c p r i [] = (h, Inr ())"
  "\<exists>h. proxy_setup willing u d [] = (h, Inr ())" "\<exists>h. worker_setup willing u d r i [] = (h, Inr ())"
  unfolding client_setup_def server_setup_def proxy_setup_def worker_setup_def
  by (rule in_order_willing; use setup_willing in auto)+

end
