(* ===== verification/Shutdown.thy ===== *)
theory Shutdown
  imports Server_Wire Proxy
begin

text \<open>
  The graceful shutdown of \<open>prime_server.cpp\<close>: \<open>quiescable\<close>, the process-wide flags that a thread sets
  after \<open>SIGTERM\<close>, and the loops of the server and the proxy that look at them before every turn.
\<close>

section \<open>State\<close>

record quiescable =
  q_draining :: bool
  q_shutting_down :: bool

text \<open>The thread that waits for the signal, with the seconds it has captured. Times are in milliseconds.\<close>

datatype phase = Waiting | Sleeping nat | Finished

text \<open>
  The static instance, which does not exist before the first call of \<open>get\<close>; the thread; whether \<open>SIGTERM\<close> is
  blocked and whether one is pending; whether the process has been killed by one; the time; the times
  at which the signal was sent; and what has been logged.
\<close>

record process =
  quiescer :: "quiescable option"
  waiter :: "(phase \<times> nat) option"
  term_blocked :: bool
  term_pending :: bool
  killed :: bool
  now_ms :: nat
  terms :: "nat list"
  logged :: "string list"

definition process_new :: process where
  "process_new = \<lparr>quiescer = None, waiter = None, term_blocked = False, term_pending = False, killed = False,
     now_ms = 0, terms = [], logged = []\<rparr>"

section \<open>Operations\<close>

text \<open>The constructor; \<open>masked\<close> is whether \<open>pthread_sigmask\<close> succeeds.\<close>

definition quiescable_new :: "bool \<Rightarrow> u32 \<Rightarrow> process \<Rightarrow> process" where
  "quiescable_new masked drain_seconds s =
     (let s1 = s\<lparr>quiescer := Some \<lparr>q_draining = False, q_shutting_down = False\<rparr>\<rparr> in
      if drain_seconds = 0 then s1
      else if \<not> masked then s1\<lparr>logged := logged s1 @ [''Could not mask SIGTERM, graceful shutdown disabled'']\<rparr>
      else s1\<lparr>term_blocked := True, waiter := Some (Waiting, unat drain_seconds)\<rparr>)"

definition quiescable_get :: "bool \<Rightarrow> u32 \<Rightarrow> process \<Rightarrow> process" where
  "quiescable_get masked drain_seconds s =
     (case quiescer s of None \<Rightarrow> quiescable_new masked drain_seconds s | Some _ \<Rightarrow> s)"

definition quiesce :: "bool \<Rightarrow> u32 \<Rightarrow> process \<Rightarrow> process" where
  "quiesce masked drain_seconds s = quiescable_get masked drain_seconds s"

definition is_draining :: "process \<Rightarrow> process \<times> bool" where
  "is_draining s = (let s1 = quiescable_get True 0 s in (s1, case quiescer s1 of None \<Rightarrow> False | Some q \<Rightarrow> q_draining q))"

definition is_shutting_down :: "process \<Rightarrow> process \<times> bool" where
  "is_shutting_down s =
     (let s1 = quiescable_get True 0 s in (s1, case quiescer s1 of None \<Rightarrow> False | Some q \<Rightarrow> q_shutting_down q))"

text \<open>The signal: it kills the process unless it is blocked.\<close>

definition send_term :: "process \<Rightarrow> process" where
  "send_term s =
     (let s1 = s\<lparr>terms := terms s @ [now_ms s]\<rparr> in
      if term_blocked s then s1\<lparr>term_pending := True\<rparr> else s1\<lparr>killed := True\<rparr>)"

definition set_flags :: "(quiescable \<Rightarrow> quiescable) \<Rightarrow> process \<Rightarrow> process" where
  "set_flags f s = s\<lparr>quiescer := map_option f (quiescer s)\<rparr>"

text \<open>The two steps of the thread: \<open>sigwait\<close> returns, which takes the pending signal or fails, and \<open>sleep\<close> returns.\<close>

definition waiter_wakes :: "bool \<Rightarrow> process \<Rightarrow> process" where
  "waiter_wakes ok s =
     (case waiter s of
        Some (Waiting, d) \<Rightarrow>
          if ok then
            if term_pending s
            then (set_flags (q_draining_update (\<lambda>_. True)) s)\<lparr>term_pending := False, waiter := Some (Sleeping (now_ms s), d)\<rparr>
            else s
          else s\<lparr>waiter := Some (Finished, d),
                 logged := logged s @ [''Could not wait for SIGTERM, graceful shutdown disabled'']\<rparr>
      | _ \<Rightarrow> s)"

definition waiter_done :: "process \<Rightarrow> process" where
  "waiter_done s =
     (case waiter s of
        Some (Sleeping t, d) \<Rightarrow>
          if t + 1000 * d \<le> now_ms s
          then (set_flags (q_shutting_down_update (\<lambda>_. True)) s)\<lparr>waiter := Some (Finished, d)\<rparr>
          else s
      | _ \<Rightarrow> s)"

definition pass_time :: "nat \<Rightarrow> process \<Rightarrow> process" where
  "pass_time n s = s\<lparr>now_ms := now_ms s + n\<rparr>"

text \<open>Everything that may happen to a process that has not been killed.\<close>

inductive process_runs :: "process \<Rightarrow> bool" where
  start: "process_runs process_new"
| quiesced: "process_runs s \<Longrightarrow> \<not> killed s \<Longrightarrow> process_runs (quiesce masked drain s)"
| asked_draining: "process_runs s \<Longrightarrow> \<not> killed s \<Longrightarrow> process_runs (fst (is_draining s))"
| asked_down: "process_runs s \<Longrightarrow> \<not> killed s \<Longrightarrow> process_runs (fst (is_shutting_down s))"
| signalled: "process_runs s \<Longrightarrow> \<not> killed s \<Longrightarrow> process_runs (send_term s)"
| woke: "process_runs s \<Longrightarrow> \<not> killed s \<Longrightarrow> process_runs (waiter_wakes ok s)"
| slept: "process_runs s \<Longrightarrow> \<not> killed s \<Longrightarrow> process_runs (waiter_done s)"
| time: "process_runs s \<Longrightarrow> \<not> killed s \<Longrightarrow> process_runs (pass_time n s)"

text \<open>
  On Windows the handler of console events does the work of the thread, in a thread that the system
  makes for it: it sets one flag, sleeps and sets the other. Other events are left to the system.
\<close>

datatype ctrl_event = CTRL_C_EVENT | CTRL_BREAK_EVENT | CTRL_CLOSE_EVENT | CTRL_LOGOFF_EVENT | CTRL_SHUTDOWN_EVENT

definition quiescable_new_windows :: "bool \<Rightarrow> u32 \<Rightarrow> process \<Rightarrow> process \<times> u32 option" where
  "quiescable_new_windows installed seconds s =
     (let s1 = s\<lparr>quiescer := Some \<lparr>q_draining = False, q_shutting_down = False\<rparr>\<rparr> in
      if seconds = 0 then (s1, None)
      else if \<not> installed
      then (s1\<lparr>logged := logged s1 @ [''Could not install console ctrl handler, graceful shutdown disabled'']\<rparr>, None)
      else (s1, Some seconds))"

definition ctrl_handler :: "u32 \<Rightarrow> ctrl_event \<Rightarrow> process \<Rightarrow> process \<times> bool" where
  "ctrl_handler drain_seconds event s =
     (if event = CTRL_C_EVENT \<or> event = CTRL_BREAK_EVENT \<or> event = CTRL_CLOSE_EVENT
      then let s1 = set_flags (q_draining_update (\<lambda>_. True)) (quiescable_get True 0 s);
               s2 = pass_time (1000 * unat drain_seconds) s1
           in (set_flags (q_shutting_down_update (\<lambda>_. True)) s2, True)
      else (s, False))"

section \<open>Loops that look at the flags\<close>

text \<open>\<open>poll\<close> throws when the library reports an error, outside of any \<open>try\<close> block.\<close>

definition POLL_TIMEOUT :: nat where
  "POLL_TIMEOUT = 1000"

definition poll :: "string + 'p \<Rightarrow> exn + 'p" where
  "poll r = (case r of Inl e \<Rightarrow> Inl (Std (Runtime_error e)) | Inr p \<Rightarrow> Inr p)"

text \<open>
  \<open>while (!shutting_down()) { poll; ... }\<close> over what the polls will find; it ends with what is left of that
  when the flag is seen.
\<close>

fun while_up :: "('s \<Rightarrow> bool) \<Rightarrow> ('p \<Rightarrow> ('s, exn, unit) action) \<Rightarrow> (string + 'p) list \<Rightarrow> ('s, exn, (string + 'p) list) action" where
  "while_up down turn [] s = (s, Inr [])"
| "while_up down turn (r # rs) s =
     (if down s then (s, Inr (r # rs))
      else case poll r of
             Inl x \<Rightarrow> (s, Inl x)
           | Inr p \<Rightarrow> bnd (turn p) (\<lambda>_. while_up down turn rs) s)"

definition serve_while ::
  "('r, 'i, 'x) protocol \<Rightarrow> ('r, 'i) server_config \<Rightarrow> ('i event list \<Rightarrow> process) \<Rightarrow> (string + 'i polled) list \<Rightarrow>
   ('r, 'i, (string + 'i polled) list) serving" where
  "serve_while pr cf proc = while_up (\<lambda>s. snd (is_shutting_down (proc (events s)))) (serve_turn pr cf)"

definition forward_while ::
  "('i, 'z) proxy_config_scheme \<Rightarrow> ('i event list \<Rightarrow> process) \<Rightarrow> (string + 'i forwarded) list \<Rightarrow>
   ('i, (string + 'i forwarded) list) proxying" where
  "forward_while cf proc = while_up (\<lambda>s. snd (is_shutting_down (proc (events s)))) (forward_turn cf)"

section \<open>The flags\<close>

lemmas process_simps = process_new_def quiescable_new_def quiescable_get_def quiesce_def is_draining_def is_shutting_down_def
  send_term_def set_flags_def waiter_wakes_def waiter_done_def pass_time_def Let_def

text \<open>The flags follow the thread, and the thread follows the signal.\<close>

fun phase_flags :: "(phase \<times> nat) option \<Rightarrow> nat list \<Rightarrow> nat \<Rightarrow> quiescable \<Rightarrow> bool" where
  "phase_flags None ts t q = (\<not> q_draining q \<and> \<not> q_shutting_down q)"
| "phase_flags (Some (Waiting, d)) ts t q = (0 < d \<and> \<not> q_draining q \<and> \<not> q_shutting_down q)"
| "phase_flags (Some (Sleeping t0, d)) ts t q = (0 < d \<and> q_draining q \<and> \<not> q_shutting_down q \<and> t0 \<le> t \<and> (\<exists>t1 \<in> set ts. t1 \<le> t0))"
| "phase_flags (Some (Finished, d)) ts t q =
     (0 < d \<and> q_draining q = q_shutting_down q \<and> (q_shutting_down q \<longrightarrow> (\<exists>t1 \<in> set ts. t1 + 1000 * d \<le> t)))"

definition process_inv :: "process \<Rightarrow> bool" where
  "process_inv s \<longleftrightarrow>
     (case quiescer s of None \<Rightarrow> waiter s = None | Some q \<Rightarrow> phase_flags (waiter s) (terms s) (now_ms s) q) \<and>
     (term_blocked s \<longleftrightarrow> waiter s \<noteq> None) \<and> (term_pending s \<longrightarrow> terms s \<noteq> []) \<and>
     (\<forall>t \<in> set (terms s). t \<le> now_ms s) \<and> (killed s \<longrightarrow> waiter s = None)"

lemma phase_flags_sound:
  "phase_flags w ts t q \<Longrightarrow>
   (q_shutting_down q \<longrightarrow> q_draining q \<and> (\<exists>p d. w = Some (p, d) \<and> 0 < d \<and> (\<exists>t1 \<in> set ts. t1 + 1000 * d \<le> t))) \<and>
   (q_draining q \<longrightarrow> ts \<noteq> [])"
  by (induction w ts t q rule: phase_flags.induct) auto

lemma phase_flags_later:
  "phase_flags w ts t q \<Longrightarrow> set ts \<subseteq> set ts' \<Longrightarrow> t \<le> t' \<Longrightarrow> phase_flags w ts' t' q"
  by (induction w ts t q rule: phase_flags.induct) (auto intro: order_trans)

lemma inv_get: "process_inv s \<Longrightarrow> \<not> killed s \<Longrightarrow> process_inv (quiescable_get masked d s)"
  by (auto simp: process_inv_def process_simps unat_gt_0 split: option.splits)

lemma inv_send_term: "process_inv s \<Longrightarrow> process_inv (send_term s)"
  by (auto simp: process_inv_def send_term_def Let_def intro: phase_flags_later split: option.splits)

lemma inv_wakes: "process_inv s \<Longrightarrow> process_inv (waiter_wakes ok s)"
proof (cases "waiter s")
  case (Some w)
  assume inv: "process_inv s"
  obtain p d where w: "w = (p, d)" by fastforce
  obtain q where "quiescer s = Some q" using inv Some by (auto simp: process_inv_def split: option.splits)
  moreover have "term_pending s \<Longrightarrow> \<exists>t1 \<in> set (terms s). t1 \<le> now_ms s"
    using inv by (cases "terms s") (auto simp: process_inv_def)
  ultimately show ?thesis
    using inv Some w by (cases p) (auto simp: process_inv_def waiter_wakes_def set_flags_def)
qed (simp add: waiter_wakes_def)

lemma earlier_signal: "t1 \<in> T \<Longrightarrow> t1 \<le> t0 \<Longrightarrow> t0 + k \<le> (t :: nat) \<Longrightarrow> \<exists>t1 \<in> T. t1 + k \<le> t"
  by (rule bexI) auto

lemma inv_done: "process_inv s \<Longrightarrow> process_inv (waiter_done s)"
proof (cases "waiter s")
  case (Some w)
  assume inv: "process_inv s"
  obtain p d where w: "w = (p, d)" by fastforce
  obtain q where "quiescer s = Some q" using inv Some by (auto simp: process_inv_def split: option.splits)
  then show ?thesis
    using inv Some w
    by (cases p) (auto simp: process_inv_def waiter_done_def set_flags_def intro: earlier_signal)
qed (simp add: waiter_done_def)

lemma inv_time: "process_inv s \<Longrightarrow> process_inv (pass_time n s)"
  by (auto simp: process_inv_def pass_time_def intro: phase_flags_later trans_le_add1 split: option.splits)

lemma process_runs_inv: "process_runs s \<Longrightarrow> process_inv s"
proof (induction rule: process_runs.induct)
  case start
  show ?case by (simp add: process_inv_def process_new_def)
qed (simp_all add: quiesce_def is_draining_def is_shutting_down_def Let_def inv_get inv_send_term inv_wakes inv_done inv_time)

text \<open>Who asks first decides: once there is an instance, \<open>quiesce\<close> does nothing.\<close>

lemma quiesce_once: "quiescer s \<noteq> None \<Longrightarrow> quiesce masked d s = s"
  by (auto simp: quiesce_def quiescable_get_def)

lemma quiesce_after_asking: "quiescer s = None \<Longrightarrow> \<not> term_blocked s \<Longrightarrow> killed (send_term (quiesce masked d (fst (is_draining s))))"
  by (simp add: process_simps)

text \<open>The thread finishes: woken by a signal it sets the flag after the seconds it was given.\<close>

lemma drain_ends:
  assumes "process_runs s" "waiter s = Some (Waiting, d)" "1000 * d \<le> n"
  shows "snd (is_shutting_down (waiter_done (pass_time n (waiter_wakes True (send_term s)))))"
proof -
  obtain q where "quiescer s = Some q" "term_blocked s"
    using process_runs_inv [OF assms(1)] assms(2) by (auto simp: process_inv_def split: option.splits)
  then show ?thesis using assms(2,3) by (simp add: process_simps)
qed

section \<open>Loops\<close>

text \<open>
  A loop over turns, as \<open>serve\<close> and \<open>forward\<close> are defined, and the same loop with the flag in front. It takes
  a prefix of the turns, each to its end, and stops at the first look that sees the flag.
\<close>

locale turn_loop =
  fixes turn :: "'p \<Rightarrow> ('s, exn, unit) action"
    and loop :: "'p list \<Rightarrow> ('s, exn, unit) action"
  assumes loop_Nil: "loop [] = ret ()"
    and loop_Cons: "loop (p # ps) = bnd (turn p) (\<lambda>_. loop ps)"
begin

lemma while_up_prefix:
  "while_up down turn rs s = (s', Inr rest) \<Longrightarrow>
   \<exists>ps. rs = map Inr ps @ rest \<and> loop ps s = (s', Inr ()) \<and> (rest = [] \<or> down s')"
proof (induction rs arbitrary: s)
  case Nil
  then show ?case by (simp add: loop_Nil ret_def)
next
  case (Cons r rs)
  show ?case
  proof (cases "down s")
    case True
    then show ?thesis using Cons.prems by (intro exI [of _ "[]"]) (auto simp: loop_Nil ret_def)
  next
    case False
    then obtain p s1 where "r = Inr p" "turn p s = (s1, Inr ())" "while_up down turn rs s1 = (s', Inr rest)"
      using Cons.prems by (cases r) (auto simp: poll_def bnd_Inr)
    moreover from this(3) obtain ps where "rs = map Inr ps @ rest" "loop ps s1 = (s', Inr ())" "rest = [] \<or> down s'"
      using Cons.IH by blast
    ultimately show ?thesis by (intro exI [of _ "p # ps"]) (auto simp: loop_Cons bnd_Inr)
  qed
qed

text \<open>How late the loop stops: not before the flag is set, and at most one turn after that.\<close>

lemma while_up_window:
  assumes "while_up down turn rs s = (s', Inr rest)" "rest \<noteq> []"
    and "\<And>p s s1. turn p s = (s1, Inr ()) \<Longrightarrow> time s1 \<le> time s + step"
    and "\<And>s. deadline \<le> time s \<Longrightarrow> down s" and "time s \<le> deadline + step"
  shows "down s' \<and> time s' \<le> (deadline :: nat) + step"
  using assms(1,5)
proof (induction rs arbitrary: s)
  case Nil
  then show ?case using assms(2) by simp
next
  case (Cons r rs)
  show ?case
  proof (cases "down s")
    case True
    then show ?thesis using Cons.prems by simp
  next
    case False
    then obtain p s1 where s1: "turn p s = (s1, Inr ())" "while_up down turn rs s1 = (s', Inr rest)"
      using Cons.prems(1) by (cases r) (auto simp: poll_def bnd_Inr)
    have "time s < deadline" using assms(4) False by (metis not_le)
    then have "time s1 \<le> deadline + step" using assms(3) [OF s1(1)] by linarith
    then show ?thesis using Cons.IH s1(2) by blast
  qed
qed

end

interpretation serve_loop: turn_loop "serve_turn pr cf" "serve pr cf" for pr cf
  by unfold_locales simp_all

interpretation forward_loop: turn_loop "forward_turn cf" "forward cf" for cf
  by unfold_locales simp_all

text \<open>The process around a loop, seen at the loop's events: it runs, and its thread is not late.\<close>

definition drains :: "('i event list \<Rightarrow> process) \<Rightarrow> nat \<Rightarrow> nat \<Rightarrow> bool" where
  "drains proc t d \<longleftrightarrow>
     (\<forall>h. process_runs (proc h) \<and> \<not> killed (proc h) \<and> set (terms (proc h)) \<subseteq> {t} \<and> (\<exists>p. waiter (proc h) = Some (p, d)) \<and>
       (t + 1000 * d \<le> now_ms (proc h) \<longrightarrow> snd (is_shutting_down (proc h))))"

lemma drains_down:
  assumes "drains proc t d" "snd (is_shutting_down (proc h))"
  shows "t + 1000 * d \<le> now_ms (proc h)"
proof -
  have inv: "process_inv (proc h)" "set (terms (proc h)) \<subseteq> {t}" and w: "\<exists>p. waiter (proc h) = Some (p, d)"
    using assms(1) process_runs_inv unfolding drains_def by blast+
  obtain p where p: "waiter (proc h) = Some (p, d)" using w by blast
  then obtain q where q: "quiescer (proc h) = Some q" using inv(1) by (auto simp: process_inv_def split: option.splits)
  then have "q_shutting_down q" using assms(2) by (simp add: process_simps)
  then show ?thesis using inv p q by (cases p) (auto simp: process_inv_def)
qed

section \<open>Properties\<close>


text \<open>A process that was told to drain for one second, and a signal at its start.\<close>

definition signalled_at_start :: process where
  "signalled_at_start = waiter_wakes True (send_term (quiesce True 1 process_new))"

lemma signalled_at_start_runs: "process_runs (pass_time n signalled_at_start)"
  "process_runs (waiter_done (pass_time n signalled_at_start))"
  unfolding signalled_at_start_def
  by (intro process_runs.intros; simp add: process_simps)+


text \<open>
  C23. The server drains and then stops. If \<open>SIGTERM\<close> comes at time \<open>t\<close> and the drain time is \<open>d\<close> seconds, the loop
  serves every turn up to \<open>t + d\<close> to its end, as if there had been no signal, and it stops after that, at the
  latest one poll timeout and one turn's work later.
\<close>

theorem serve_stops_after_drain:
  assumes "drains proc t d"
    and "\<And>p s s1. serve_turn pr cf p s = (s1, Inr ()) \<Longrightarrow>
          now_ms (proc (events s1)) \<le> now_ms (proc (events s)) + (POLL_TIMEOUT + busy)"
    and "now_ms (proc (events s)) \<le> t + 1000 * d"
    and "serve_while pr cf proc rs s = (s', Inr rest)" and "rest \<noteq> []"
  shows "\<exists>ps. rs = map Inr ps @ rest \<and> serve pr cf ps s = (s', Inr ()) \<and>
    t + 1000 * d \<le> now_ms (proc (events s')) \<and>
    now_ms (proc (events s')) \<le> t + 1000 * d + (POLL_TIMEOUT + busy)"
proof -
  let ?down = "\<lambda>s. snd (is_shutting_down (proc (events s)))" and ?time = "\<lambda>s. now_ms (proc (events s))"
  have run: "while_up ?down (serve_turn pr cf) rs s = (s', Inr rest)" using assms(4) by (simp add: serve_while_def)
  have late: "?down s" if "t + 1000 * d \<le> ?time s" for s using assms(1) that by (auto simp: drains_def)
  have "?down s' \<and> ?time s' \<le> t + 1000 * d + (POLL_TIMEOUT + busy)"
    by (rule serve_loop.while_up_window [OF run assms(5), where time = ?time]) (use assms(2,3) late in auto)
  then show ?thesis using serve_loop.while_up_prefix [OF run] drains_down [OF assms(1)] by blast
qed

theorem serve_stops_after_drain_witness:
  "\<exists>s' ps. serve_while netstring_protocol plain_config
       (\<lambda>h. if h = [] then signalled_at_start else waiter_done (pass_time 1000 signalled_at_start))
       [Inr \<lparr>result_in = None, request_in = None\<rparr>, Inr \<lparr>result_in = None, request_in = None\<rparr>] server_new =
     (s', Inr [Inr \<lparr>result_in = None, request_in = None\<rparr>]) \<and> serve netstring_protocol plain_config ps server_new = (s', Inr ())"
proof -
  let ?proc = "\<lambda>h :: netstring_request_info event list.
      if h = [] then signalled_at_start else waiter_done (pass_time 1000 signalled_at_start)"
  let ?p = "\<lparr>result_in = None, request_in = None\<rparr> :: netstring_request_info polled"
  let ?s = "server_new\<lparr>events := [Polled]\<rparr> :: (netstring_entity, netstring_request_info) server"
  have now: "now_ms (?proc h) = (if h = [] then 0 else 1000)" for h by (simp add: signalled_at_start_def process_simps)
  have dr: "drains ?proc 0 1"
    using signalled_at_start_runs(1) [of 0] signalled_at_start_runs(2) [of 1000]
    by (auto simp: drains_def) (simp_all add: signalled_at_start_def process_simps)
  have run: "serve_while netstring_protocol plain_config ?proc [Inr ?p, Inr ?p] server_new = (?s, Inr [Inr ?p])"
    by (simp add: serve_while_def serve_turn_def take_result_def take_request_def handle_timeouts_def server_new_def
        poll_def bnd_def ret_def modify_def note_event_def signalled_at_start_def process_simps)
  have step: "now_ms (?proc (events s1)) \<le> now_ms (?proc (events s)) + (POLL_TIMEOUT + 0)"
    for s s1 :: "(netstring_entity, netstring_request_info) server" by (simp add: now POLL_TIMEOUT_def)
  have "now_ms (?proc (events (server_new :: (netstring_entity, netstring_request_info) server))) \<le> 0 + 1000 * 1"
    by (simp add: now)
  from serve_stops_after_drain [OF dr step this run]
  obtain ps where "serve netstring_protocol plain_config ps server_new = (?s, Inr ())" by blast
  then show ?thesis using run by blast
qed

end
