(* ===== verification/Daemons.thy ===== *)
theory Daemons
  imports Wiring Shutdown Programs
begin

text \<open>
  The main functions of the programs: \<open>prime_httpd.cpp\<close>, \<open>prime_proxyd.cpp\<close>, \<open>prime_workerd.cpp\<close>, which run one part
  each, and \<open>prime_filed.cpp\<close>, \<open>prime_echod.cpp\<close>, \<open>prime_serverd.cpp\<close> and \<open>art.cpp\<close>, which run a whole service in one process.
  A main function reads its arguments and makes the parts; then their loops run until the process
  shuts down.
\<close>

section \<open>Parts\<close>

text \<open>The arguments of the server's constructor beside the endpoints; the health check matches a path.\<close>

record settings =
  logs :: bool
  size_limit :: nat
  time_limit :: u32
  health_path :: "string option"
  health_text :: string

definition DEFAULT_MAX_REQUEST_SIZE :: nat where
  "DEFAULT_MAX_REQUEST_SIZE = 1024 * 1024 * 10"

definition DEFAULT_REQUEST_TIMEOUT :: u32 where
  "DEFAULT_REQUEST_TIMEOUT = - 1"

definition plain_settings :: "bool \<Rightarrow> settings" where
  "plain_settings b =
     \<lparr>logs = b, size_limit = DEFAULT_MAX_REQUEST_SIZE, time_limit = DEFAULT_REQUEST_TIMEOUT, health_path = None, health_text = []\<rparr>"

definition with_health :: "string option \<Rightarrow> settings \<Rightarrow> settings" where
  "with_health p st =
     (case p of
        None \<Rightarrow> st
      | Some _ \<Rightarrow> st\<lparr>health_path := p, health_text := rsp_to_string (rsp_make 200 ''OK'' [] [] ''HTTP/1.1'')\<rparr>)"

text \<open>The server's configuration in a given world.\<close>

definition configure :: "settings \<Rightarrow> (http_request_info, 'w) world_scheme \<Rightarrow> (http_request, http_request_info) server_config" where
  "configure st w =
     \<lparr>net = net w, clock = clock w, timestamp = timestamp w, log_enabled = logs st, max_request_size = size_limit st,
      request_timeout = time_limit st, health_check_matcher = map_option (\<lambda>p r. path r = p) (health_path st),
      health_check_response = health_text st\<rparr>"

text \<open>A server, a proxy, a worker with its work function, or the client of a batch, with their endpoints.\<close>

datatype part =
    Serve string string string string settings
  | Forward string string
  | Work string string string string http_work
  | Batch string

fun part_setup :: "zlib \<Rightarrow> part \<Rightarrow> unit plumbing" where
  "part_setup lib (Serve c p r i st) = server_setup lib c p r i"
| "part_setup lib (Forward u d) = proxy_setup lib u d"
| "part_setup lib (Work u d r i w) = worker_setup lib u d r i"
| "part_setup lib (Batch s) = client_setup lib s"

text \<open>The parts are made one after the other; an exception in a constructor ends the process.\<close>

fun launch :: "(nat \<Rightarrow> zlib) \<Rightarrow> nat \<Rightarrow> part list \<Rightarrow> std_error + zhistory list" where
  "launch lib n [] = Inr []"
| "launch lib n (p # ps) =
     (case part_setup (lib n) p [] of
        (h, Inl e) \<Rightarrow> Inl e
      | (h, Inr _) \<Rightarrow> map_sum id (\<lambda>hs. h # hs) (launch lib (n + 1) ps))"

section \<open>Main functions\<close>

record started =
  parts :: "part list"
  histories :: "zhistory list"
  drain_seconds :: u32
  said :: "string list"

text \<open>
  A main function returns with a status, ends with an exception that nobody catches, or gets its parts
  running; each with what has been logged.
\<close>

datatype outcome = Returns nat "string list" | Uncaught std_error "string list" | Runs started

text \<open>\<open>quiesce\<close> takes an \<open>unsigned int\<close>, to which the number is narrowed.\<close>

definition run_parts :: "(nat \<Rightarrow> zlib) \<Rightarrow> string list \<Rightarrow> std_error + nat \<Rightarrow> part list \<Rightarrow> outcome" where
  "run_parts lib said0 seconds ps =
     (case seconds of
        Inl e \<Rightarrow> Uncaught e said0
      | Inr d \<Rightarrow>
          (case launch lib 0 ps of
             Inl e \<Rightarrow> Uncaught e said0
           | Inr hs \<Rightarrow> Runs \<lparr>parts = ps, histories = hs, drain_seconds = word_of_nat d, said = said0\<rparr>))"

fun find_str :: "string \<Rightarrow> string \<Rightarrow> nat option" where
  "find_str p [] = (if p = [] then Some 0 else None)"
| "find_str p (c # s) = (if take (length p) (c # s) = p then Some 0 else map_option Suc (find_str p s))"

definition argument :: "string list \<Rightarrow> nat \<Rightarrow> string option" where
  "argument argv i = (if i < length argv then Some (argv ! i) else None)"

definition number_arg :: "string list \<Rightarrow> nat \<Rightarrow> nat \<Rightarrow> std_error + nat" where
  "number_arg argv i dflt = (case argument argv i of None \<Rightarrow> Inr dflt | Some a \<Rightarrow> stoul a)"

text \<open>The same in a \<open>try\<close> block with an empty \<open>catch (...)\<close>.\<close>

definition lenient_arg :: "string list \<Rightarrow> nat \<Rightarrow> nat \<Rightarrow> nat" where
  "lenient_arg argv i dflt = (case number_arg argv i dflt of Inl e \<Rightarrow> dflt | Inr n \<Rightarrow> n)"

definition bad_endpoint :: "string \<Rightarrow> string \<Rightarrow> string list" where
  "bad_endpoint ep what = (if find_str ''://'' ep \<noteq> Some 3 then [''bad '' @ what] else [])"

definition HTTPD_USAGE :: string where
  "HTTPD_USAGE = '' [tcp|ipc]://server_listen_endpoint[:tcp_port] [tcp|ipc]://downstream_proxy_endpoint[:tcp_port] [tcp|ipc]://server_result_loopback[:tcp_port] [tcp|ipc]://server_request_interrupt[:tcp_port] [enable_logging] [max_request_size_bytes] [request_timeout_seconds] [drain_seconds] [/health_check_endpoint]''"

definition usage :: "string list \<Rightarrow> string \<Rightarrow> string" where
  "usage argv text = ''Usage: '' @ hd argv @ text"

definition main_httpd :: "(nat \<Rightarrow> zlib) \<Rightarrow> string list \<Rightarrow> outcome" where
  "main_httpd lib argv =
     (if length argv < 5 then Returns 1 [usage argv HTTPD_USAGE]
      else
        run_parts lib
          (bad_endpoint (argv ! 1) ''server listen endpoint'' @ bad_endpoint (argv ! 2) ''downstream proxy endpoint'' @
           bad_endpoint (argv ! 3) ''server result loopback'' @ bad_endpoint (argv ! 4) ''server request interrupt'')
          (number_arg argv 8 28)
          [Serve (argv ! 1) (argv ! 2) (argv ! 3) (argv ! 4)
             (with_health (argument argv 9)
                ((plain_settings (length argv < 6 \<or> map tolower (argv ! 5) \<noteq> ''false''))
                   \<lparr>size_limit := lenient_arg argv 6 (1024 * 1024 * 10),
                    time_limit := word_of_nat (lenient_arg argv 7 (unat DEFAULT_REQUEST_TIMEOUT))\<rparr>))])"

definition PROXYD_USAGE :: string where
  "PROXYD_USAGE = '' [tcp|ipc]://upstream_endpoint[:tcp_port] [tcp|ipc]://downstream_endpoint[:tcp_port] [drain_seconds]''"

definition main_proxyd :: "(nat \<Rightarrow> zlib) \<Rightarrow> string list \<Rightarrow> outcome" where
  "main_proxyd lib argv =
     (if length argv < 3 then Returns 1 [usage argv PROXYD_USAGE]
      else
        run_parts lib (bad_endpoint (argv ! 1) ''upstream endpoint'' @ bad_endpoint (argv ! 2) ''downstream endpoint'')
          (number_arg argv 3 28) [Forward (argv ! 1) (argv ! 2)])"

definition WORKERD_USAGE :: string where
  "WORKERD_USAGE = '' [tcp|ipc]://upstream_proxy_endpoint[:tcp_port] [tcp|ipc]://downstream_proxy_endpoint[:tcp_port] [tcp|ipc]://server_result_loopback[:tcp_port] [tcp|ipc]://server_request_interrupt[:tcp_port] [drain_seconds]''"

definition main_workerd :: "curl \<Rightarrow> (string \<Rightarrow> string option) \<Rightarrow> (nat \<Rightarrow> zlib) \<Rightarrow> string list \<Rightarrow> outcome" where
  "main_workerd cu open_file lib argv =
     (if length argv < 5 then Returns 1 [usage argv WORKERD_USAGE]
      else
        run_parts lib
          (bad_endpoint (argv ! 1) ''upstream proxy endpoint'' @ bad_endpoint (argv ! 2) ''downstream proxy endpoint'' @
           bad_endpoint (argv ! 3) ''server result loopback'' @ bad_endpoint (argv ! 4) ''server request interrupt'')
          (number_arg argv 5 28)
          [Work (argv ! 1) (argv ! 2) (argv ! 3) (argv ! 4) (file_work cu open_file)])"

text \<open>A service in one process: a server, and stages of a proxy and as many workers as wanted.\<close>

definition RESULTS :: string where
  "RESULTS = ''inproc://result_endpoint''"

definition INTERRUPTS :: string where
  "INTERRUPTS = ''inproc://request_interrupt''"

definition NOWHERE :: string where
  "NOWHERE = ''inproc://dev_null''"

definition upstream :: "string \<Rightarrow> string" where
  "upstream ep = ep @ ''_upstream''"

definition downstream :: "string \<Rightarrow> string" where
  "downstream ep = ep @ ''_downstream''"

definition stage :: "nat \<Rightarrow> string \<Rightarrow> string \<Rightarrow> http_work \<Rightarrow> part list" where
  "stage n ep onward w = Forward (upstream ep) (downstream ep) # replicate n (Work (downstream ep) onward RESULTS INTERRUPTS w)"

definition PROXY_EP :: string where
  "PROXY_EP = ''inproc://proxy_endpoint''"

definition FILED_USAGE :: string where
  "FILED_USAGE = '' server_listen_endpoint [root_dir] [drain_seconds] [/health_check_endpoint]''"

definition main_filed :: "curl \<Rightarrow> (std_error \<Rightarrow> string) \<Rightarrow> (string \<Rightarrow> file_status) \<Rightarrow> (nat \<Rightarrow> zlib) \<Rightarrow> string list \<Rightarrow> outcome" where
  "main_filed cu what disk lib argv =
     (if length argv < 2 \<or> find_str ''://'' (argv ! 1) = None then Returns 1 [usage argv FILED_USAGE]
      else
        let root = (case argument argv 2 of None \<Rightarrow> ''./'' | Some r \<Rightarrow> r) in
        run_parts lib [] (number_arg argv 3 28)
          (Serve (argv ! 1) (upstream PROXY_EP) RESULTS INTERRUPTS (with_health (argument argv 4) (plain_settings True)) #
           stage 1 PROXY_EP NOWHERE (disk_work cu what disk root)))"

definition ECHOD_USAGE :: string where
  "ECHOD_USAGE = '' server_listen_endpoint [concurrency] [drain_seconds]''"

text \<open>\<open>prime_echod\<close> goes on after it has complained about its endpoint.\<close>

definition main_echod :: "(nat \<Rightarrow> zlib) \<Rightarrow> string list \<Rightarrow> outcome" where
  "main_echod lib argv =
     (if length argv < 2 then Returns 1 [usage argv ECHOD_USAGE]
      else
        let complaint = (if find_str ''://'' (argv ! 1) = None then [usage argv ECHOD_USAGE] else []) in
        case number_arg argv 2 1 of
          Inl e \<Rightarrow> Uncaught e complaint
        | Inr n \<Rightarrow>
            run_parts lib complaint (number_arg argv 3 28)
              (Serve (argv ! 1) (upstream PROXY_EP) RESULTS INTERRUPTS (plain_settings True) # stage n PROXY_EP NOWHERE echo_work))"

definition PARSE_EP :: string where
  "PARSE_EP = ''inproc://parse_proxy_endpoint''"

definition COMPUTE_EP :: string where
  "COMPUTE_EP = ''inproc://compute_proxy_endpoint''"

definition SERVERD_USAGE :: string where
  "SERVERD_USAGE = '' num_requests|server_listen_endpoint concurrency [drain_seconds] [/health_check_endpoint]''"

text \<open>The first argument is an endpoint or a range; the status 1 of an empty range comes with its message.\<close>

definition serverd_mode :: "string \<Rightarrow> (std_error + string) + string \<times> nat" where
  "serverd_mode arg =
     (if find_str ''://'' arg \<noteq> None then Inr (arg, 0)
      else case prime_range arg of
             Inl e \<Rightarrow> Inl (Inl e)
           | Inr r \<Rightarrow>
               (case range_requests r of
                  None \<Rightarrow> Inl (Inr ''provide a valid range of numbers to test for prime'')
                | Some n \<Rightarrow> Inr (''tcp://*:8001'', n)))"

definition main_serverd :: "curl \<Rightarrow> (std_error \<Rightarrow> string) \<Rightarrow> (nat \<Rightarrow> zlib) \<Rightarrow> string list \<Rightarrow> outcome" where
  "main_serverd cu what lib argv =
     (if length argv < 2 then Returns 1 [usage argv SERVERD_USAGE]
      else
        case serverd_mode (argv ! 1) of
          Inl (Inl e) \<Rightarrow> Uncaught e []
        | Inl (Inr complaint) \<Rightarrow> Returns 1 [complaint]
        | Inr (ep, reqs) \<Rightarrow>
            (case number_arg argv 2 1 of
               Inl e \<Rightarrow> Uncaught e []
             | Inr n \<Rightarrow>
                 run_parts lib [] (number_arg argv 3 28)
                   (Serve ep (upstream PARSE_EP) RESULTS INTERRUPTS (with_health (argument argv 4) (plain_settings (reqs = 0))) #
                    stage n PARSE_EP (upstream COMPUTE_EP) (parse_work cu what) @
                    stage n COMPUTE_EP NOWHERE compute_work @ (if reqs > 0 then [Batch ep] else []))))"

definition ART_NOWHERE :: string where
  "ART_NOWHERE = ''inproc://no_endpoint''"

definition main_art :: "curl \<Rightarrow> (std_error \<Rightarrow> string) \<Rightarrow> nat \<Rightarrow> (nat \<Rightarrow> zlib) \<Rightarrow> outcome" where
  "main_art cu what hardware_concurrency lib =
     run_parts lib [] (Inr 28)
       (Serve ''tcp://*:8002'' (upstream PROXY_EP) RESULTS INTERRUPTS (plain_settings False) #
        stage (max 1 hardware_concurrency) PROXY_EP ART_NOWHERE (art_work cu what))"

section \<open>Plugs of a running program\<close>

fun part_plugs :: "part \<Rightarrow> plug list" where
  "part_plugs (Serve c p r i st) =
     [\<lparr>plug_type = ZMQ_STREAM, bound = True, endpoint = c\<rparr>, \<lparr>plug_type = ZMQ_DEALER, bound = False, endpoint = p\<rparr>,
      \<lparr>plug_type = ZMQ_PULL, bound = True, endpoint = r\<rparr>, \<lparr>plug_type = ZMQ_PUB, bound = True, endpoint = i\<rparr>]"
| "part_plugs (Forward u d) =
     [\<lparr>plug_type = ZMQ_ROUTER, bound = True, endpoint = u\<rparr>, \<lparr>plug_type = ZMQ_ROUTER, bound = True, endpoint = d\<rparr>]"
| "part_plugs (Work u d r i w) =
     [\<lparr>plug_type = ZMQ_DEALER, bound = False, endpoint = u\<rparr>, \<lparr>plug_type = ZMQ_DEALER, bound = False, endpoint = d\<rparr>,
      \<lparr>plug_type = ZMQ_PUSH, bound = False, endpoint = r\<rparr>, \<lparr>plug_type = ZMQ_SUB, bound = False, endpoint = i\<rparr>]"
| "part_plugs (Batch s) = [\<lparr>plug_type = ZMQ_STREAM, bound = False, endpoint = s\<rparr>]"

lemma setup_plugs: "part_setup lib p [] = (h, Inr ()) \<Longrightarrow> tuned_first h \<and> plugs h = part_plugs p"
  by (cases p) (simp_all add: server_plugs proxy_plugs worker_plugs client_plugs)

lemma launch_plugs:
  "launch lib n ps = Inr hs \<Longrightarrow> list_all tuned_first hs \<and> map plugs hs = map part_plugs ps"
proof (induction ps arbitrary: n hs)
  case (Cons p ps)
  obtain h r where hr: "part_setup (lib n) p [] = (h, r)" by fastforce
  then obtain hs' where hs: "r = Inr ()" "launch lib (n + 1) ps = Inr hs'" "hs = h # hs'"
    using Cons.prems by (cases r; cases "launch lib (n + 1) ps") auto
  show ?case using Cons.IH [OF hs(2)] setup_plugs [of "lib n" p h] hr hs by simp
qed simp

lemma launch_willing: "\<exists>hs. launch (\<lambda>_. willing) n ps = Inr hs"
proof (induction ps arbitrary: n)
  case (Cons p ps)
  have "\<exists>h. part_setup willing p [] = (h, Inr ())" by (cases p) (simp_all add: constructors_willing)
  then show ?case using Cons.IH [of "n + 1"] by force
qed simp

lemma run_parts_willing: "\<exists>st. run_parts (\<lambda>_. willing) said0 (Inr d) ps = Runs st"
  using launch_willing [of 0 ps] by (auto simp: run_parts_def)

text \<open>The ends that a program has bound and connected.\<close>

definition program_plugs :: "started \<Rightarrow> plug list" where
  "program_plugs st = concat (map plugs (histories st))"

lemma run_parts_plugs:
  "run_parts lib said0 d ps = Runs st \<Longrightarrow>
   list_all tuned_first (histories st) \<and> program_plugs st = concat (map part_plugs ps) \<and> parts st = ps"
  by (auto simp: run_parts_def program_plugs_def dest!: launch_plugs split: sum.splits)

text \<open>Parts fit if each finds an end of the right type for what it connects.\<close>

definition offered :: "part list \<Rightarrow> socket_type \<Rightarrow> string \<Rightarrow> bool" where
  "offered xs ty ep \<longleftrightarrow> (\<exists>y \<in> set xs. \<exists>q \<in> set (part_plugs y). bound q \<and> endpoint q = ep \<and> compatible ty (plug_type q))"

lemma offered_by:
  "Serve c p r i st \<in> set xs \<Longrightarrow> offered xs ZMQ_STREAM c \<and> offered xs ZMQ_PUSH r \<and> offered xs ZMQ_SUB i"
  "Forward u d \<in> set xs \<Longrightarrow> offered xs ZMQ_DEALER u \<and> offered xs ZMQ_DEALER d"
  unfolding offered_def
  by (intro conjI bexI [of _ "Serve c p r i st"]; simp) (intro conjI bexI [of _ "Forward u d"]; simp)

fun satisfied :: "string list \<Rightarrow> part list \<Rightarrow> part \<Rightarrow> bool" where
  "satisfied dead xs (Serve c p r i st) = (p \<in> set dead \<or> offered xs ZMQ_DEALER p)"
| "satisfied dead xs (Forward u d) = True"
| "satisfied dead xs (Work u d r i w) =
     (offered xs ZMQ_DEALER u \<and> (d \<in> set dead \<or> offered xs ZMQ_DEALER d) \<and> offered xs ZMQ_PUSH r \<and> offered xs ZMQ_SUB i)"
| "satisfied dead xs (Batch s) = offered xs ZMQ_STREAM s"

lemma fitting_parts:
  assumes "distinct (map endpoint (filter bound (concat (map part_plugs xs))))"
    and "\<And>x. x \<in> set xs \<Longrightarrow> satisfied dead xs x"
  shows "fitting dead (concat (map part_plugs xs))"
proof -
  have "bound p \<or> endpoint p \<in> set dead \<or> offered xs (plug_type p) (endpoint p)" if "x \<in> set xs" "p \<in> set (part_plugs x)" for x p
    using assms(2) [OF that(1)] that(2) by (cases x) auto
  then show ?thesis
    using assms(1) unfolding fitting_def list_all_iff list_ex_iff offered_def by fastforce
qed

lemma bound_workers [simp]: "filter bound (concat (map part_plugs (replicate n (Work u d r i w)))) = []"
  by (induction n) simp_all

lemmas endpoint_defs = RESULTS_def INTERRUPTS_def NOWHERE_def ART_NOWHERE_def PROXY_EP_def PARSE_EP_def COMPUTE_EP_def
  upstream_def downstream_def

text \<open>A stream socket listens on a transport of its own, so not on one of the inner endpoints.\<close>

definition public :: "string \<Rightarrow> bool" where
  "public ep \<longleftrightarrow> take 9 ep \<noteq> ''inproc://''"

lemma public_inner [simp]:
  "public ep \<Longrightarrow> ep \<noteq> RESULTS" "public ep \<Longrightarrow> ep \<noteq> INTERRUPTS"
  "public ep \<Longrightarrow> ep \<noteq> upstream PROXY_EP" "public ep \<Longrightarrow> ep \<noteq> downstream PROXY_EP"
  "public ep \<Longrightarrow> ep \<noteq> upstream PARSE_EP" "public ep \<Longrightarrow> ep \<noteq> downstream PARSE_EP"
  "public ep \<Longrightarrow> ep \<noteq> upstream COMPUTE_EP" "public ep \<Longrightarrow> ep \<noteq> downstream COMPUTE_EP"
  by (auto simp: public_def endpoint_defs)

lemma stage_parts:
  "Forward (upstream ep) (downstream ep) \<in> set (stage n ep onward w)"
  "x \<in> set (stage n ep onward w) \<Longrightarrow> x = Forward (upstream ep) (downstream ep) \<or> x = Work (downstream ep) onward RESULTS INTERRUPTS w"
  by (auto simp: stage_def)

lemma stage_binds:
  "filter bound (concat (map part_plugs (stage n ep onward w))) =
     [\<lparr>plug_type = ZMQ_ROUTER, bound = True, endpoint = upstream ep\<rparr>, \<lparr>plug_type = ZMQ_ROUTER, bound = True, endpoint = downstream ep\<rparr>]"
  by (simp add: stage_def)

lemma stage_satisfied:
  assumes "set (stage n ep onward w) \<subseteq> set xs" "Serve c p RESULTS INTERRUPTS st \<in> set xs"
    and "onward \<in> set dead \<or> offered xs ZMQ_DEALER onward" "x \<in> set (stage n ep onward w)"
  shows "satisfied dead xs x"
proof -
  have "offered xs ZMQ_DEALER (downstream ep)" using offered_by(2) stage_parts(1) assms(1) by blast
  then show ?thesis using stage_parts(2) [OF assms(4)] offered_by(1) [OF assms(2)] assms(3) by auto
qed

lemma one_stage_fits:
  assumes "public ep"
  shows "fitting [onward] (concat (map part_plugs
    (Serve ep (upstream PROXY_EP) RESULTS INTERRUPTS st # stage n PROXY_EP onward w)))"
proof (rule fitting_parts)
  let ?s = "Serve ep (upstream PROXY_EP) RESULTS INTERRUPTS st"
  let ?xs = "?s # stage n PROXY_EP onward w"
  show "distinct (map endpoint (filter bound (concat (map part_plugs ?xs))))"
    using public_inner [OF assms] by (simp add: stage_binds) (simp add: endpoint_defs)
  fix x
  assume "x \<in> set ?xs"
  then consider "x = ?s" | "x \<in> set (stage n PROXY_EP onward w)" by auto
  then show "satisfied [onward] ?xs x"
  proof cases
    case 1
    then show ?thesis using offered_by(2) [of "upstream PROXY_EP" "downstream PROXY_EP" ?xs] stage_parts(1) by simp
  next
    case 2
    then show ?thesis by (rule stage_satisfied [rotated 3]) auto
  qed
qed

lemma two_stages_fit:
  assumes "public ep"
  shows "fitting [NOWHERE] (concat (map part_plugs
    (Serve ep (upstream PARSE_EP) RESULTS INTERRUPTS st # stage n PARSE_EP (upstream COMPUTE_EP) w @
     stage n COMPUTE_EP NOWHERE v @ (if b then [Batch ep] else []))))"
proof (rule fitting_parts)
  let ?s = "Serve ep (upstream PARSE_EP) RESULTS INTERRUPTS st"
  let ?xs = "?s # stage n PARSE_EP (upstream COMPUTE_EP) w @ stage n COMPUTE_EP NOWHERE v @ (if b then [Batch ep] else [])"
  show "distinct (map endpoint (filter bound (concat (map part_plugs ?xs))))"
    using public_inner [OF assms] by (simp add: stage_binds) (simp add: endpoint_defs)
  have up: "offered ?xs ZMQ_DEALER (upstream PARSE_EP)" "offered ?xs ZMQ_DEALER (upstream COMPUTE_EP)"
    using offered_by(2) [of "upstream PARSE_EP" "downstream PARSE_EP" ?xs] offered_by(2) [of "upstream COMPUTE_EP" "downstream COMPUTE_EP" ?xs]
      stage_parts(1) by simp_all
  fix x
  assume "x \<in> set ?xs"
  then consider "x = ?s" | "x \<in> set (stage n PARSE_EP (upstream COMPUTE_EP) w)" | "x \<in> set (stage n COMPUTE_EP NOWHERE v)" | "x = Batch ep"
    by (auto split: if_splits)
  then show "satisfied [NOWHERE] ?xs x"
  proof cases
    case 1
    then show ?thesis using up(1) by simp
  next
    case 2
    then show ?thesis by (rule stage_satisfied [rotated 3]) (use up in auto)
  next
    case 3
    then show ?thesis by (rule stage_satisfied [rotated 3]) auto
  next
    case 4
    then show ?thesis using offered_by(1) [of ep "upstream PARSE_EP" RESULTS INTERRUPTS st ?xs] by simp
  qed
qed

lemma fitting_mono: "fitting dead ps \<Longrightarrow> set dead \<subseteq> set dead' \<Longrightarrow> fitting dead' ps"
  by (auto simp: fitting_def list_all_iff)

definition wired :: "started \<Rightarrow> bool" where
  "wired st \<longleftrightarrow> list_all tuned_first (histories st) \<and> fitting [NOWHERE, ART_NOWHERE] (program_plugs st)"

lemma run_parts_wired:
  "run_parts lib said0 d ps = Runs st \<Longrightarrow> fitting [onward] (concat (map part_plugs ps)) \<Longrightarrow> onward \<in> {NOWHERE, ART_NOWHERE} \<Longrightarrow> wired st"
  using run_parts_plugs [of lib said0 d ps st] fitting_mono [of "[onward]" _ "[NOWHERE, ART_NOWHERE]"] by (auto simp: wired_def)

lemmas one_stage_wired = run_parts_wired [OF _ one_stage_fits]
lemmas two_stages_wired = run_parts_wired [OF _ two_stages_fit]

section \<open>Properties\<close>



text \<open>
  The timeout of \<open>prime_httpd\<close>. Without an argument no request times out before the year 2106, when the
  clock leaves 32 bits: looking for timeouts does nothing. A number that is given is taken modulo \<open>2 ^ 32\<close>, so
  that a long timeout may become a short one.
\<close>

theorem httpd_timeout:
  assumes "main_httpd lib argv = Runs st" and "parts st = [Serve c p r i se]"
  shows "(length argv \<le> 7 \<and> clock w (events s) < 2 ^ 32 \<longrightarrow> handle_timeouts (http_protocol cu) (configure se w) s = (s, Inr ())) \<and>
    (\<forall>a n. argument argv 7 = Some a \<and> stoul a = Inr n \<longrightarrow> unat (request_timeout (configure se w)) = n mod 2 ^ 32)"
proof -
  have se: "time_limit se = word_of_nat (lenient_arg argv 7 (unat DEFAULT_REQUEST_TIMEOUT))"
    using assms by (auto simp: main_httpd_def with_health_def dest!: run_parts_plugs split: if_splits option.splits)
  have "uint (- 1 :: u32) = 2 ^ 32 - 1" by (simp add: uint_word_ariths mask_eq_exp_minus_1 flip: mask_eq_exp_minus_1)
  then have "length argv \<le> 7 \<Longrightarrow> uint (time_limit se) = 2 ^ 32 - 1"
    by (simp add: se lenient_arg_def number_arg_def argument_def DEFAULT_REQUEST_TIMEOUT_def)
  moreover have "timeouts_loop (http_protocol cu) (configure se w) d hs s = (s, Inr ())" if "d \<le> 0" for d hs
    using that by (cases hs) (simp_all add: ret_def)
  ultimately have "handle_timeouts (http_protocol cu) (configure se w) s = (s, Inr ())"
    if "length argv \<le> 7" "clock w (events s) < 2 ^ 32"
    using that by (simp add: handle_timeouts_def drop_dead_def configure_def)
  then show ?thesis by (auto simp: configure_def se lenient_arg_def number_arg_def unat_of_nat)
qed

theorem httpd_timeout_witness:
  "\<exists>st c p r i se. main_httpd (\<lambda>_. willing) [''prime_httpd'', ''tcp://a'', ''tcp://b'', ''tcp://c'', ''tcp://d'', ''true'', ''10'', ''4294967296''] = Runs st \<and>
     parts st = [Serve c p r i se] \<and>
     unat (request_timeout (configure se \<lparr>net = \<lambda>_ _ _ _. Sent, clock = \<lambda>_. 0, timestamp = \<lambda>_. []\<rparr>)) = 0"
proof -
  let ?argv = "[''prime_httpd'', ''tcp://a'', ''tcp://b'', ''tcp://c'', ''tcp://d'', ''true'', ''10'', ''4294967296'']"
  have n: "number_arg ?argv 8 28 = Inr 28" "argument ?argv 7 = Some ''4294967296''"
    by (simp_all add: number_arg_def argument_def)
  obtain st where st: "main_httpd (\<lambda>_. willing) ?argv = Runs st"
    using run_parts_willing by (simp only: main_httpd_def n) fastforce
  then obtain c p r i se where p: "parts st = [Serve c p r i se]"
    by (auto simp: main_httpd_def dest!: run_parts_plugs)
  have "stoul ''4294967296'' = Inr 4294967296" by (simp add: eval_simps)
  then show ?thesis
    using httpd_timeout [OF st p, where w = "\<lparr>net = \<lambda>_ _ _ _. Sent, clock = \<lambda>_. 0, timestamp = \<lambda>_. []\<rparr>"] n(2) st p by auto
qed

end
