(* ===== verification/Server_Clock.thy ===== *)
theory Server_Clock
  imports Server_Wire
begin

text \<open>
  The server and time: if the clock does not go backwards, the history of requests is sorted by
  time, so that \<open>handle_timeouts\<close>, which looks at its front only, leaves no request behind that is too old.
\<close>

section \<open>A history in order\<close>

definition time_of :: "('r, 'i, 'x) protocol \<Rightarrow> 'i \<Rightarrow> int" where
  "time_of pr i = uint (p_time_stamp pr i)"

text \<open>The clock does not go backwards and fits into the 32 bits of a time stamp, which it does until the year 2106.\<close>

definition steady :: "('i, 'w) world_scheme \<Rightarrow> bool" where
  "steady w \<longleftrightarrow> (\<forall>h v. clock w h \<le> clock w (h @ [v])) \<and> (\<forall>h. 0 \<le> clock w h \<and> clock w h < 2 ^ 32)"

definition timely :: "('r, 'i, 'x) protocol \<Rightarrow> ('r, 'i) server_config \<Rightarrow> ('r, 'i) server \<Rightarrow> bool" where
  "timely pr cf s \<longleftrightarrow>
     sorted (map (time_of pr) (request_history s)) \<and> (\<forall>i \<in> set (request_history s). time_of pr i \<le> clock cf (events s))"

lemma steady_append: "steady w \<Longrightarrow> clock w h \<le> clock w (h @ new)"
proof (induction new rule: rev_induct)
  case (snoc v new)
  then have "clock w (h @ new) \<le> clock w ((h @ new) @ [v])" unfolding steady_def by blast
  then show ?case using snoc by simp
qed simp

lemma steady_neat: "steady cf \<Longrightarrow> neat m \<Longrightarrow> clock cf (events s) \<le> clock cf (events (fst (m s)))"
  unfolding neat_def using steady_append by metis

text \<open>A stretch of time in which infos are added to the history that were made in it.\<close>

definition passes :: "('r, 'i, 'x) protocol \<Rightarrow> ('r, 'i) server_config \<Rightarrow> ('r, 'i) server \<Rightarrow> ('r, 'i) server \<Rightarrow> bool" where
  "passes pr cf s s' \<longleftrightarrow>
     clock cf (events s) \<le> clock cf (events s') \<and>
     (\<exists>new. request_history s' = request_history s @ new \<and> sorted (map (time_of pr) new) \<and>
       (\<forall>i \<in> set new. clock cf (events s) \<le> time_of pr i \<and> time_of pr i \<le> clock cf (events s')))"

lemma passes_still: "clock cf (events s) \<le> clock cf (events s') \<Longrightarrow> request_history s' = request_history s \<Longrightarrow> passes pr cf s s'"
  by (simp add: passes_def)

lemma passes_trans:
  assumes "passes pr cf s s1" "passes pr cf s1 s2"
  shows "passes pr cf s s2"
proof -
  let ?t = "\<lambda>s. clock cf (events s)"
  obtain new where n: "?t s \<le> ?t s1" "request_history s1 = request_history s @ new" "sorted (map (time_of pr) new)"
      "\<forall>i \<in> set new. ?t s \<le> time_of pr i \<and> time_of pr i \<le> ?t s1"
    using assms(1) unfolding passes_def by blast
  obtain new2 where n2: "?t s1 \<le> ?t s2" "request_history s2 = request_history s1 @ new2" "sorted (map (time_of pr) new2)"
      "\<forall>i \<in> set new2. ?t s1 \<le> time_of pr i \<and> time_of pr i \<le> ?t s2"
    using assms(2) unfolding passes_def by blast
  have "sorted (map (time_of pr) (new @ new2))" using n n2 by (force simp: sorted_append)
  moreover have "\<forall>i \<in> set (new @ new2). ?t s \<le> time_of pr i \<and> time_of pr i \<le> ?t s2" using n n2 by force
  ultimately show ?thesis using n(1,2) n2(1,2) unfolding passes_def by (intro conjI exI [of _ "new @ new2"]) simp_all
qed

lemma passes_timely:
  assumes "passes pr cf s s'" "timely pr cf s"
  shows "timely pr cf s'"
proof -
  obtain new where "clock cf (events s) \<le> clock cf (events s')" "request_history s' = request_history s @ new"
      "sorted (map (time_of pr) new)"
      "\<forall>i \<in> set new. clock cf (events s) \<le> time_of pr i \<and> time_of pr i \<le> clock cf (events s')"
    using assms(1) unfolding passes_def by blast
  then show ?thesis using assms(2) unfolding timely_def by (force simp: sorted_append)
qed

definition chronicles :: "('r, 'i, 'x) protocol \<Rightarrow> ('r, 'i) server_config \<Rightarrow> ('r, 'i, 'a) serving \<Rightarrow> bool" where
  "chronicles pr cf m \<longleftrightarrow> (\<forall>s. passes pr cf s (fst (m s)))"

lemma chronicles_bnd:
  assumes "chronicles pr cf m" and "\<And>x. chronicles pr cf (f x)"
  shows "chronicles pr cf (bnd m f)"
proof (unfold chronicles_def, intro allI)
  fix s
  obtain s1 r where m: "m s = (s1, r)" by fastforce
  then have "passes pr cf s s1" using assms(1) unfolding chronicles_def by (metis fst_conv)
  then show "passes pr cf s (fst (bnd m f s))"
    using m assms(2) passes_trans by (cases r) (fastforce simp: bnd_def chronicles_def)+
qed

section \<open>What leaves the history alone\<close>

definition still :: "('r, 'i, 'a) serving \<Rightarrow> bool" where
  "still m \<longleftrightarrow> (\<forall>s. request_history (fst (m s)) = request_history s)"

lemma still_tame: "tame m \<Longrightarrow> still m"
  unfolding still_def tame_def by (metis quiet_server(3) prod.collapse)

lemma still_bnd: "still m \<Longrightarrow> (\<And>x. still (f x)) \<Longrightarrow> still (bnd m f)"
  by (auto simp: still_def bnd_def split: prod.split sum.split) (metis fst_conv)+

lemma still_modify: "(\<And>s. request_history (f s) = request_history s) \<Longrightarrow> still (modify f)"
  by (simp add: still_def modify_def)

lemma still_dequeue: "still (dequeue pr cf i response)"
  unfolding still_def using dequeue_fields(1) by (metis prod.collapse)

lemma still_close: "still (close_session pr cf c)"
  unfolding still_def using close_session_fields(1) by (metis prod.collapse)

lemma still_forward: "still (forward_request pr cf i r)"
  unfolding forward_request_def by (intro still_bnd) (auto intro: still_tame split: sum.split)

lemma still_open: "still (open_or_close pr cf c)"
proof (unfold still_def, intro allI)
  fix s
  obtain s' r where "open_or_close pr cf c s = (s', r)" by fastforce
  moreover from this have "request_history s' = request_history s" by (cases rule: open_or_close_cases) auto
  ultimately show "request_history (fst (open_or_close pr cf c s)) = request_history s" by simp
qed

lemma chronicles_still: "steady cf \<Longrightarrow> neat m \<Longrightarrow> still m \<Longrightarrow> chronicles pr cf m"
  by (simp add: chronicles_def still_def passes_still steady_neat)

lemma chronicles_ret: "chronicles pr cf (ret x)"
  by (simp add: chronicles_def ret_def passes_still)

section \<open>Requests are taken down in order\<close>

text \<open>One request adds at most its own info, made at the time the work on it began.\<close>

lemma remember_history: "request_history (fst (remember pr c i s)) \<in> {request_history s, request_history s @ [i]}"
  by (simp add: remember_def Let_def split: option.split)

lemma bnd_history:
  assumes "still m" and "request_history s = H"
    and "\<And>x s'. request_history s' = H \<Longrightarrow> request_history (fst (f x s')) \<in> {H, H @ [i]}"
  shows "request_history (fst (bnd m f s)) \<in> {H, H @ [i]}"
proof -
  obtain s1 r where m: "m s = (s1, r)" by fastforce
  then have "request_history s1 = H" using assms(1,2) unfolding still_def by (metis fst_conv)
  then show ?thesis using m assms(3) by (cases r) (simp_all add: bnd_def)
qed

lemma enqueue_with_history:
  fixes s :: "('r, 'i) server"
  shows "request_history (fst (enqueue_with pr cf c r i h s)) \<in> {request_history s, request_history s @ [i]}"
proof -
  let ?H = "request_history s"
  let ?tail = "\<lambda>_ :: unit. bnd (if h then dequeue pr cf i (health_check_response cf) else ret True) (\<lambda>_. ret True)"
  have st: "still (?tail x)" for x by (intro still_bnd) (auto intro: still_dequeue still_tame)
  have tail: "request_history (fst (bnd (remember pr c i) ?tail s')) \<in> {?H, ?H @ [i]}" if "request_history s' = ?H" for s'
  proof -
    obtain s1 q where q: "remember pr c i s' = (s1, q)" by fastforce
    then have "request_history s1 \<in> {?H, ?H @ [i]}" using remember_history [of pr c i s'] that by simp
    then show ?thesis using q st by (cases q) (simp_all add: bnd_def still_def)
  qed
  have kept: "request_history (fst (bnd (log_line_if cf l) (\<lambda>_. bnd (remember pr c i) ?tail) s')) \<in> {?H, ?H @ [i]}"
    if "request_history s' = ?H" for s' :: "('r, 'i) server" and l
    by (rule bnd_history [OF still_tame [OF tame_log_line] that tail])
  have fail: "request_history (fst (bnd (complain msg) (\<lambda>_. ret False) s')) \<in> {?H, ?H @ [i]}" if "request_history s' = ?H" for s' :: "('r, 'i) server" and msg
    by (rule bnd_history [OF still_tame [OF tame_complain] that]) (simp add: ret_def)
  have forward: "still (if h then ret True else forward_request pr cf i r)" by (auto intro: still_forward still_tame)
  show ?thesis
    unfolding enqueue_with_def
    by (rule bnd_history [OF still_modify refl], simp, rule bnd_history [OF forward], assumption) (simp add: kept fail del: insert_iff)
qed

context server_protocol
begin

lemma chronicles_enqueue_one:
  assumes "steady cf"
  shows "chronicles pr cf (enqueue_one pr cf c r)"
proof (unfold chronicles_def, intro allI)
  fix s
  let ?t = "clock cf (events s)" and ?s = "fst (enqueue_one pr cf c r s)"
  let ?i = "p_to_info pr ?t r (request_id s)"
  have "0 \<le> ?t \<and> ?t < 2 ^ 32" using assms unfolding steady_def by blast
  then have t: "time_of pr ?i = ?t" by (simp add: time_of_def info_stamp stamp_def uint_word_of_int)
  have le: "?t \<le> clock cf (events ?s)" by (rule steady_neat [OF assms neat_enqueue_one])
  have "request_history ?s \<in> {request_history s, request_history s @ [?i]}"
    unfolding enqueue_one_def by (rule enqueue_with_history)
  then show "passes pr cf s ?s" using t le by (auto simp: passes_def)
qed

lemma chronicles_enqueue_all: "steady cf \<Longrightarrow> chronicles pr cf (enqueue_all pr cf c rs)"
  by (induction rs) (auto intro!: chronicles_bnd chronicles_enqueue_one chronicles_ret)

end

lemma still_reject: "still (reject pr cf c r x)"
proof -
  have "still (bnd (log_line_if cf l1) (\<lambda>_. log_line_if cf l2))" for l1 l2 by (intro still_bnd still_tame) simp_all
  then have "still (log_rejection pr cf r x)" by (simp add: still_def log_rejection_def)
  then show ?thesis unfolding reject_def by (intro still_bnd still_modify) (auto intro: still_tame)
qed

lemma still_disconnect: "still (disconnect pr cf c)"
proof -
  have "still (bnd (send_two cf CLIENT (Bytes c) (Bytes [])) (\<lambda>sent. if sent then close_session pr cf c
      else complain ''Server failed to disconnect client after rejecting request''))"
    by (intro still_bnd) (auto intro: still_tame still_close)
  then show ?thesis by (simp add: still_def disconnect_def)
qed

context server_protocol
begin

lemma passes_enqueue:
  assumes "steady cf"
  shows "passes pr cf s (fst (enqueue pr cf c d s))"
proof (cases "sessions s c")
  case None
  then show ?thesis by (simp add: enqueue_def passes_still)
next
  case (Some r)
  obtain r' res where p: "p_from_stream pr (max_request_size cf) r d = (r', res)" by fastforce
  let ?s = "s\<lparr>sessions := (sessions s)(c \<mapsto> r')\<rparr>"
  have "passes pr cf s ?s" by (simp add: passes_still)
  moreover have "passes pr cf ?s (fst (reject pr cf c r' x ?s))" for x
    using chronicles_still [OF assms neat_reject still_reject, of pr pr cf c r' x] by (simp add: chronicles_def)
  moreover have "passes pr cf ?s (fst (enqueue_all pr cf c rs ?s))" for rs
    using chronicles_enqueue_all [OF assms] unfolding chronicles_def by blast
  ultimately show ?thesis
    using Some p passes_trans by (fastforce simp: enqueue_def Let_def split: sum.split)
qed

lemma chronicles_handle_request:
  assumes "steady cf"
  shows "chronicles pr cf (handle_request pr cf ms)"
proof -
  have say: "chronicles pr cf (complain msg)" for msg by (rule chronicles_still [OF assms neat_complain still_tame]) simp
  have "chronicles pr cf (bnd (enqueue pr cf c d) (\<lambda>ok. if ok then ret () else disconnect pr cf c))" for c d
  proof (rule chronicles_bnd)
    show "chronicles pr cf (enqueue pr cf c d)" using passes_enqueue [OF assms] by (simp add: chronicles_def)
    show "chronicles pr cf (if ok then ret () else disconnect pr cf c)" for ok
      by (simp add: chronicles_ret chronicles_still [OF assms neat_disconnect still_disconnect])
  qed
  then have "chronicles pr cf (request_data pr cf c d)" for c d
    using say by (simp add: chronicles_def request_data_def)
  moreover have "chronicles pr cf (open_or_close pr cf c)" for c
    by (rule chronicles_still [OF assms neat_open_or_close still_open])
  ultimately show ?thesis using say by (simp add: handle_request_def split: list.split)
qed

text \<open>Timing out only shortens the history from its front, also when something throws on the way.\<close>

lemma timeouts_history:
  "request_history s = hs \<Longrightarrow>
   \<exists>n. map (time_of pr) (request_history (fst (timeouts_loop pr cf t hs s))) = drop n (map (time_of pr) hs)"
proof (induction hs arbitrary: s)
  case Nil
  then show ?case by (simp add: ret_def)
next
  case (Cons i hs)
  let ?i = "fst (p_timeout pr i)"
  have ti: "time_of pr ?i = time_of pr i" by (simp add: time_of_def timeout_stamp)
  show ?case
  proof (cases "t > 0 \<and> uint (p_time_stamp pr i) < t")
    case False
    then show ?thesis
      using Cons.prems unfolding timeouts_loop.simps if_not_P [OF False] by (intro exI [of _ 0]) (simp add: ret_def)
  next
    case True
    obtain s1 q where s: "send cf INTERRUPT (Key (id_time_key (p_id pr i) (p_time_stamp pr i))) False s = (s1, q)" by fastforce
    have h1: "request_history s1 = i # hs"
      using s still_tame [OF tame_send] Cons.prems unfolding still_def by (metis fst_conv)
    obtain s2 q2 where d: "dequeue pr cf ?i (snd (p_timeout pr i)) (s1\<lparr>request_history := ?i # hs\<rparr>) = (s2, q2)" by fastforce
    have h2: "request_history s2 = ?i # hs" using dequeue_fields(1) [OF d] by simp
    obtain n where n: "map (time_of pr) (request_history (fst (timeouts_loop pr cf t hs (s2\<lparr>request_history := hs\<rparr>)))) =
        drop n (map (time_of pr) hs)"
      using Cons.IH [of "s2\<lparr>request_history := hs\<rparr>"] by auto
    consider (threw) x where "q = Inl x" | (failed) b x where "q = Inr b" "q2 = Inl x" | (ended) b b2 where "q = Inr b" "q2 = Inr b2"
      by (cases q; cases q2) auto
    then show ?thesis
    proof cases
      case threw
      then show ?thesis using True s h1 by (intro exI [of _ 0]) (simp add: bnd_def)
    next
      case failed
      then show ?thesis using True s d h2 ti by (intro exI [of _ 0]) (simp add: bnd_def modify_def)
    next
      case ended
      then show ?thesis using True s d n by (intro exI [of _ "Suc n"]) (simp add: bnd_def modify_def)
    qed
  qed
qed

lemma timely_timeouts:
  assumes "steady cf" "timely pr cf s"
  shows "timely pr cf (fst (handle_timeouts pr cf s))"
proof -
  let ?s = "fst (handle_timeouts pr cf s)" and ?T = "map (time_of pr) (request_history s)"
  obtain n where n: "map (time_of pr) (request_history ?s) = drop n ?T"
    using timeouts_history [OF refl] unfolding handle_timeouts_def by blast
  have le: "clock cf (events s) \<le> clock cf (events ?s)" by (rule steady_neat [OF assms(1) neat_handle_timeouts])
  have "time_of pr i \<le> clock cf (events ?s)" if "i \<in> set (request_history ?s)" for i
  proof -
    have "time_of pr i \<in> set (drop n ?T)" unfolding n [symmetric] using that by simp
    then show ?thesis using assms(2) le set_drop_subset [of n ?T] by (fastforce simp: timely_def)
  qed
  then show ?thesis using assms(2) n by (simp add: timely_def sorted_wrt_drop)
qed

theorem reachable_timely:
  assumes "steady cf"
  shows "reachable pr cf s \<Longrightarrow> timely pr cf s"
proof (induction rule: reachable.induct)
  case start
  show ?case by (simp add: timely_def server_new_def)
next
  case (polled s)
  have "passes pr cf s (note_event Polled s)"
    using steady_append [OF assms, of "events s" "[Polled]"] by (intro passes_still) (simp_all add: note_event_def)
  then show ?case using polled passes_timely by blast
next
  case (complained s msg)
  have "passes pr cf s (note_event (Complained msg) s)"
    using steady_append [OF assms, of "events s" "[Complained msg]"] by (intro passes_still) (simp_all add: note_event_def)
  then show ?case using complained passes_timely by blast
next
  case (result s i response)
  then show ?case
    using chronicles_still [OF assms neat_dequeue still_dequeue, of pr pr cf i response] passes_timely unfolding chronicles_def by blast
next
  case (request s ms)
  then show ?case using chronicles_handle_request [OF assms, of ms] passes_timely unfolding chronicles_def by blast
next
  case (timeouts s)
  then show ?case by (intro timely_timeouts [OF assms])
qed

text \<open>After timing out, the whole history is young enough, and so is every outstanding request.\<close>

lemma timeouts_leave_young:
  assumes "steady cf" "reachable pr cf s" "handle_timeouts pr cf s = (s', Inr ())" "drop_dead cf s > 0"
    and "requests s' k \<noteq> None"
  shows "\<exists>i \<in> set (request_history s'). p_key pr i = k \<and> drop_dead cf s \<le> time_of pr i"
proof -
  let ?e = "expired pr (drop_dead cf s)"
  have h: "request_history s' = dropWhile ?e (request_history s)"
    using timeouts_loop_exact [OF assms(3) [unfolded handle_timeouts_def] refl] by simp
  have "reachable pr cf s'" using reachable.timeouts [OF assms(2)] assms(3) by simp
  then have "recorded pr s'" by (rule recorded.reachable_keeps)
  then obtain i where i: "i \<in> set (request_history s')" "p_key pr i = k" using assms(5) by (auto simp: recorded_def)
  obtain j hs where j: "request_history s' = j # hs" using i(1) by (cases "request_history s'") auto
  then have "\<not> ?e j" using h by (metis hd_dropWhile list.discI list.sel(1))
  then have "drop_dead cf s \<le> time_of pr j" using assms(4) by (simp add: expired_def time_of_def)
  moreover have "timely pr cf s'" using reachable_timely [OF assms(1) \<open>reachable pr cf s'\<close>] .
  then have "time_of pr j \<le> time_of pr i" using i(1) j by (auto simp: timely_def)
  ultimately show ?thesis using i by force
qed

end

section \<open>Properties\<close>

text \<open>
  C12. No request is forgotten: with a clock that does not go backwards, in every state the server can
  reach, once \<open>handle_timeouts\<close> has returned, which it does in every turn, each request that is still
  outstanding was made no longer ago than the timeout.
\<close>

theorem no_request_overdue:
  assumes "steady cf" and "reachable (http_protocol cu) cf s" and "handle_timeouts (http_protocol cu) cf s = (s', Inr ())"
    and "requests s' k = Some c"
  shows "\<exists>i \<in> set (request_history s'). http_key i = k \<and>
    clock cf (events s) \<le> uint (info_time_stamp i) + uint (request_timeout cf)"
proof (cases "drop_dead cf s > 0")
  case True
  from http.timeouts_leave_young [OF assms(1-3) True] assms(4) show ?thesis
    by (fastforce simp: drop_dead_def time_of_def http_protocol_def)
next
  case False
  have "reachable (http_protocol cu) cf s'" using reachable.timeouts [OF assms(2)] assms(3) by simp
  then have "recorded (http_protocol cu) s'" by (rule http.recorded.reachable_keeps)
  then obtain i where "i \<in> set (request_history s')" "http_key i = k"
    using assms(4) by (auto simp: recorded_def dom_def http_protocol_def)
  moreover have "clock cf (events s) \<le> uint (info_time_stamp i) + uint (request_timeout cf)"
    using False uint_ge_0 [of "info_time_stamp i"] unfolding drop_dead_def by linarith
  ultimately show ?thesis by blast
qed

theorem no_request_overdue_witness:
  "\<exists>s'. handle_timeouts http0 plain_config asked = (s', Inr ()) \<and> requests s' (id_time_key 0 1000) = Some ''A'' \<and>
     (\<exists>i \<in> set (request_history s'). http_key i = id_time_key 0 1000 \<and> 1000 \<le> uint (info_time_stamp i) + 10)"
proof -
  let ?cf = "plain_config :: (http_request, http_request_info) server_config"
  have st: "steady ?cf" by (simp add: steady_def)
  have "handle_timeouts http0 ?cf asked = (asked, Inr ())"
    by (simp add: handle_timeouts_def drop_dead_def asked_state(3) root_info stamp_def ret_def)
  moreover have "requests asked (id_time_key 0 1000) = Some ''A''" by (simp add: asked_state)
  ultimately show ?thesis using no_request_overdue [OF st asked_reachable] by fastforce
qed

end
