(* ===== verification/Primes.thy ===== *)
theory Primes
  imports Programs Http_Limits Http_Client "HOL-Library.Multiset"
begin

text \<open>
  The batch mode of \<open>prime_serverd.cpp\<close> from end to end: the client asks for every odd number of a range,
  the server passes each request to the two stages, and the client collects the answers, in
  whatever order they come.
\<close>

section \<open>The requests\<close>

fun ask_all :: "curl \<Rightarrow> nat \<Rightarrow> nat \<Rightarrow> prime_client \<Rightarrow> prime_client \<times> (std_error + string) list" where
  "ask_all cu reqs 0 c = (c, [])"
| "ask_all cu reqs (Suc k) c =
     (case next_prime_request cu reqs c of (c1, r) \<Rightarrow> (case ask_all cu reqs k c1 of (c2, rs) \<Rightarrow> (c2, r # rs)))"

definition ask :: "curl \<Rightarrow> nat \<Rightarrow> std_error + string" where
  "ask cu n = req_string cu GET (''/is_prime?possible_prime='' @ to_dec n) [] [] [] ''HTTP/1.1''"

lemma next_asks:
  assumes "produced_requests c < reqs" "last_prime c + 2 < size_range"
  shows "next_prime_request cu reqs c =
    (c\<lparr>produced_requests := produced_requests c + 1, last_prime := last_prime c + 2\<rparr>, ask cu (last_prime c + 2))"
  using assms by (simp add: next_prime_request_def ask_def Let_def)

lemma ask_all_range:
  assumes "produced_requests c + k = reqs" "last_prime c + 2 * k < size_range"
  shows "\<exists>c'. ask_all cu reqs (Suc k) c = (c', map (\<lambda>i. ask cu (last_prime c + 2 * (i + 1))) [0..<k] @ [Inr []]) \<and>
    primes c' = primes c \<and> collected_results c' = collected_results c"
  using assms
proof (induction k arbitrary: c)
  case 0
  then show ?case by (simp add: next_prime_request_def Let_def)
next
  case (Suc k)
  let ?c = "c\<lparr>produced_requests := produced_requests c + 1, last_prime := last_prime c + 2\<rparr>"
  have n: "next_prime_request cu reqs c = (?c, ask cu (last_prime c + 2))"
    using Suc.prems by (intro next_asks) auto
  obtain c' where c': "ask_all cu reqs (Suc k) ?c = (c', map (\<lambda>i. ask cu (last_prime ?c + 2 * (i + 1))) [0..<k] @ [Inr []])"
      "primes c' = primes c" "collected_results c' = collected_results c"
    using Suc.IH [of ?c] Suc.prems by auto
  have "map (\<lambda>i. ask cu (last_prime c + 2 * (i + 1))) [0..<Suc k] =
      ask cu (last_prime c + 2) # map (\<lambda>i. ask cu (last_prime ?c + 2 * (i + 1))) [0..<k]"
    by (simp add: upt_conv_Cons map_Suc_upt [symmetric] comp_def del: upt_Suc)
  then show ?case using n c' by (simp del: upt_Suc)
qed

text \<open>What is written is the request with its query taken apart.\<close>

definition prime_request :: "nat \<Rightarrow> http_request" where
  "prime_request n = req_make GET ''/is_prime'' [] [(''possible_prime'', [to_dec n])] [] ''HTTP/1.1''"

definition target :: "nat \<Rightarrow> string" where
  "target n = ''/is_prime?possible_prime='' @ to_dec n"

lemma prime_request_fields [simp]:
  "req_method (prime_request n) = GET" "path (prime_request n) = ''/is_prime''" "body (prime_request n) = []"
  "query (prime_request n) = [(''possible_prime'', [to_dec n])]" "headers (prime_request n) = []" "version (prime_request n) = ''HTTP/1.1''"
  by (simp_all add: prime_request_def req_state_defs)

lemma ask_is_request: "ask cu n = req_to_string cu (prime_request n)"
proof -
  have "path_query (''/is_prime?possible_prime='' @ to_dec n) [] = path_query ''/is_prime'' [(''possible_prime'', [to_dec n])]"
    by (simp add: path_query_def)
  then show ?thesis by (simp only: ask_def req_to_string_def req_string_def prime_request_fields)
qed

lemma digits_plain: "c \<in> set (to_dec n) \<Longrightarrow> c \<noteq> CHR ''&'' \<and> c \<noteq> LF"
  using to_dec_digits [of c n] by (auto simp: isdigit_def LF_def)

lemma prime_request_plain: "curl_inverse cu (target n) t \<Longrightarrow> req_plain cu (prime_request n)"
  using digits_plain by (auto simp: req_plain_def path_query_def target_def query_plain_def SUPPORTED_VERSIONS_def framed_def hdr_wf_def)

lemma prime_request_received:
  assumes "curl_inverse cu (target n) t" "ask cu n = Inr s"
  shows "\<exists>e. req_from_stream cu SIZE_MAX req_new s = (e, Inr [req_received cu (prime_request n)])"
proof -
  have "list_all2 (\<lambda>r s. req_plain cu r \<and> req_to_string cu r = Inr s) [prime_request n] [s]"
    using prime_request_plain [OF assms(1)] assms(2) by (simp add: ask_is_request)
  from req_loop_requests [OF this, of OPTIONS "[]"]
  obtain m where "req_loop cu SIZE_MAX (req_ready OPTIONS) s [] = (req_ready m, Inr [req_received cu (prime_request n)])" by auto
  moreover have "req_ready OPTIONS = req_new" by (simp add: req_ready_def req_state_defs)
  moreover have "s \<noteq> []" using assms(2) by (auto simp: ask_def req_string_def split: option.splits sum.splits)
  ultimately show ?thesis by (simp add: req_from_stream_def)
qed

lemma received_again: "req_to_string cu (req_received cu (prime_request n)) = ask cu n"
  by (simp add: ask_is_request req_to_string_def req_received_def received_query_def sent_headers_def req_state_defs)

section \<open>The answers\<close>

text \<open>
  What the service makes of the bytes of one request: the server, with a size limit of \<open>m\<close>, parses
  them and writes the request out for the first stage, which sends a number on to the second, which answers.
\<close>

definition prime_service :: "curl \<Rightarrow> (std_error \<Rightarrow> string) \<Rightarrow> nat \<Rightarrow> http_request_info \<Rightarrow> string \<Rightarrow> string option" where
  "prime_service cu what m info bytes =
     (case req_from_stream cu m req_new bytes of
        (_, Inr [request]) \<Rightarrow>
          (case req_to_string cu request of
             Inr fwd \<Rightarrow>
               (case parse_work cu what [Bytes fwd] info of
                  Done r info1 \<Rightarrow>
                    if intermediate r
                    then (case compute_work (map Bytes (result_messages r)) info1 of
                            Done r2 _ \<Rightarrow> (case result_messages r2 of [reply] \<Rightarrow> Some reply | _ \<Rightarrow> None)
                          | _ \<Rightarrow> None)
                    else None
                | _ \<Rightarrow> None)
           | Inl _ \<Rightarrow> None)
      | _ \<Rightarrow> None)"

definition verdict :: "nat \<Rightarrow> nat" where
  "verdict n = (if is_prime n then n else SIZE_MAX)"

definition prime_response :: "http_request_info \<Rightarrow> nat \<Rightarrow> http_response" where
  "prime_response info n = fst (rsp_from_info (rsp_make 200 ''OK'' (to_dec (verdict n)) [] ''HTTP/1.1'') info)"

text \<open>A size limit that accepts the request changes nothing.\<close>

definition accepts :: "curl \<Rightarrow> nat \<Rightarrow> string \<Rightarrow> bool" where
  "accepts cu m s \<longleftrightarrow> (case snd (req_from_stream cu m req_new s) of Inl _ \<Rightarrow> False | Inr _ \<Rightarrow> True)"

lemma accepts_unlimited: "accepts cu m s \<Longrightarrow> req_from_stream cu m req_new s = req_from_stream cu SIZE_MAX req_new s"
  using req_loop_limit [of cu m req_new s "[]"] by (auto simp: accepts_def req_from_stream_def split: if_splits)

text \<open>The two stages on a request for a number.\<close>

lemma prime_stages_run:
  assumes "curl_inverse cu (target n) t" "ask cu n = Inr s" "2 \<le> n" "n < size_range"
  shows "parse_work cu what [Bytes s] info = pass_on n info"
    "compute_work [Bytes (size_bytes n)] info = answer 200 ''OK'' (to_dec (verdict n)) [] info"
proof -
  let ?r = "req_received cu (prime_request n)"
  have "req_from_string cu s = Inr ?r" using prime_request_received [OF assms(1,2)] by (auto simp: req_from_string_def)
  moreover have "possible_prime ?r = Inr n"
    using assms(4) by (simp add: possible_prime_def req_received_def received_query_def req_state_defs)
  ultimately show "parse_work cu what [Bytes s] info = pass_on n info" by (simp add: parse_work_def read_request_def)
  show "compute_work [Bytes (size_bytes n)] info = answer 200 ''OK'' (to_dec (verdict n)) [] info"
    using assms(3,4) by (simp add: compute_work_def bytes_size_bytes compute_correct verdict_def)
qed

lemma prime_service_answers:
  assumes "curl_inverse cu (target n) t" "ask cu n = Inr s" "accepts cu m s" "2 \<le> n" "n < size_range"
  shows "prime_service cu what m info s = Some (rsp_to_string (prime_response info n))"
proof -
  obtain e where e: "req_from_stream cu SIZE_MAX req_new s = (e, Inr [req_received cu (prime_request n)])"
    using prime_request_received [OF assms(1,2)] by blast
  have fwd: "req_to_string cu (req_received cu (prime_request n)) = Inr s" using assms(2) by (simp add: received_again)
  show ?thesis
    using accepts_unlimited [OF assms(3)] e fwd prime_stages_run [OF assms(1,2,4,5)]
    by (simp add: prime_service_def pass_on_def answer_def prime_response_def split: prod.split)
qed

lemma length_to_dec: "n < 10 ^ m \<Longrightarrow> 0 < m \<Longrightarrow> length (to_dec n) \<le> m"
proof (induction m arbitrary: n)
  case (Suc m)
  show ?case
  proof (cases "n < 10")
    case False
    then have "n div 10 < 10 ^ m" "0 < m" using Suc.prems by (auto intro: Suc_leI gr0I)
    then show ?thesis using Suc.IH [of "n div 10"] False by (subst to_dec.simps) simp
  qed (simp add: to_dec.simps)
qed simp

lemma verdict_range: "n < size_range \<Longrightarrow> verdict n < size_range"
  by (simp add: verdict_def SIZE_MAX_def)

lemma prime_response_plain: "n < size_range \<Longrightarrow> rsp_plain (prime_response info n)"
proof -
  assume "n < size_range"
  then have "verdict n < 10 ^ 20" using verdict_range [of n] by (simp add: size_range_def)
  then have "length (to_dec (verdict n)) < size_range"
    using length_to_dec [of "verdict n" 20] by (simp add: size_range_def)
  then show ?thesis
    by (auto simp: rsp_plain_def prime_response_def rsp_from_info_def Let_def rsp_make_def http_entity_make_def http_entity.defs
        SUPPORTED_VERSIONS_def hdr_wf_def hdr_insert_def plain_header_def caseless_eq_def CR_def LF_def)
qed

text \<open>The answer ends with the digits of the verdict on a line of their own.\<close>

lemma prime_response_text:
  "\<exists>front. rsp_to_string (prime_response info n) = front @ LF # to_dec (verdict n)"
proof -
  have "body (prime_response info n) = to_dec (verdict n)"
    by (simp add: prime_response_def rsp_from_info_def Let_def rsp_make_def http_entity_make_def http_entity.defs)
  then show ?thesis
    by (intro exI [of _ "version (prime_response info n) @ '' '' @ to_dec (unat (code (prime_response info n))) @ '' '' @
          message (prime_response info n) @ CRLF @
          concat (map header_line (filter (\<lambda>kv. fst kv \<noteq> ''Content-Length'') (headers (prime_response info n)))) @
          ''Content-Length: '' @ to_dec (length (to_dec (verdict n))) @ CRLF @ [CR]"])
      (simp add: rsp_to_string_def rsp_generic_def CRLF_def)
qed

section \<open>Collecting\<close>

fun collect_all :: "nat \<Rightarrow> prime_client \<Rightarrow> string list \<Rightarrow> prime_client \<times> bool list" where
  "collect_all reqs c [] = (c, [])"
| "collect_all reqs c (r # rs) =
     (case collect_prime reqs c r of (c1, mr) \<Rightarrow> (case collect_all reqs c1 rs of (c2, ms) \<Rightarrow> (c2, mr # ms)))"

lemma stoul_LF: "stoul (LF # s) = stoul s"
  by (simp add: stoul_base_def isspace_def LF_def)

lemma last_line: "LF \<notin> set ds \<Longrightarrow> rev (takeWhile (\<lambda>x. x \<noteq> LF) (rev (front @ LF # ds))) = ds"
  by (simp add: takeWhile_append takeWhile_eq_all_conv)

lemma SIZE_MAX_not_prime: "\<not> is_prime SIZE_MAX"
proof -
  have "3 dvd SIZE_MAX" "3 < SIZE_MAX" by (simp_all add: SIZE_MAX_numeral)
  then show ?thesis unfolding is_prime_def by (intro notI) (auto dest!: spec [of _ 3])
qed

lemma collect_prime_response:
  assumes "n < size_range"
  shows "collect_prime reqs c (rsp_to_string (prime_response info n)) =
    (c\<lparr>primes := primes c \<union> (if is_prime n then {n} else {}), collected_results := collected_results c + 1\<rparr>,
     collected_results c + 1 < reqs)"
proof -
  obtain front where f: "rsp_to_string (prime_response info n) = front @ LF # to_dec (verdict n)" using prime_response_text by blast
  have "LF \<notin> set (to_dec (verdict n))" using digits_plain by blast
  then have tail: "rev (takeWhile (\<lambda>x. x \<noteq> LF) (rev (front @ LF # to_dec (verdict n)))) = to_dec (verdict n)" by (rule last_line)
  have "stoul (LF # to_dec (verdict n)) = Inr (verdict n)" by (simp only: stoul_LF stoul_to_dec [OF verdict_range [OF assms]])
  moreover have "(verdict n \<noteq> SIZE_MAX) = is_prime n" using SIZE_MAX_not_prime by (auto simp: verdict_def)
  moreover have "is_prime n \<Longrightarrow> verdict n = n" by (simp add: verdict_def)
  ultimately show ?thesis unfolding collect_prime_def f Let_def tail by (cases "is_prime n") auto
qed

lemma collect_all_responses:
  "\<forall>n \<in> set ns. n < size_range \<Longrightarrow> length infos = length ns \<Longrightarrow>
   collect_all reqs c (map2 (\<lambda>i n. rsp_to_string (prime_response i n)) infos ns) =
   (c\<lparr>primes := primes c \<union> {n \<in> set ns. is_prime n}, collected_results := collected_results c + length ns\<rparr>,
    map (\<lambda>k. collected_results c + k + 1 < reqs) [0..<length ns])"
proof (induction ns arbitrary: c infos)
  case (Cons n ns)
  obtain i infos' where i: "infos = i # infos'" using Cons.prems(2) by (cases infos) auto
  let ?c = "c\<lparr>primes := primes c \<union> (if is_prime n then {n} else {}), collected_results := collected_results c + 1\<rparr>"
  have one: "collect_prime reqs c (rsp_to_string (prime_response i n)) = (?c, collected_results c + 1 < reqs)"
    using Cons.prems(1) by (intro collect_prime_response) simp
  have rest: "collect_all reqs ?c (map2 (\<lambda>i n. rsp_to_string (prime_response i n)) infos' ns) =
     (?c\<lparr>primes := primes ?c \<union> {n \<in> set ns. is_prime n}, collected_results := collected_results ?c + length ns\<rparr>,
      map (\<lambda>k. collected_results ?c + k + 1 < reqs) [0..<length ns])"
    using Cons.prems i by (intro Cons.IH) auto
  have "map (\<lambda>k. collected_results c + k + 1 < reqs) [0..<length (n # ns)] =
      (collected_results c + 1 < reqs) # map (\<lambda>k. collected_results ?c + k + 1 < reqs) [0..<length ns]"
    by (simp add: upt_conv_Cons map_Suc_upt [symmetric] comp_def del: upt_Suc)
  moreover have "{m \<in> set (n # ns). is_prime m} = (if is_prime n then {n} else {}) \<union> {m \<in> set ns. is_prime m}" by auto
  ultimately show ?case using one rest i by (simp add: Un_assoc del: upt_Suc list.set)
qed simp

section \<open>The range\<close>

definition numbers :: "nat \<Rightarrow> nat \<Rightarrow> nat list" where
  "numbers a n = map (\<lambda>i. a + 2 * i) [0..<n]"

lemma prime_range_odd:
  assumes "prime_range arg = Inr (a, b)" "range_requests (a, b) = Some n"
  shows "odd a" "3 \<le> a" "b < size_range" "b = a + 2 * (n - 1)" "0 < n"
proof -
  obtain u v where uv: "u < size_range" "v < size_range" "a = max (size_add u (if u mod 2 = 0 then 1 else 0)) 3"
      "b = size_sub v (if v mod 2 = 0 then 1 else 0)"
  proof -
    obtain x y where xy: "(case find_char CHR '','' arg of None \<Rightarrow> (arg, arg) | Some i \<Rightarrow> (take i arg, drop (i + 1) arg)) = (x, y)"
      by (metis surj_pair)
    then obtain u v where "stoul x = Inr u" "stoul y = Inr v" "Inr (a, b) = (Inr (max (size_add u (if u mod 2 = 0 then 1 else 0)) 3,
        size_sub v (if v mod 2 = 0 then 1 else 0)) :: std_error + nat \<times> nat)"
      using assms(1) by (cases "stoul x"; cases "stoul y") (simp_all add: prime_range_def)
    then show thesis using that stoul_range by blast
  qed
  have even: "even size_range" "even (size_range - 2)" by (simp_all add: size_range_def)
  show a: "odd a"
  proof (cases "even u")
    case True
    then have "u + 1 < size_range" using uv(1) even(1) by (metis Suc_eq_plus1 Suc_lessI even_Suc)
    then show ?thesis using True uv(3) by (auto simp: max_def)
  next
    case False
    then show ?thesis using uv(1,3) by (auto simp: max_def odd_iff_mod_2_eq_one)
  qed
  show "3 \<le> a" by (simp add: uv(3))
  show "b < size_range" using uv(2,4) by (simp add: size_sub_def)
  have "odd b"
  proof (cases "even v")
    case True
    show ?thesis
    proof (cases "v = 0")
      case False
      then have "b = v - 1" using uv(2,4) True by (simp add: size_sub_exact)
      then show ?thesis using True False by simp
    qed (use uv(4) in \<open>simp add: size_sub_def size_range_def\<close>)
  next
    case False
    then show ?thesis using uv(2,4) by (simp add: odd_iff_mod_2_eq_one)
  qed
  moreover have n: "a < b" "n = (b - a) div 2 + 1" using assms(2) by (auto simp: range_requests_def split: if_splits)
  ultimately have "even (b - a)" using a by simp
  then show "b = a + 2 * (n - 1)" "0 < n" using n by auto
qed

lemma numbers_range:
  assumes "odd a" "b = a + 2 * (n - 1)" "0 < n"
  shows "set (numbers a n) = {k. a \<le> k \<and> k \<le> b \<and> odd k}"
proof (intro set_eqI iffI)
  fix k
  assume "k \<in> {k. a \<le> k \<and> k \<le> b \<and> odd k}"
  then have "a \<le> k" "k \<le> b" "even (k - a)" using assms(1) by auto
  then have "k = a + 2 * ((k - a) div 2)" "(k - a) div 2 < n" using assms(2,3) by auto
  then show "k \<in> set (numbers a n)" by (auto simp: numbers_def)
qed (use assms in \<open>auto simp: numbers_def\<close>)

lemma ask_ok: "curl_inverse cu (target n) t \<Longrightarrow> \<exists>s. ask cu n = Inr s"
  by (auto simp: ask_def req_string_def path_query_def METHOD_TO_STRING_def target_def dest!: curl_inverseD(1) split: sum.splits)

definition answered :: "curl \<Rightarrow> (std_error \<Rightarrow> string) \<Rightarrow> nat \<Rightarrow> nat \<Rightarrow> string \<Rightarrow> bool" where
  "answered cu what m k r \<longleftrightarrow> (\<exists>s i. ask cu k = Inr s \<and> prime_service cu what m i s = Some r)"

lemma answered_responses:
  assumes "list_all2 (answered cu what m) ks rs"
    and "\<And>k s i. k \<in> set ks \<Longrightarrow> ask cu k = Inr s \<Longrightarrow> prime_service cu what m i s = Some (rsp_to_string (prime_response i k))"
  shows "\<exists>infos. length infos = length ks \<and> rs = map2 (\<lambda>i n. rsp_to_string (prime_response i n)) infos ks"
  using assms
proof (induction ks rs rule: list_all2_induct)
  case (Cons k ks r rs)
  then obtain infos where infos: "length infos = length ks" "rs = map2 (\<lambda>i n. rsp_to_string (prime_response i n)) infos ks" by auto
  obtain s i where "ask cu k = Inr s" "prime_service cu what m i s = Some r" using Cons.hyps(1) by (auto simp: answered_def)
  then have "r = rsp_to_string (prime_response i k)" using Cons.prems [of k s i] by simp
  then show ?case using infos by (intro exI [of _ "i # infos"]) simp
qed simp

section \<open>Properties\<close>


text \<open>Small numbers to try it on.\<close>

abbreviation ask_3 :: string where
  "ask_3 \<equiv> ''GET /is_prime?possible_prime=3 HTTP/1.1'' @ CRLF @ CRLF"

abbreviation ask_5 :: string where
  "ask_5 \<equiv> ''GET /is_prime?possible_prime=5 HTTP/1.1'' @ CRLF @ CRLF"

lemma small_targets: "curl_inverse plain_curl (target 3) (target 3)" "curl_inverse plain_curl (target 5) (target 5)"
  by (simp_all add: curl_inverse_def plain_curl_def target_def eval_simps)

lemma small_asks: "ask plain_curl 3 = Inr ask_3" "ask plain_curl 5 = Inr ask_5"
  by (simp_all add: ask_def req_string_def METHOD_TO_STRING_def url_encode_def plain_curl_def path_query_def eval_simps)

lemma small_accepted: "accepts plain_curl 1000 ask_3" "accepts plain_curl 1000 ask_5"
  by (simp_all add: accepts_def req_eval)


end
