(* ===== verification/Stages.thy ===== *)
theory Stages
  imports Pipeline Primes
begin

text \<open>
  A service of several stages, as \<open>prime_serverd.cpp\<close> has it: each stage is a proxy with any number of
  workers; an intermediate result goes on to the next stage, a final one back to the server. The parts are
  run turn by turn, and what one of them receives is what another has sent.
\<close>

section \<open>Tiers\<close>

record 'i tier =
  proxy_cf :: "'i proxy_config"
  worker_cf :: "'i worker_config"
  the_proxy :: "'i proxy"
  the_workers :: "string \<rightharpoonup> 'i worker"

text \<open>The frames that were sent on a socket between two moments.\<close>

definition taken :: "sock \<Rightarrow> 'i event list \<Rightarrow> 'i event list \<Rightarrow> 'i frame list" where
  "taken sk before after = map fst (filter (\<lambda>(f, m, r). r = Sent) (drop (length (attempts sk before)) (attempts sk after)))"

text \<open>
  A turn of the proxy with a request: the router socket has put the sender's identity \<open>hop\<close> in front, and takes the
  first frame of what the proxy sends for the identity of the worker.
\<close>

definition tier_dispatch :: "'i frame \<Rightarrow> 'i frame list \<Rightarrow> 'i tier \<Rightarrow> 'i tier \<times> (string \<times> 'i frame list) option" where
  "tier_dispatch hop task t =
     (let p = fst (forward_turn (proxy_cf t) \<lparr>idle_in = None, job_in = Some (hop # task)\<rparr> (the_proxy t)) in
      (t\<lparr>the_proxy := p\<rparr>,
       case taken DOWNSTREAM (events (the_proxy t)) (events p) of Bytes a # frames \<Rightarrow> Some (a, frames) | _ \<Rightarrow> None))"

text \<open>A turn of one worker, with what it sends up, on and back.\<close>

definition tier_work :: "string \<Rightarrow> 'i frame list \<Rightarrow> 'i tier \<Rightarrow> 'i tier \<times> 'i frame list \<times> 'i frame list \<times> 'i frame list" where
  "tier_work a task t =
     (case the_workers t a of
        None \<Rightarrow> (t, [], [], [])
      | Some w \<Rightarrow>
          let w' = fst (work_turn (worker_cf t) \<lparr>work_in = Some task, interrupt_in = False\<rparr> w);
              sent = (\<lambda>sk. taken sk (events w) (events w'))
          in (t\<lparr>the_workers := (the_workers t)(a \<mapsto> w')\<rparr>, sent UPSTREAM, sent DOWNSTREAM, sent LOOPBACK))"

definition tier_report :: "string \<Rightarrow> 'i frame list \<Rightarrow> 'i tier \<Rightarrow> 'i tier" where
  "tier_report a up t =
     (case up of
        [Bytes hb] \<Rightarrow> t\<lparr>the_proxy := fst (forward_turn (proxy_cf t) \<lparr>idle_in = Some [a, hb], job_in = None\<rparr> (the_proxy t))\<rparr>
      | _ \<Rightarrow> t)"

text \<open>A job through one tier and through all of them; the results are what goes on and what goes back to the server.\<close>

definition pass_tier :: "'i frame \<Rightarrow> 'i frame list \<Rightarrow> 'i tier \<Rightarrow> 'i tier \<times> 'i frame list \<times> 'i frame list" where
  "pass_tier hop task t =
     (case tier_dispatch hop task t of
        (t1, None) \<Rightarrow> (t1, [], [])
      | (t1, Some (a, frames)) \<Rightarrow>
          (case tier_work a frames t1 of (t2, up, onward, back) \<Rightarrow> (tier_report a up t2, onward, back)))"

fun pass_tiers :: "'i frame \<Rightarrow> 'i frame list \<Rightarrow> 'i tier list \<Rightarrow> 'i tier list \<times> 'i frame list" where
  "pass_tiers hop task [] = ([], [])"
| "pass_tiers hop task (t # ts) =
     (case pass_tier hop task t of
        (t', onward, back) \<Rightarrow>
          if onward = [] then (t' # ts, back)
          else (case pass_tiers hop onward ts of (ts', back') \<Rightarrow> (t' # ts', back @ back')))"

section \<open>The specification\<close>

text \<open>The work functions of the stages one after another, on a request that nobody interrupts.\<close>

fun chain :: "('i frame list \<Rightarrow> 'i \<Rightarrow> 'i work) list \<Rightarrow> 'i frame list \<Rightarrow> 'i \<Rightarrow> ('i \<times> string) option" where
  "chain [] ms i = None"
| "chain (w # ws) ms i =
     (case work_outcome (w ms i) of
        Inl x \<Rightarrow> None
      | Inr (r, i') \<Rightarrow>
          if result_messages r = [] then None
          else if intermediate r then chain ws (map Bytes (result_messages r)) i'
          else Some (i', hd (result_messages r)))"

text \<open>
  A tier that can take a job: its sockets take everything, somebody is idle, whoever is idle exists, and no interrupt
  is known or will come for a key in \<open>K\<close>.
\<close>

definition ready :: "u64 set \<Rightarrow> 'i tier \<Rightarrow> bool" where
  "ready K t \<longleftrightarrow> sound_proxy (proxy_cf t) \<and> reliable (proxy_cf t) DOWNSTREAM \<and>
     (\<forall>g q ms x. choose_function (proxy_cf t) = Some g \<longrightarrow> g q ms \<noteq> Inl x) \<and>
     proxy_inv (the_proxy t) \<and> idle_workers (the_proxy t) \<noteq> [] \<and>
     fst ` set (idle_workers (the_proxy t)) \<subseteq> dom (the_workers t) \<and>
     calm (worker_cf t) K \<and> NO_JOB \<in> K \<and> sane_cleanup (worker_cf t) \<and> (\<forall>sk. reliable (worker_cf t) sk) \<and>
     (\<forall>w \<in> ran (the_workers t). K \<inter> interrupts w = {})"

lemma attempts_sent [simp]: "attempts sk (sent_frames sk' fs) =
    (if sk = sk' then map2 (\<lambda>f n. (f, n, Sent)) fs (map (\<lambda>k. Suc k \<noteq> length fs) [0..<length fs]) else [])"
proof (induction fs)
  case (Cons f fs)
  have "map (\<lambda>k. Suc k \<noteq> length (f # fs)) [0..<length (f # fs)] = (fs \<noteq> []) # map (\<lambda>k. Suc k \<noteq> length fs) [0..<length fs]"
    by (simp add: upt_conv_Cons map_Suc_upt [symmetric] comp_def del: upt_Suc)
  then show ?case using Cons by (simp del: upt_Suc)
qed simp

lemma taken_sent: "attempts sk vs' = attempts sk vs @ attempts sk (sent_frames sk fs) \<Longrightarrow> taken sk vs vs' = fs"
  by (simp add: taken_def filter_map comp_def case_prod_unfold map_fst_zip)

lemma taken_none: "attempts sk vs' = attempts sk vs \<Longrightarrow> taken sk vs vs' = []"
  by (simp add: taken_def)

lemma dispatch_ready:
  assumes "ready K t" "task \<noteq> []"
  shows "\<exists>t1 a. tier_dispatch hop task t = (t1, Some (a, task)) \<and> a \<in> dom (the_workers t) \<and>
    t1 = t\<lparr>the_proxy := the_proxy t1\<rparr> \<and> proxy_inv (the_proxy t1) \<and>
    fst ` set (idle_workers (the_proxy t1)) \<subseteq> dom (the_workers t)"
proof -
  let ?f = "\<lparr>idle_in = None, job_in = Some (hop # task)\<rparr>" and ?p = "the_proxy t"
  have s: "sound_turn ?f" using assms(2) by (cases task) (simp_all add: sound_turn_def)
  have "idle_after ?f (idle_workers ?p) = idle_workers ?p" by (simp add: idle_after_def)
  with forward_turn_spec [OF _ _ s, of ?p "proxy_cf t"] assms(1)
  obtain p' a where p': "forward_turn (proxy_cf t) ?f ?p = (p', Inr ())" "proxy_inv p'" "a \<in> fst ` set (idle_workers ?p)"
      "idle_workers p' = take_worker a (idle_workers ?p)" "events p' = events ?p @ Polled # sent_frames DOWNSTREAM (Bytes a # task)"
    unfolding ready_def by auto
  have "taken DOWNSTREAM (events ?p) (events p') = Bytes a # task"
    by (rule taken_sent) (simp add: p'(5) del: attempts_sent sent_frames.simps)
  then have "tier_dispatch hop task t = (t\<lparr>the_proxy := p'\<rparr>, Some (a, task))" by (simp add: tier_dispatch_def p'(1))
  moreover have "fst ` set (idle_workers p') \<subseteq> dom (the_workers t)"
    using assms(1) p'(4) by (auto simp: ready_def take_worker_def)
  ultimately show ?thesis using p'(2,3) assms(1) by (intro exI [of _ "t\<lparr>the_proxy := p'\<rparr>"] exI [of _ a]) (auto simp: ready_def)
qed

lemma report_ready:
  assumes "sound_proxy (proxy_cf t)" "reliable (proxy_cf t) DOWNSTREAM" "proxy_inv (the_proxy t)"
    and "\<And>g q ms x. choose_function (proxy_cf t) = Some g \<Longrightarrow> g q ms \<noteq> Inl x"
  shows "\<exists>p'. tier_report a [Bytes hb] t = t\<lparr>the_proxy := p'\<rparr> \<and> proxy_inv p' \<and>
    idle_workers p' = advertise_idle a hb (idle_workers (the_proxy t))"
proof -
  let ?f = "\<lparr>idle_in = Some [a, hb], job_in = None\<rparr>"
  have "sound_turn ?f" by (simp add: sound_turn_def)
  from forward_turn_spec [OF assms(3,1) this assms(2)] assms(4) show ?thesis by (auto simp: tier_report_def idle_after_def)
qed

lemma work_ready:
  assumes "ready K t0" "worker_cf t = worker_cf t0" "the_workers t = the_workers t0" "the_workers t a = Some w"
    and "info_key (worker_cf t) i \<in> K" "work_outcome (work_function (worker_cf t) ms i) = Inr (r, i')" "result_messages r \<noteq> []"
  shows "\<exists>w'. tier_work a (Info i # ms) t = (t\<lparr>the_workers := (the_workers t)(a \<mapsto> w')\<rparr>, [Bytes (result_heart_beat r)],
      if intermediate r then Info i' # map Bytes (result_messages r) else [],
      if intermediate r then [] else [Info i', Bytes (hd (result_messages r))]) \<and> K \<inter> interrupts w' = {}"
proof -
  let ?t = "\<lparr>work_in = Some (Info i # ms), interrupt_in = False\<rparr>"
  have k: "calm (worker_cf t) K" "{NO_JOB, info_key (worker_cf t) i} \<subseteq> K" "K \<inter> interrupts w = {}" "sane_cleanup (worker_cf t)"
      "\<And>sk. reliable (worker_cf t) sk"
    using assms(1-5) unfolding ready_def by (auto simp: ran_def)
  obtain w' where w': "work_turn (worker_cf t) ?t w = (w', Inr True)" "K \<inter> interrupts w' = {}"
      "attempts UPSTREAM (events w') = attempts UPSTREAM (events w) @ [(Bytes (result_heart_beat r), False, Sent)]"
      "\<And>sk. sk \<noteq> UPSTREAM \<Longrightarrow> attempts sk (events w') = attempts sk (events w) @
        attempts sk (if intermediate r then sent_frames DOWNSTREAM (Info i' # map Bytes (result_messages r))
                     else sent_frames LOOPBACK [Info i', Bytes (hd (result_messages r))])"
    using work_turn_delivers_keys [OF k(1-4) k(5) k(5) k(5) _ assms(6,7), of ?t] by auto
  have "taken UPSTREAM (events w) (events w') = [Bytes (result_heart_beat r)]" by (rule taken_sent) (simp add: w'(3))
  moreover have "taken DOWNSTREAM (events w) (events w') = (if intermediate r then Info i' # map Bytes (result_messages r) else [])"
    using w'(4) [of DOWNSTREAM] by (auto intro!: taken_sent taken_none simp del: sent_frames.simps)
  moreover have "taken LOOPBACK (events w) (events w') = (if intermediate r then [] else [Info i', Bytes (hd (result_messages r))])"
    using w'(4) [of LOOPBACK] by (auto intro!: taken_sent taken_none simp del: sent_frames.simps)
  ultimately show ?thesis using w'(1,2) assms(4) by (auto simp: tier_work_def Let_def)
qed

lemma advertise_names: "fst ` set (advertise_idle a h q) = insert a (fst ` set q)"
  by (auto simp: advertise_idle_def image_iff split: if_splits) force+

text \<open>A tier does its job and is ready for the next one.\<close>

lemma pass_tier_ready:
  assumes "ready K t" "info_key (worker_cf t) i \<in> K" "work_outcome (work_function (worker_cf t) ms i) = Inr (r, i')"
    and "result_messages r \<noteq> []"
  shows "\<exists>t'. pass_tier hop (Info i # ms) t =
      (t', if intermediate r then Info i' # map Bytes (result_messages r) else [],
       if intermediate r then [] else [Info i', Bytes (hd (result_messages r))]) \<and>
    ready K t' \<and> worker_cf t' = worker_cf t"
proof -
  obtain t1 a where t1: "tier_dispatch hop (Info i # ms) t = (t1, Some (a, Info i # ms))" "a \<in> dom (the_workers t)"
      "t1 = t\<lparr>the_proxy := the_proxy t1\<rparr>" "proxy_inv (the_proxy t1)"
      "fst ` set (idle_workers (the_proxy t1)) \<subseteq> dom (the_workers t)"
    using dispatch_ready [OF assms(1), of "Info i # ms" hop] by auto
  have same: "proxy_cf t1 = proxy_cf t" "worker_cf t1 = worker_cf t" "the_workers t1 = the_workers t"
    by (metis t1(3) tier.ext_inject tier.surjective tier.update_convs(3))+
  obtain w where "the_workers t1 a = Some w" using t1(2) same by auto
  from work_ready [OF assms(1) same(2,3) this, of i ms r i'] assms(2-4) same(2)
  obtain w' where w': "tier_work a (Info i # ms) t1 = (t1\<lparr>the_workers := (the_workers t1)(a \<mapsto> w')\<rparr>, [Bytes (result_heart_beat r)],
      if intermediate r then Info i' # map Bytes (result_messages r) else [],
      if intermediate r then [] else [Info i', Bytes (hd (result_messages r))])" "K \<inter> interrupts w' = {}"
    by auto
  let ?t2 = "t1\<lparr>the_workers := (the_workers t1)(a \<mapsto> w')\<rparr>"
  obtain p' where p': "tier_report a [Bytes (result_heart_beat r)] ?t2 = ?t2\<lparr>the_proxy := p'\<rparr>" "proxy_inv p'"
      "idle_workers p' = advertise_idle a (result_heart_beat r) (idle_workers (the_proxy t1))"
    using report_ready [of ?t2 a "result_heart_beat r"] assms(1) t1(4) same(1) unfolding ready_def by auto
  have "pass_tier hop (Info i # ms) t = (?t2\<lparr>the_proxy := p'\<rparr>,
      if intermediate r then Info i' # map Bytes (result_messages r) else [],
      if intermediate r then [] else [Info i', Bytes (hd (result_messages r))])"
    using t1(1) w'(1) p'(1) by (simp add: pass_tier_def)
  moreover have "fst ` set (idle_workers p') \<subseteq> insert a (dom (the_workers t))" "idle_workers p' \<noteq> []"
    using t1(5) p'(3) advertise_names [of a "result_heart_beat r" "idle_workers (the_proxy t1)"] by auto
  then have "ready K (?t2\<lparr>the_proxy := p'\<rparr>)"
    using assms(1) p'(2) w'(2) same unfolding ready_def by (auto simp: ran_def split: if_splits)
  ultimately show ?thesis using same(2) by auto
qed

text \<open>The tiers together do what the chain of their work functions says, and are ready again.\<close>

definition keeps_key :: "('i \<Rightarrow> 'k) \<Rightarrow> ('i frame list \<Rightarrow> 'i \<Rightarrow> 'i work) \<Rightarrow> bool" where
  "keeps_key key w \<longleftrightarrow> (\<forall>ms i r i'. work_outcome (w ms i) = Inr (r, i') \<longrightarrow> key i' = key i)"

abbreviation works :: "'i tier list \<Rightarrow> ('i frame list \<Rightarrow> 'i \<Rightarrow> 'i work) list" where
  "works ts \<equiv> map (\<lambda>t. work_function (worker_cf t)) ts"

lemma chain_key: "\<forall>w \<in> set ws. keeps_key key w \<Longrightarrow> chain ws ms i = Some (i', s) \<Longrightarrow> key i' = key i"
proof (induction ws ms i rule: chain.induct)
  case (2 w ws ms i)
  from "2.prems"(2) obtain r j where r: "work_outcome (w ms i) = Inr (r, j)" "result_messages r \<noteq> []"
    by (auto split: sum.splits if_splits)
  then have "key j = key i" using "2.prems"(1) by (auto simp: keeps_key_def)
  then show ?case using "2.IH" [OF r(1) refl r(2)] "2.prems" r by (cases "intermediate r") auto
qed simp

lemma pass_tiers_chain:
  assumes "\<forall>t \<in> set ts. ready K t \<and> info_key (worker_cf t) = key \<and> keeps_key key (work_function (worker_cf t))"
    and "key i \<in> K" and "chain (works ts) ms i = Some (i', s)"
  shows "\<exists>ts'. pass_tiers hop (Info i # ms) ts = (ts', [Info i', Bytes s]) \<and> map worker_cf ts' = map worker_cf ts \<and>
    (\<forall>t \<in> set ts'. ready K t)"
  using assms
proof (induction ts arbitrary: ms i)
  case (Cons t ts)
  from Cons.prems(3) obtain r j where r: "work_outcome (work_function (worker_cf t) ms i) = Inr (r, j)" "result_messages r \<noteq> []"
    by (auto split: sum.splits if_splits)
  have "ready K t" "info_key (worker_cf t) i \<in> K" using Cons.prems(1,2) by simp_all
  from pass_tier_ready [OF this r, of hop]
  obtain t' where t': "pass_tier hop (Info i # ms) t = (t', if intermediate r then Info j # map Bytes (result_messages r) else [],
      if intermediate r then [] else [Info j, Bytes (hd (result_messages r))])" "ready K t'" "worker_cf t' = worker_cf t" by blast
  show ?case
  proof (cases "intermediate r")
    case True
    have "key j = key i" using Cons.prems(1) r(1) by (auto simp: keeps_key_def)
    then have "\<exists>ts'. pass_tiers hop (Info j # map Bytes (result_messages r)) ts = (ts', [Info i', Bytes s]) \<and>
        map worker_cf ts' = map worker_cf ts \<and> (\<forall>t \<in> set ts'. ready K t)"
      using Cons.prems r True by (intro Cons.IH) auto
    then show ?thesis using t' True by auto
  next
    case False
    then show ?thesis using Cons.prems r t' by auto
  qed
qed simp

text \<open>Any number of jobs, one after the other.\<close>

fun pass_all :: "'i frame \<Rightarrow> 'i frame list list \<Rightarrow> 'i tier list \<Rightarrow> 'i tier list \<times> 'i frame list list" where
  "pass_all hop [] ts = (ts, [])"
| "pass_all hop (m # ms) ts =
     (case pass_tiers hop m ts of (ts1, back) \<Rightarrow> (case pass_all hop ms ts1 of (ts2, backs) \<Rightarrow> (ts2, back # backs)))"

lemma works_same: "map worker_cf ts' = map worker_cf ts \<Longrightarrow> works ts' = works ts"
  by (metis (mono_tags, lifting) comp_def map_eq_conv map_map)

lemma tiers_invariant:
  assumes "map worker_cf ts' = map worker_cf ts" "\<forall>t \<in> set ts'. ready K t" "\<forall>t \<in> set ts. P (worker_cf t)"
  shows "\<forall>t \<in> set ts'. ready K t \<and> P (worker_cf t)"
  using assms by (metis (no_types, lifting) imageE imageI list.set_map)

lemma pass_all_chain:
  assumes "\<forall>t \<in> set ts. ready K t \<and> info_key (worker_cf t) = key \<and> keeps_key key (work_function (worker_cf t))"
    and "\<forall>(i, ms) \<in> set js. key i \<in> K" and "map (\<lambda>(i, ms). chain (works ts) ms i) js = map Some rs"
  shows "\<exists>ts'. pass_all hop (map (\<lambda>(i, ms). Info i # ms) js) ts = (ts', map (\<lambda>(i, s). [Info i, Bytes s]) rs) \<and>
    map worker_cf ts' = map worker_cf ts \<and> (\<forall>t \<in> set ts'. ready K t)"
  using assms
proof (induction js arbitrary: ts rs)
  case (Cons j js)
  obtain i ms where j: "j = (i, ms)" by fastforce
  obtain i' s rs' where rs: "rs = (i', s) # rs'" "chain (works ts) ms i = Some (i', s)"
    "map (\<lambda>(i, ms). chain (works ts) ms i) js = map Some rs'" using Cons.prems(3) by (auto simp: j Cons_eq_map_conv)
  obtain ts1 where ts1: "pass_tiers hop (Info i # ms) ts = (ts1, [Info i', Bytes s])" "map worker_cf ts1 = map worker_cf ts"
      "\<forall>t \<in> set ts1. ready K t"
    using pass_tiers_chain [where hop = hop, OF Cons.prems(1) _ rs(2)] Cons.prems(2) by (auto simp: j)
  have "\<forall>t \<in> set ts1. ready K t \<and> info_key (worker_cf t) = key \<and> keeps_key key (work_function (worker_cf t))"
    using tiers_invariant [OF ts1(2,3), where P = "\<lambda>c. info_key c = key \<and> keeps_key key (work_function c)"] Cons.prems(1) by blast
  from Cons.IH [OF this, of rs'] Cons.prems(2) rs(3) works_same [OF ts1(2)]
  obtain ts' where "pass_all hop (map (\<lambda>(i, ms). Info i # ms) js) ts1 = (ts', map (\<lambda>(i, s). [Info i, Bytes s]) rs')"
      "map worker_cf ts' = map worker_cf ts1" "\<forall>t \<in> set ts'. ready K t" by auto
  then show ?case using ts1 by (simp add: j rs(1))
qed simp

section \<open>The whole service\<close>

text \<open>
  A packet that completes a request comes in on connection \<open>c\<close>: the server passes the request on, the tiers work on it, and the
  server takes the result.
\<close>

definition service_turn ::
  "curl \<Rightarrow> (http_request, http_request_info) server_config \<Rightarrow> http_request_info frame \<Rightarrow> string \<Rightarrow> string \<Rightarrow>
   (http_request, http_request_info) server \<times> http_request_info tier list \<Rightarrow>
   (http_request, http_request_info) server \<times> http_request_info tier list" where
  "service_turn cu cf hop c d st =
     (case st of (s, ts) \<Rightarrow>
        let s1 = fst (enqueue (http_protocol cu) cf c d s) in
        case pass_tiers hop (taken PROXY (events s) (events s1)) ts of
          (ts1, [Info i, Bytes response]) \<Rightarrow> (fst (dequeue (http_protocol cu) cf i response s1), ts1)
        | (ts1, _) \<Rightarrow> (s1, ts1))"

text \<open>The programs' work functions change no more of an info than its response code.\<close>

definition code_blind :: "(http_request_info \<Rightarrow> 'k) \<Rightarrow> bool" where
  "code_blind f \<longleftrightarrow> (\<forall>i c. f (i\<lparr>info_response_code := c\<rparr>) = f i)"

lemma code_blind_key [simp]: "code_blind http_key" "code_blind http_keep_alive"
  by (simp_all add: code_blind_def http_key_def http_keep_alive_def)

lemma answer_keeps: "code_blind f \<Longrightarrow> work_outcome (answer c m b hs info) = Inr (r, info') \<Longrightarrow> f info' = f info"
  by (auto simp: answer_def rsp_from_info_def Let_def code_blind_def split: prod.splits)

lemma read_request_cases:
  assumes "work_outcome (read_request cu ms caught f) = Inr (r, i')"
    and "\<And>e. work_outcome (caught e) = Inr (r, i') \<Longrightarrow> P" "\<And>rq. work_outcome (f rq) = Inr (r, i') \<Longrightarrow> P"
  shows P
  using assms by (auto simp: read_request_def split: list.splits frame.splits sum.splits parse_exception.splits)

lemma works_keep:
  assumes "code_blind f"
  shows "keeps_key f echo_work" "keeps_key f (art_work cu what)" "keeps_key f (file_work cu open_file)"
    "keeps_key f (disk_work cu what disk root)" "keeps_key f (parse_work cu what)" "keeps_key f compute_work"
  unfolding keeps_key_def
  by (auto simp: echo_work_def art_work_def file_work_def disk_work_def disk_result_def parse_work_def compute_work_def
      bad_request_def pass_on_def Let_def intro: answer_keeps [OF assms] elim!: read_request_cases
      split: list.splits frame.splits option.splits file_status.splits if_splits sum.splits exn.splits)

text \<open>The two stages of \<open>prime_serverd\<close>.\<close>

lemma prime_chain:
  assumes "curl_inverse cu (target n) t" "ask cu n = Inr s" "2 \<le> n" "n < size_range"
  shows "\<exists>i'. chain [parse_work cu what, compute_work] [Bytes s] i = Some (i', rsp_to_string (prime_response i n))"
proof -
  have "chain [parse_work cu what, compute_work] [Bytes s] i =
      (case answer 200 ''OK'' (to_dec (verdict n)) [] i of Done r i' \<Rightarrow> Some (i', hd (result_messages r)) | _ \<Rightarrow> None)"
    using prime_stages_run [OF assms] by (simp add: pass_on_def answer_def split: prod.split)
  then show ?thesis by (simp add: answer_def prime_response_def split: prod.split)
qed

section \<open>Properties\<close>

text \<open>
  C6. A service of any number of stages answers. If the bytes that come in on a connection complete one request, and
  the work functions of the stages, applied one after another, come to a final answer, then the request passes
  through as many of the stages as it takes, each time through the proxy to an idle worker, the response
  reaches that connection whole and nobody else, and the server has the outstanding requests it had before; the stages are then
  as ready for the next request as they were for this one.
\<close>

theorem service_answers:
  assumes "health_check_matcher cf = None" and "\<And>sk. reliable cf sk"
    and "sessions s c = Some r0" and "req_from_stream cu (max_request_size cf) r0 d = (r1, Inr [rq])"
    and "req_to_string cu rq = Inr str"
    and "i = req_to_info (clock cf (events s)) rq (request_id s)" and "requests s (http_key i) = None"
    and "\<forall>t \<in> set ts. ready K t \<and> info_key (worker_cf t) = http_key \<and> keeps_key http_key (work_function (worker_cf t))"
    and "http_key i \<in> K" and "chain (works ts) [Bytes str] i = Some (i', response)"
  shows "\<exists>s2 ts2. service_turn cu cf hop c d (s, ts) = (s2, ts2) \<and>
    attempts CLIENT (events s2) = attempts CLIENT (events s) @ [(Bytes c, True, Sent), (Bytes response, False, Sent)] @
      (if http_keep_alive i' then [] else [(Bytes c, True, Sent), (Bytes [], False, Sent)]) \<and>
    requests s2 = requests s \<and> map worker_cf ts2 = map worker_cf ts \<and> (\<forall>t \<in> set ts2. ready K t)"
proof -
  obtain s1 where s1: "enqueue (http_protocol cu) cf c d s = (s1, Inr True)" "requests s1 = (requests s)(http_key i \<mapsto> c)"
      "sessions s1 c \<noteq> None" "attempts CLIENT (events s1) = attempts CLIENT (events s)"
      "attempts PROXY (events s1) = attempts PROXY (events s) @ [(Info i, True, Sent), (Bytes str, False, Sent)]"
    using enqueue_one_request [OF assms(1,2-7)] by blast
  have "taken PROXY (events s) (events s1) = [Info i, Bytes str]" by (rule taken_sent) (simp add: s1(5))
  moreover obtain ts2 where ts2: "pass_tiers hop [Info i, Bytes str] ts = (ts2, [Info i', Bytes response])"
      "map worker_cf ts2 = map worker_cf ts" "\<forall>t \<in> set ts2. ready K t"
    using pass_tiers_chain [where hop = hop, OF assms(8-10)] by blast
  moreover have k: "http_key i' = http_key i" using chain_key [OF _ assms(10)] assms(8) by auto
  then obtain s2 where "dequeue (http_protocol cu) cf i' response s1 = (s2, Inr True)"
      "requests s2 = (requests s1)(http_key i' := None)"
      "attempts CLIENT (events s2) = attempts CLIENT (events s1) @ [(Bytes c, True, Sent), (Bytes response, False, Sent)] @
        (if http_keep_alive i' then [] else [(Bytes c, True, Sent), (Bytes [], False, Sent)])"
    using dequeue_reliable [OF assms(2) _ s1(3), of i' cu response] s1(2) by auto
  moreover have "(requests s1)(http_key i' := None) = requests s" using s1(2) k assms(7) by (auto simp: fun_eq_iff)
  ultimately show ?thesis using s1(1,4) by (auto simp: service_turn_def)
qed

text \<open>A tier with one worker that has reported.\<close>

definition plain_tier :: "http_work \<Rightarrow> http_request_info tier" where
  "plain_tier w = \<lparr>proxy_cf = plain_proxy,
     worker_cf = \<lparr>net = (\<lambda>_ _ _ _. Sent), clock = (\<lambda>_. 0), timestamp = (\<lambda>_. []), info_key = http_key,
       work_function = w, cleanup_function = None, inbox = (\<lambda>_. Inr []), shutting = (\<lambda>_. False)\<rparr>,
     the_proxy = report plain_proxy ''w'' [] proxy_new, the_workers = [''w'' \<mapsto> worker_new []]\<rparr>"

lemma plain_tier_ready: "ready UNIV (plain_tier w)"
proof -
  have "proxy_inv (the_proxy (plain_tier w))" "idle_workers (the_proxy (plain_tier w)) = [(''w'', [])]"
    using pool.idle_law [of "plain_proxy :: http_request_info proxy_config" proxy_new "''w''" "[]"]
    by (simp_all add: advertise_idle_def plain_proxy_fair proxy_inv_new plain_tier_def)
  then show ?thesis
    using plain_proxy_fair
    by (simp add: ready_def) (auto simp: plain_tier_def calm_def sane_cleanup_def reliable_def [abs_def] worker_new_def plain_proxy_fair(4))
qed

theorem service_answers_witness:
  "\<exists>s2 ts2 i. service_turn plain_curl plain_config (Bytes ''S'') ''A'' ask_3
       (connected, [plain_tier (parse_work plain_curl (\<lambda>_. [])), plain_tier compute_work]) = (s2, ts2) \<and>
     attempts CLIENT (events s2) = [(Bytes ''A'', True, Sent), (Bytes (rsp_to_string (prime_response i 3)), False, Sent)] \<and>
     requests s2 = Map.empty"
proof -
  let ?cf = "plain_config :: (http_request, http_request_info) server_config"
  let ?rq = "req_received plain_curl (prime_request 3)" and ?ts = "[plain_tier (parse_work plain_curl (\<lambda>_. [])), plain_tier compute_work]"
  let ?i = "req_to_info (clock ?cf (events connected)) ?rq (request_id connected)"
  obtain e where e: "req_from_stream plain_curl (max_request_size ?cf) req_new ask_3 = (e, Inr [?rq])"
    using prime_request_received [OF small_targets(1) small_asks(1)] accepts_unlimited [OF small_accepted(1)] by auto
  have fwd: "req_to_string plain_curl ?rq = Inr ask_3" using received_again [of plain_curl 3] small_asks(1) by simp
  have works: "works ?ts = [parse_work plain_curl (\<lambda>_. []), compute_work]" by (simp add: plain_tier_def)
  obtain i' where i': "chain (works ?ts) [Bytes ask_3] ?i = Some (i', rsp_to_string (prime_response ?i 3))"
    unfolding works using prime_chain [OF small_targets(1) small_asks(1)] by (auto simp: size_range_def)
  have st: "sessions connected ''A'' = Some req_new" "requests connected (http_key ?i) = None" "requests connected = Map.empty"
      "events connected = []" by (simp_all add: connected_state)
  have ts: "\<forall>t \<in> set ?ts. ready UNIV t \<and> info_key (worker_cf t) = http_key \<and> keeps_key http_key (work_function (worker_cf t))"
    using plain_tier_ready works_keep [OF code_blind_key(1)] by (simp add: plain_tier_def)
  have "http_keep_alive i' = http_keep_alive ?i" using chain_key [where key = http_keep_alive, OF _ i'] unfolding works by (simp add: works_keep)
  then have alive: "http_keep_alive i'" by (simp add: req_to_info_def http_keep_alive_def req_received_def sent_headers_def req_state_defs)
  have rel: "reliable ?cf sk" for sk by (simp add: reliable_def)
  from service_answers [OF _ rel st(1) e fwd refl st(2) ts UNIV_I i', of "Bytes ''S''"] alive st(3,4)
  show ?thesis by auto
qed

end
