(* ===== verification/System.thy ===== *)
theory System
  imports Stages "HOL-Library.Multiset"
begin

text \<open>
  A whole service with its parts running at the same time: the server, the proxies of the stages and any number of
  workers take turns in any order, and what they send each other is in the mail until it is taken. Workers may come at
  any time, and end. Clients may send anything.
\<close>

section \<open>Mail\<close>

text \<open>
  The frames sent on a socket, put together to messages: a frame without \<open>ZMQ_SNDMORE\<close> completes one. What has been completed
  between two moments may have been begun before the first.
\<close>

fun parcels :: "'i frame list \<Rightarrow> ('i frame \<times> bool \<times> send_result) list \<Rightarrow> 'i frame list list" where
  "parcels acc [] = []"
| "parcels acc ((f, sndmore, r) # xs) =
     (if r \<noteq> Sent then parcels acc xs else if sndmore then parcels (acc @ [f]) xs else (acc @ [f]) # parcels [] xs)"

fun left_open :: "'i frame list \<Rightarrow> ('i frame \<times> bool \<times> send_result) list \<Rightarrow> 'i frame list" where
  "left_open acc [] = acc"
| "left_open acc ((f, sndmore, r) # xs) =
     (if r \<noteq> Sent then left_open acc xs else if sndmore then left_open (acc @ [f]) xs else left_open [] xs)"

definition mailed :: "sock \<Rightarrow> 'i event list \<Rightarrow> 'i event list \<Rightarrow> 'i frame list list" where
  "mailed sk before after = drop (length (parcels [] (attempts sk before))) (parcels [] (attempts sk after))"

definition closed :: "sock \<Rightarrow> 'i event list \<Rightarrow> bool" where
  "closed sk vs \<longleftrightarrow> left_open [] (attempts sk vs) = []"

lemma parcels_append: "parcels acc (xs @ ys) = parcels acc xs @ parcels (left_open acc xs) ys"
  by (induction acc xs rule: parcels.induct) auto

lemma left_open_append: "left_open acc (xs @ ys) = left_open (left_open acc xs) ys"
  by (induction acc xs rule: left_open.induct) auto

lemma parcels_one: "fs \<noteq> [] \<Longrightarrow> parcels acc (attempts sk (sent_frames sk fs)) = [acc @ fs] \<and> left_open acc (attempts sk (sent_frames sk fs)) = []"
  by (induction fs arbitrary: acc) (auto simp del: attempts_sent)

lemma mailed_more:
  assumes "attempts sk vs' = attempts sk vs @ xs" "closed sk vs"
  shows "mailed sk vs vs' = parcels [] xs" "closed sk vs' \<longleftrightarrow> left_open [] xs = []"
  using assms by (simp_all add: mailed_def closed_def parcels_append left_open_append)

lemma mailed_sent:
  assumes "attempts sk vs' = attempts sk vs @ attempts sk (sent_frames sk fs)" "fs \<noteq> []" "closed sk vs"
  shows "mailed sk vs vs' = [fs]" "closed sk vs'"
  using mailed_more [OF assms(1,3)] parcels_one [OF assms(2), of "[]" sk] by (simp_all del: attempts_sent)

lemma mailed_same:
  assumes "attempts sk vs' = attempts sk vs"
  shows "mailed sk vs vs' = []" "closed sk vs' = closed sk vs"
  using assms by (simp_all add: mailed_def closed_def)

lemma mailed_open: "attempts sk vs' = attempts sk vs @ [(f, True, q)] \<Longrightarrow> closed sk vs \<Longrightarrow> mailed sk vs vs' = []"
  using mailed_more(1) [of sk vs' vs "[(f, True, q)]"] by simp

lemma closed_new [simp]: "closed sk []"
  by (simp add: closed_def)

section \<open>What the server sends on\<close>

text \<open>
  Since \<open>s0\<close> the proxy socket has been sent some requests, each as its info and its bytes, and who is waiting was waiting
  then, or is \<open>c\<close> and waits for one of those.
\<close>

definition pair :: "'i \<times> string \<Rightarrow> ('i frame \<times> bool \<times> send_result) list" where
  "pair = (\<lambda>(i, str). [(Info i, True, Sent), (Bytes str, False, Sent)])"

definition adds :: "string \<Rightarrow> (http_request, http_request_info) server \<Rightarrow> (http_request, http_request_info) server \<Rightarrow> bool" where
  "adds c s0 s \<longleftrightarrow> (\<exists>ns. attempts PROXY (events s) = attempts PROXY (events s0) @ concat (map pair ns) \<and>
     (\<forall>k c'. requests s k = Some c' \<longrightarrow> requests s0 k = Some c' \<or> c' = c \<and> k \<in> (\<lambda>n. http_key (fst n)) ` set ns))"

lemma parcels_pairs:
  "parcels [] (concat (map pair ns)) = map (\<lambda>(i, str). [Info i, Bytes str]) ns" "left_open [] (concat (map pair ns)) = []"
  by (induction ns) (auto simp: pair_def)

lemma adds_refl [simp]: "adds c s s"
  unfolding adds_def by (rule exI [of _ "[]"]) simp

lemma adds_mono:
  "adds c s0 s \<Longrightarrow> attempts PROXY (events s') = attempts PROXY (events s) \<Longrightarrow> requests s' \<subseteq>\<^sub>m requests s \<Longrightarrow> adds c s0 s'"
  unfolding adds_def map_le_def by (metis domI)

lemma adds_mail:
  assumes "adds c s0 s" "closed PROXY (events s0)"
  obtains ns where "mailed PROXY (events s0) (events s) = map (\<lambda>(i, str). [Info i, Bytes str]) ns" "closed PROXY (events s)"
    "\<And>k c'. requests s k = Some c' \<Longrightarrow> requests s0 k = Some c' \<or> c' = c \<and> k \<in> (\<lambda>n. http_key (fst n)) ` set ns"
proof -
  obtain ns where ns: "attempts PROXY (events s) = attempts PROXY (events s0) @ concat (map pair ns)"
      "\<forall>k c'. requests s k = Some c' \<longrightarrow> requests s0 k = Some c' \<or> c' = c \<and> k \<in> (\<lambda>n. http_key (fst n)) ` set ns"
    using assms(1) unfolding adds_def by blast
  show thesis using that mailed_more [OF ns(1) assms(2)] ns(2) by (auto simp: parcels_pairs)
qed

lemma attempts_other: "\<not> is_attempt v \<Longrightarrow> attempts sk [v] = []"
  by (cases v) simp_all

lemma adds_hushed: "hushed (adds c s0)"
  by (auto simp: hushed_def note_event_def attempts_other intro: adds_mono)

lemma adds_tolerates: "sk \<noteq> PROXY \<Longrightarrow> tolerates sk (adds c s0)"
  by (auto simp: tolerates_def note_event_def intro: adds_mono)

lemmas adds_io = adds_hushed adds_tolerates keeps_send keeps_send_two keeps_complain

lemma adds_polled: "keeps (adds c s0) (modify (note_event Polled))"
  using adds_hushed by (auto simp: keeps_def modify_def hushed_def)

lemma adds_log_line: "keeps (adds c s0) (log_line_if cf line)"
  using adds_hushed by (auto simp: keeps_def log_line_if_def hushed_def)

lemma adds_modify:
  "(\<And>s. events (f s) = events s \<and> requests (f s) \<subseteq>\<^sub>m requests s) \<Longrightarrow> keeps (adds c s0) (modify f)"
  by (rule keeps_modify, erule adds_mono) auto

lemma adds_interrupt_all: "keeps (adds c s0) (interrupt_all cf ks)"
  by (induction ks) (auto intro!: keeps_bnd adds_io)

lemma adds_abandon_all: "keeps (adds c s0) (abandon_all cf ks)"
  by (induction ks) (auto intro!: keeps_bnd adds_io adds_modify)

text \<open>A choice that depends on the state.\<close>

lemma keeps_option: "(\<And>x. keeps I (g x)) \<Longrightarrow> keeps I (\<lambda>s. case f s of None \<Rightarrow> (s, r) | Some x \<Rightarrow> g x s)"
  by (simp add: keeps_def split: option.split)

lemma adds_close_session: "keeps (adds c s0) (close_session pr cf c')"
  unfolding close_session_def [abs_def] by (intro keeps_option keeps_bnd adds_interrupt_all adds_modify) simp

lemma adds_dequeue: "keeps (adds c s0) (dequeue pr cf i response)"
  unfolding dequeue_def [abs_def]
  by (intro keeps_option keeps_bnd adds_modify) (auto intro!: adds_io adds_log_line adds_close_session)

lemma adds_timeouts_loop: "keeps (adds c s0) (timeouts_loop pr cf d hs)"
  by (induction hs) (auto intro!: keeps_bnd adds_io adds_modify adds_dequeue)

lemma adds_handle_timeouts: "keeps (adds c s0) (handle_timeouts pr cf)"
  unfolding keeps_def handle_timeouts_def using keepsD [OF adds_timeouts_loop] by blast

lemma adds_open_or_close: "keeps (adds c s0) (open_or_close pr cf c')"
proof -
  have "keeps (adds c s0) (bnd (abandon_all cf ks) (\<lambda>_. modify (\<lambda>s. s\<lparr>sessions := (sessions s)(c' := None)\<rparr>)))" for ks
    by (intro keeps_bnd adds_abandon_all adds_modify) simp
  moreover have "adds c s0 (s\<lparr>sessions := x\<rparr>)" if "adds c s0 s" for s x using that by (auto intro: adds_mono)
  ultimately show ?thesis by (simp add: keeps_def open_or_close_def split: option.split)
qed

lemma adds_disconnect: "keeps (adds c s0) (disconnect pr cf c')"
proof -
  have "keeps (adds c s0) (bnd (send_two cf CLIENT (Bytes c') (Bytes [])) (\<lambda>sent. if sent then close_session pr cf c'
      else complain ''Server failed to disconnect client after rejecting request''))"
    by (intro keeps_bnd) (auto intro!: adds_io adds_close_session)
  then show ?thesis by (simp add: keeps_def disconnect_def)
qed

lemma adds_reject: "keeps (adds c s0) (reject pr cf c' r x)"
proof -
  have "keeps (adds c s0) (bnd (log_line_if cf l1) (\<lambda>_. log_line_if cf l2))" for l1 l2
    by (intro keeps_bnd adds_log_line)
  then have "keeps (adds c s0) (log_rejection pr cf r x)" by (simp add: keeps_def log_rejection_def)
  then show ?thesis unfolding reject_def by (intro keeps_bnd adds_modify) (auto intro!: adds_io)
qed

text \<open>
  With a proxy socket that takes every frame and a request that can be written, \<open>enqueue\<close> sends it on whole. Health checks are not
  sent on.
\<close>

definition writable :: "curl \<Rightarrow> bool" where
  "writable cu \<longleftrightarrow> (\<forall>s n. curl_escape cu s n \<noteq> None)"

lemma writable_string: "writable cu \<Longrightarrow> \<exists>str. req_to_string cu r = Inr str"
proof -
  assume "writable cu"
  then obtain t where "curl_escape cu (path_query (path r) (query r)) (int_size (path_query (path r) (query r))) = Some t"
    unfolding writable_def by blast
  then show ?thesis
    using method_table [of "req_method r"] by (auto simp: req_to_string_def req_string_def url_encode_def)
qed

lemma adds_request:
  assumes "adds c s0 s" "attempts PROXY (events s') = attempts PROXY (events s) @ pair (i, str)"
    and "\<And>k c'. requests s' k = Some c' \<Longrightarrow> requests s k = Some c' \<or> c' = c \<and> k = http_key i"
  shows "adds c s0 s'"
proof -
  obtain ns where ns: "attempts PROXY (events s) = attempts PROXY (events s0) @ concat (map pair ns)"
      "\<And>k c'. requests s k = Some c' \<Longrightarrow> requests s0 k = Some c' \<or> c' = c \<and> k \<in> (\<lambda>n. http_key (fst n)) ` set ns"
    using assms(1) unfolding adds_def by blast
  then have "attempts PROXY (events s') = attempts PROXY (events s0) @ concat (map pair (ns @ [(i, str)]))" using assms(2) by simp
  then show ?thesis unfolding adds_def using ns(2) assms(3) by (intro exI [of _ "ns @ [(i, str)]"]) fastforce
qed

lemma adds_enqueue_one:
  assumes "writable cu" "reliable cf PROXY" "health_check_matcher cf = None"
  shows "keeps (adds c s0) (enqueue_one (http_protocol cu) cf c r)"
  unfolding keeps_def
proof (intro allI impI)
  fix s
  assume s: "adds c s0 s"
  obtain str where str: "req_to_string cu r = Inr str" using writable_string [OF assms(1)] by blast
  let ?i = "req_to_info (clock cf (events s)) r (request_id s)"
  let ?s' = "fst (enqueue_one (http_protocol cu) cf c r s)"
  have "attempts PROXY (events ?s') = attempts PROXY (events s) @ pair (?i, str)"
    "\<And>k c'. requests ?s' k = Some c' \<Longrightarrow> requests s k = Some c' \<or> c' = c \<and> k = http_key ?i"
    using assms(2,3) str
    by (auto simp: enqueue_one_def enqueue_with_def forward_request_def remember_def log_line_if_def send_reliable bnd_def
        ret_def modify_def note_event_def Let_def pair_def split: option.splits if_splits)
  then show "adds c s0 ?s'" by (rule adds_request [OF s])
qed

lemma adds_enqueue:
  assumes "writable cu" "reliable cf PROXY" "health_check_matcher cf = None"
  shows "keeps (adds c s0) (enqueue (http_protocol cu) cf c d)"
proof -
  have all: "keeps (adds c s0) (enqueue_all (http_protocol cu) cf c rs)" for rs
    by (induction rs) (auto intro!: keeps_bnd adds_enqueue_one [OF assms])
  have "adds c s0 (s\<lparr>sessions := x\<rparr>)" if "adds c s0 s" for s x using that by (auto intro: adds_mono)
  then show ?thesis
    unfolding keeps_def enqueue_def
    by (auto simp: Let_def intro!: keepsD [OF all] keepsD [OF adds_reject] split: option.split prod.split sum.split)
qed

text \<open>A whole turn: whatever comes from \<open>c\<close>, what is sent on is requests of \<open>c\<close>.\<close>

lemma adds_serve_turn:
  assumes "writable cu" "reliable cf PROXY" "health_check_matcher cf = None"
    and "\<And>m ms. request_in p = Some (m # ms) \<Longrightarrow> m = c"
  shows "adds c s (fst (serve_turn (http_protocol cu) cf p s))"
proof -
  have data: "keeps (adds c s) (request_data (http_protocol cu) cf c d)" for d
  proof -
    have "keeps (adds c s) (bnd (enqueue (http_protocol cu) cf c d) (\<lambda>ok. if ok then ret () else disconnect (http_protocol cu) cf c))"
      by (intro keeps_bnd adds_enqueue [OF assms(1-3)]) (auto intro: adds_disconnect)
    then show ?thesis using keepsD [OF keeps_complain [OF adds_hushed]] by (auto simp: keeps_def request_data_def)
  qed
  have "keeps (adds c s) (handle_request (http_protocol cu) cf (m # ms))" if "m = c" for m ms
    using that data by (auto simp: handle_request_def intro!: adds_io adds_open_or_close split: list.split)
  moreover have "keeps (adds c s) (handle_request (http_protocol cu) cf [])"
    by (auto simp: handle_request_def intro!: adds_io)
  ultimately have "keeps (adds c s) (take_request (http_protocol cu) cf p)"
    unfolding take_request_def using assms(4)
    by (cases "request_in p"; cases "the (request_in p)") (auto intro!: keeps_catch_std adds_hushed)
  moreover have "keeps (adds c s) (take_result (http_protocol cu) cf p)"
    unfolding take_result_def
    by (intro keeps_bnd adds_polled) (auto intro!: keeps_catch_std adds_hushed adds_dequeue split: option.split)
  ultimately have "keeps (adds c s) (serve_turn (http_protocol cu) cf p)"
    unfolding serve_turn_def by (intro keeps_bnd adds_handle_timeouts)
  then show ?thesis by (rule keepsD) (rule adds_refl)
qed

section \<open>What a worker sends\<close>

text \<open>The frames that have been sent on to the next stage and back to the server.\<close>

definition sent_so_far :: "(sock \<Rightarrow> ('i frame \<times> bool \<times> send_result) list) \<Rightarrow> 'i worker \<Rightarrow> bool" where
  "sent_so_far A s \<longleftrightarrow> (\<forall>sk \<in> {DOWNSTREAM, LOOPBACK}. attempts sk (events s) = A sk)"

lemma sent_hushed: "hushed (sent_so_far A)"
  by (auto simp: hushed_def sent_so_far_def attempts_other)

lemma sent_delivers: "delivers cf (sent_so_far A)"
  by (auto simp: delivers_def sent_hushed) (simp add: sent_so_far_def fold_insert_interrupt)

lemma sent_tail: "keeps (sent_so_far A) (turn_tail cf t)"
proof (rule keeps_turn_tail [OF sent_delivers])
  show "tolerates UPSTREAM (sent_so_far A)" by (simp add: tolerates_def sent_so_far_def)
  show "keeps (sent_so_far A) (cull cf)" by (auto simp: cull_def sent_so_far_def Let_def intro!: keeps_modify split: prod.split)
qed

lemma run_work_outcome: "run_work cf w s = (s', Inr x) \<Longrightarrow> work_outcome w = Inr x"
  by (induction w arbitrary: s) (auto simp: ret_def raise_def bnd_def split: prod.splits sum.splits)

text \<open>
  What a job adds to that: nothing, or the result of the work function; or the beginning of a message whose end is not there, but then
  the worker does not go on.
\<close>

definition job_sends :: "'i work \<Rightarrow> (sock \<Rightarrow> ('i frame \<times> bool \<times> send_result) list) \<Rightarrow> bool" where
  "job_sends w X \<longleftrightarrow> X LOOPBACK = [] \<and> X DOWNSTREAM = [] \<or>
     (\<exists>r i. work_outcome w = Inr (r, i) \<and> result_messages r \<noteq> [] \<and>
        (\<forall>sk. X sk = attempts sk (if intermediate r then sent_frames DOWNSTREAM (Info i # map Bytes (result_messages r))
                               else sent_frames LOOPBACK [Info i, Bytes (hd (result_messages r))])))"

definition half_sent :: "(sock \<Rightarrow> ('i frame \<times> bool \<times> send_result) list) \<Rightarrow> bool" where
  "half_sent X \<longleftrightarrow> X LOOPBACK = [] \<and> (\<exists>i. X DOWNSTREAM = [(Info i, True, Sent)])"

text \<open>How a run that had sent \<open>A\<close> ends when it is about a job \<open>w\<close>.\<close>

definition job_ends :: "(sock \<Rightarrow> ('i frame \<times> bool \<times> send_result) list) \<Rightarrow> 'i work \<Rightarrow> 'i worker \<times> (exn + 'a) \<Rightarrow> bool" where
  "job_ends A w q \<longleftrightarrow>
     (\<exists>X. sent_so_far (\<lambda>sk. A sk @ X sk) (fst q) \<and> (job_sends w X \<or> half_sent X \<and> snd q = Inl Undefined))"

lemma job_ends_none: "sent_so_far A (fst q) \<Longrightarrow> job_ends A w q"
  unfolding job_ends_def by (rule exI [of _ "\<lambda>_. []"]) (simp add: job_sends_def)

lemma job_ends_step:
  assumes "job_ends A w q" "\<And>A. sent_so_far A (fst q) \<Longrightarrow> sent_so_far A (fst q')" "snd q = Inl Undefined \<Longrightarrow> snd q' = Inl Undefined"
  shows "job_ends A w q'"
  using assms unfolding job_ends_def by blast

lemma send_result_sends:
  assumes "reliable cf LOOPBACK" "reliable cf DOWNSTREAM" "work_outcome w = Inr (r, i)" "sent_so_far A s"
  shows "job_ends A w ((if intermediate r then send_intermediate cf i (result_messages r) else send_final cf i (result_messages r)) s)"
proof (cases "result_messages r = []")
  case True
  show ?thesis
  proof (cases "intermediate r")
    case True
    then show ?thesis
      using assms \<open>result_messages r = []\<close> unfolding job_ends_def
      by (intro exI [of _ "(\<lambda>_. [])(DOWNSTREAM := [(Info i, True, Sent)])"])
        (simp add: half_sent_def sent_so_far_def send_intermediate_def send_headed_def send_all_def send_reliable bnd_def raise_def)
  next
    case False
    then show ?thesis using assms True by (intro job_ends_none) (simp add: sent_so_far_def send_final_def complain_def modify_def)
  qed
next
  case False
  from send_result_reliable [OF assms(1,2) False, of i s] obtain s' where s':
      "(if intermediate r then send_intermediate cf i (result_messages r) else send_final cf i (result_messages r)) s = (s', Inr ())"
      "\<And>sk. attempts sk (events s') = attempts sk (events s) @
        attempts sk (if intermediate r then sent_frames DOWNSTREAM (Info i # map Bytes (result_messages r))
                     else sent_frames LOOPBACK [Info i, Bytes (hd (result_messages r))])"
    by blast
  show ?thesis
    unfolding job_ends_def
    by (rule exI [of _ "\<lambda>sk. attempts sk (if intermediate r then sent_frames DOWNSTREAM (Info i # map Bytes (result_messages r))
          else sent_frames LOOPBACK [Info i, Bytes (hd (result_messages r))])"], intro conjI)
      (use assms(3,4) False s' in \<open>auto simp: job_sends_def sent_so_far_def simp del: attempts_sent sent_frames.simps\<close>)
qed

lemma do_job_sends:
  assumes "reliable cf LOOPBACK" "reliable cf DOWNSTREAM" "sent_so_far A s"
  shows "job_ends A (work_function cf ms i) (do_job cf (Info i # ms) s)"
proof -
  have s0: "sent_so_far A (s\<lparr>job := info_key cf i\<rparr>)" using assms(3) by (simp add: sent_so_far_def)
  obtain s1 q1 where h: "handle_interrupt cf True (s\<lparr>job := info_key cf i\<rparr>) = (s1, q1)" by fastforce
  then have s1: "sent_so_far A s1" using keepsD [OF keeps_handle_interrupt [OF sent_delivers] s0, of cf True] by simp
  obtain s2 q2 where w: "run_work cf (work_function cf ms i) s1 = (s2, q2)" by fastforce
  then have s2: "sent_so_far A s2" using keepsD [OF keeps_run_work [OF sent_delivers] s1, of cf] by (metis fst_conv)
  show ?thesis
  proof (cases q1)
    case (Inl x)
    then show ?thesis using h s1 by (intro job_ends_none) (simp add: do_job_def bnd_def modify_def)
  next
    case ok: (Inr u)
    show ?thesis
    proof (cases q2)
      case (Inl x)
      then show ?thesis using h w ok s2 by (intro job_ends_none) (simp add: do_job_def bnd_def modify_def)
    next
      case (Inr ri)
      obtain r i' where ri: "ri = (r, i')" by fastforce
      have "sent_so_far A (s2\<lparr>heart_beat := result_heart_beat r\<rparr>)" using s2 by (simp add: sent_so_far_def)
      from send_result_sends [OF assms(1,2) _ this] show ?thesis
        using h w ok Inr ri run_work_outcome [of cf _ s1 s2] by (simp add: do_job_def bnd_def modify_def)
    qed
  qed
qed

text \<open>A turn with a job, and one without.\<close>

lemma job_ends_bnd:
  assumes "job_ends A w (m s)" "\<And>A x. keeps (sent_so_far A) (f x)"
  shows "job_ends A w (bnd m f s)"
  using assms(1) by (rule job_ends_step) (auto simp: bnd_def intro: keepsD [OF assms(2)] split: prod.splits sum.splits)

lemma work_turn_sends:
  assumes "reliable cf LOOPBACK" "reliable cf DOWNSTREAM" "sent_so_far A s" "work_in t = Some (Info i # ms)"
  shows "job_ends A (work_function cf ms i) (work_turn cf t s)"
proof -
  have "sent_so_far A (note_event Polled s)" using assms(3) by (simp add: sent_so_far_def)
  from do_job_sends [OF assms(1,2) this, of ms i]
  have "job_ends A (work_function cf ms i) (catch_std who (catch_interrupt (do_job cf (Info i # ms))) (note_event Polled s))" for who
    by (rule job_ends_step)
      (auto simp: catch_std_def catch_interrupt_def sent_so_far_def split: prod.split sum.split exn.split)
  then have "job_ends A (work_function cf ms i) (take_job cf (Info i # ms) (note_event Polled s))"
    unfolding take_job_def
    by (rule job_ends_bnd) (intro keeps_bnd keeps_clean_up sent_hushed keeps_modify; simp add: sent_so_far_def)
  then show ?thesis unfolding work_turn_job(1) [OF assms(4)] by (rule job_ends_bnd) (rule sent_tail)
qed

lemma work_turn_idle:
  assumes "sent_so_far A s" "work_in t = None"
  shows "sent_so_far A (fst (work_turn cf t s))"
proof -
  have "sent_so_far A (note_event Polled s)" using assms(1) by (simp add: sent_so_far_def)
  then show ?thesis unfolding work_turn_job(2) [OF assms(2)] by (rule keepsD [OF sent_tail])
qed

text \<open>The same as messages.\<close>

definition all_closed :: "'i worker \<Rightarrow> bool" where
  "all_closed w \<longleftrightarrow> closed DOWNSTREAM (events w) \<and> closed LOOPBACK (events w)"

lemma worker_turn_mail:
  assumes "reliable cf LOOPBACK" "reliable cf DOWNSTREAM" "all_closed w"
    and "work_turn cf \<lparr>work_in = Some (Info i # ms), interrupt_in = b\<rparr> w = (w', res)"
  shows "(all_closed w' \<or> res = Inl Undefined) \<and>
    (mailed DOWNSTREAM (events w) (events w') = [] \<and> mailed LOOPBACK (events w) (events w') = [] \<or>
     (\<exists>r i'. work_outcome (work_function cf ms i) = Inr (r, i') \<and> result_messages r \<noteq> [] \<and>
        mailed DOWNSTREAM (events w) (events w') = (if intermediate r then [Info i' # map Bytes (result_messages r)] else []) \<and>
        mailed LOOPBACK (events w) (events w') = (if intermediate r then [] else [[Info i', Bytes (hd (result_messages r))]])))"
proof -
  have "sent_so_far (\<lambda>sk. attempts sk (events w)) w" by (simp add: sent_so_far_def)
  from work_turn_sends [OF assms(1,2) this, of "\<lparr>work_in = Some (Info i # ms), interrupt_in = b\<rparr>" i ms] assms(4)
  obtain X where X: "job_sends (work_function cf ms i) X \<or> half_sent X \<and> res = Inl Undefined"
      "attempts DOWNSTREAM (events w') = attempts DOWNSTREAM (events w) @ X DOWNSTREAM"
      "attempts LOOPBACK (events w') = attempts LOOPBACK (events w) @ X LOOPBACK"
    by (auto simp: sent_so_far_def job_ends_def)
  from X(1) consider (none) "X LOOPBACK = []" "X DOWNSTREAM = []" | (half) "half_sent X" "res = Inl Undefined"
    | (result) r i' where "work_outcome (work_function cf ms i) = Inr (r, i')" "result_messages r \<noteq> []"
      "\<And>sk. X sk = attempts sk (if intermediate r then sent_frames DOWNSTREAM (Info i' # map Bytes (result_messages r))
         else sent_frames LOOPBACK [Info i', Bytes (hd (result_messages r))])"
    unfolding job_sends_def by blast
  then show ?thesis
  proof cases
    case none
    then have "attempts DOWNSTREAM (events w') = attempts DOWNSTREAM (events w)" "attempts LOOPBACK (events w') = attempts LOOPBACK (events w)"
      using X(2,3) by simp_all
    from mailed_same [OF this(1)] mailed_same [OF this(2)] show ?thesis using assms(3) by (simp add: all_closed_def)
  next
    case half
    then obtain j where "attempts DOWNSTREAM (events w') = attempts DOWNSTREAM (events w) @ [(Info j, True, Sent)]"
        "attempts LOOPBACK (events w') = attempts LOOPBACK (events w)"
      using X(2,3) by (auto simp: half_sent_def)
    from mailed_open [OF this(1)] mailed_same(1) [OF this(2)] assms(3)
    have "mailed DOWNSTREAM (events w) (events w') = []" "mailed LOOPBACK (events w) (events w') = []" by (simp_all add: all_closed_def)
    then show ?thesis using half(2) by blast
  next
    case result
    have open_w: "closed DOWNSTREAM (events w)" "closed LOOPBACK (events w)" using assms(3) by (simp_all add: all_closed_def)
    have "all_closed w' \<and>
        mailed DOWNSTREAM (events w) (events w') = (if intermediate r then [Info i' # map Bytes (result_messages r)] else []) \<and>
        mailed LOOPBACK (events w) (events w') = (if intermediate r then [] else [[Info i', Bytes (hd (result_messages r))]])"
    proof (cases "intermediate r")
      case True
      then have "attempts DOWNSTREAM (events w') = attempts DOWNSTREAM (events w) @
          attempts DOWNSTREAM (sent_frames DOWNSTREAM (Info i' # map Bytes (result_messages r)))"
          "attempts LOOPBACK (events w') = attempts LOOPBACK (events w)"
        using X(2,3) result(3) by (simp_all del: sent_frames.simps)
      from mailed_sent [OF this(1) _ open_w(1)] mailed_same [OF this(2)] show ?thesis using open_w True by (simp add: all_closed_def)
    next
      case False
      then have "attempts LOOPBACK (events w') = attempts LOOPBACK (events w) @
          attempts LOOPBACK (sent_frames LOOPBACK [Info i', Bytes (hd (result_messages r))])"
          "attempts DOWNSTREAM (events w') = attempts DOWNSTREAM (events w)"
        using X(2,3) result(3) by (simp_all del: sent_frames.simps)
      from mailed_sent [OF this(1) _ open_w(2)] mailed_same [OF this(2)] show ?thesis using open_w False by (simp add: all_closed_def)
    qed
    then show ?thesis using result(1,2) by blast
  qed
qed

lemma worker_idle_mail:
  assumes "work_turn cf \<lparr>work_in = None, interrupt_in = b\<rparr> w = (w', res)"
  shows "mailed DOWNSTREAM (events w) (events w') = []" "mailed LOOPBACK (events w) (events w') = []" "all_closed w' = all_closed w"
proof -
  have "sent_so_far (\<lambda>sk. attempts sk (events w)) w" by (simp add: sent_so_far_def)
  from work_turn_idle [OF this, of "\<lparr>work_in = None, interrupt_in = b\<rparr>" cf] assms
  have "attempts DOWNSTREAM (events w') = attempts DOWNSTREAM (events w)" "attempts LOOPBACK (events w') = attempts LOOPBACK (events w)"
    by (simp_all add: sent_so_far_def)
  from mailed_same [OF this(1)] mailed_same [OF this(2)]
  show "mailed DOWNSTREAM (events w) (events w') = []" "mailed LOOPBACK (events w) (events w') = []" "all_closed w' = all_closed w"
    by (simp_all add: all_closed_def)
qed

section \<open>What a proxy sends\<close>

definition polled_proxy :: "(string \<times> string) option \<Rightarrow> ('i frame \<times> 'i frame list) option \<Rightarrow> 'i forwarded" where
  "polled_proxy idle task = \<lparr>idle_in = map_option (\<lambda>(a, h). [a, h]) idle, job_in = map_option (\<lambda>(hop, m). hop # m) task\<rparr>"

definition polite :: "('i, 'z) proxy_config_scheme \<Rightarrow> bool" where
  "polite cf \<longleftrightarrow> sound_proxy cf \<and> reliable cf DOWNSTREAM \<and> (\<forall>g q ms x. choose_function cf = Some g \<longrightarrow> g q ms \<noteq> Inl x)"

lemma proxy_turn_mail:
  assumes "polite cf" "proxy_inv p" "closed DOWNSTREAM (events p)" "\<And>hop m. task = Some (hop, m) \<Longrightarrow> m \<noteq> [] \<and> expire p = 2"
    and "p' = fst (forward_turn cf (polled_proxy idle task) p)"
  shows "proxy_inv p' \<and> closed DOWNSTREAM (events p') \<and> (\<exists>a. mailed DOWNSTREAM (events p) (events p') = (case task of None \<Rightarrow> [] | Some (hop, m) \<Rightarrow> [Bytes a # m]))"
proof -
  let ?f = "polled_proxy idle task"
  have c: "sound_proxy cf" "reliable cf DOWNSTREAM" "\<And>g q ms x. choose_function cf = Some g \<Longrightarrow> g q ms \<noteq> Inl x"
    using assms(1) unfolding polite_def by auto
  have st: "sound_turn ?f" using assms(4) by (fastforce simp: sound_turn_def polled_proxy_def neq_Nil_conv split: option.split)
  have run: "proxy_inv p' \<and> (idle_workers p = [] \<or> task = None \<longrightarrow> events p' = events p @ [Polled]) \<and>
      (idle_workers p \<noteq> [] \<and> task \<noteq> None \<longrightarrow>
        (\<exists>a. events p' = events p @ Polled # sent_frames DOWNSTREAM (Bytes a # tl (the (job_in ?f)))))"
    by (rule exE [OF forward_turn_spec [OF assms(2) c(1) st c(2)]], erule c(3))
      (auto simp: assms(5) polled_proxy_def split: if_splits)
  show ?thesis
  proof (cases task)
    case None
    then have "attempts DOWNSTREAM (events p') = attempts DOWNSTREAM (events p)" using run by simp
    from mailed_same [OF this] show ?thesis using run None assms(3) by simp
  next
    case (Some j)
    obtain hop m where j: "j = (hop, m)" by fastforce
    have "idle_workers p \<noteq> []" using assms(4) Some j by (auto simp: expire_def fifo_idle split: if_splits)
    then obtain a where "events p' = events p @ Polled # sent_frames DOWNSTREAM (Bytes a # m)"
      using run Some j by (auto simp: polled_proxy_def)
    then have "attempts DOWNSTREAM (events p') = attempts DOWNSTREAM (events p) @ attempts DOWNSTREAM (sent_frames DOWNSTREAM (Bytes a # m))"
      by (simp del: attempts_sent sent_frames.simps)
    from mailed_sent [OF this _ assms(3)] show ?thesis using run Some j by auto
  qed
qed

section \<open>What the server tells its clients\<close>

text \<open>Frames for \<open>c\<close>: its identity, and then the response or the empty frame that ends the connection.\<close>

definition frames_for :: "string \<Rightarrow> string \<Rightarrow> ('i frame \<times> bool \<times> send_result) set" where
  "frames_for c response = {(f, sndmore, r). if sndmore then f = Bytes c else f \<in> {Bytes response, Bytes []}}"

definition told_since :: "('i frame \<times> bool \<times> send_result) list \<Rightarrow> string \<Rightarrow> string \<Rightarrow> ('i, 'z) io_scheme \<Rightarrow> bool" where
  "told_since A c response s \<longleftrightarrow> (\<exists>new. attempts CLIENT (events s) = A @ new \<and> set new \<subseteq> frames_for c response)"

lemma told_since_hushed: "hushed (told_since A c response)"
  by (auto simp: hushed_def told_since_def note_event_def attempts_other)

lemma told_since_more: "told_since A c response s \<Longrightarrow> (f, m, r) \<in> frames_for c response \<Longrightarrow>
    told_since A c response (note_event (Attempt CLIENT f m r) s)"
  unfolding told_since_def by (elim exE) (rule_tac x = "new @ [(f, m, r)]" in exI, simp add: note_event_def)

lemma told_since_send: "(\<And>r. (f, m, r) \<in> frames_for c response) \<Longrightarrow> keeps (told_since A c response) (send cf CLIENT f m)"
  by (auto simp: keeps_def send_def Let_def told_since_more split: send_result.split)

lemma told_since_send_two:
  "x \<in> {response, []} \<Longrightarrow> keeps (told_since A c response) (send_two cf CLIENT (Bytes c) (Bytes x))"
  unfolding send_two_def by (intro keeps_bnd told_since_send) (auto simp: frames_for_def intro!: told_since_send)

text \<open>A result is told to the connection that waits for it, and perhaps the connection is closed; nobody else is told anything.\<close>

lemma dequeue_tells:
  assumes "requests s (p_key pr i) = Some c"
  shows "told_since (attempts CLIENT (events s)) c response (fst (dequeue pr cf i response s))"
proof -
  let ?I = "told_since (attempts CLIENT (events s)) c response"
  have "tolerates INTERRUPT ?I" by (auto simp: tolerates_def told_since_def note_event_def)
  then have "keeps ?I (interrupt_all cf ks)" for ks by (induction ks) (auto intro!: keeps_bnd keeps_send told_since_hushed)
  moreover have forget: "keeps ?I (modify f)" if "\<And>s. events (f s) = events s" for f using that by (intro keeps_modify) (simp add: told_since_def)
  ultimately have close: "keeps ?I (close_session pr cf c)"
    unfolding close_session_def [abs_def] by (intro keeps_option keeps_bnd forget) simp_all
  have log: "keeps ?I (log_line_if cf line)" for line
    by (auto simp: keeps_def log_line_if_def told_since_def note_event_def)
  let ?m = "bnd (send_two cf CLIENT (Bytes c) (Bytes response)) (\<lambda>ok.
      bnd (if \<not> ok then complain ''Server failed to dequeue request'' else log_line_if cf (\<lambda>ts. p_info_log pr ts i (length response))) (\<lambda>_.
      bnd (if p_keep_alive pr i then ret False else send_two cf CLIENT (Bytes c) (Bytes [])) (\<lambda>closed.
      bnd (if closed then close_session pr cf c else ret ()) (\<lambda>_.
      bnd (modify (\<lambda>s. s\<lparr>requests := (requests s)(p_key pr i := None)\<rparr>)) (\<lambda>_. ret True)))))"
  have "keeps ?I ?m"
    by (intro keeps_bnd) (auto intro: close log forget told_since_send_two keeps_complain told_since_hushed)
  moreover have "?I s" by (simp add: told_since_def)
  ultimately have "?I (fst (?m s))" by (rule keepsD)
  moreover have "dequeue pr cf i response s = ?m s" using assms by (simp add: dequeue_def)
  ultimately show ?thesis by (simp only:)
qed

lemma take_result_tells:
  assumes "told = drop (length (attempts CLIENT (events s))) (attempts CLIENT (events (fst (take_result pr cf p s))))"
  shows "told = [] \<or> (\<exists>i response c. result_in p = Some (i, response) \<and> requests s (p_key pr i) = Some c \<and> set told \<subseteq> frames_for c response)"
proof (cases "result_in p")
  case None
  then show ?thesis using assms by (simp add: take_result_def bnd_def modify_def ret_def note_event_def)
next
  case (Some ir)
  obtain i response where ir: "ir = (i, response)" by fastforce
  let ?s = "note_event Polled s"
  have t: "told = drop (length (attempts CLIENT (events s))) (attempts CLIENT (events (fst (dequeue pr cf i response ?s))))"
    using assms Some ir
    by (auto simp: take_result_def bnd_def modify_def catch_std_def note_event_def split: prod.splits sum.splits exn.splits)
  have s: "attempts CLIENT (events ?s) = attempts CLIENT (events s)" "requests ?s = requests s" by (simp_all add: note_event_def)
  show ?thesis
  proof (cases "requests s (p_key pr i)")
    case None
    then show ?thesis using t s by (simp add: dequeue_def)
  next
    case (Some c)
    then have "told_since (attempts CLIENT (events s)) c response (fst (dequeue pr cf i response ?s))"
      using dequeue_tells [of ?s pr i c response cf] s by simp
    then have "set told \<subseteq> frames_for c response" using t by (auto simp: told_since_def)
    then show ?thesis using Some \<open>result_in p = Some ir\<close> ir by blast
  qed
qed

section \<open>The parts together\<close>

text \<open>
  Where a message waits: for the proxy of a stage, from the server or the stage before it; for a worker, from its proxy; for a
  proxy, from a worker that reports; for the server, from the workers.
\<close>

datatype place = Asked nat | Given nat string | Idle nat | Results

text \<open>
  The parts, the mail, and what has been seen: the requests that the server has sent on, with the connection they came from,
  and the results it has taken, each with the frames that it has tried to send to clients on taking it. An exception that nobody catches ends the
  process and with it everything.
\<close>

record system =
  main_server :: "(http_request, http_request_info) server"
  tiers :: "http_request_info tier list"
  mail :: "(place \<times> http_request_info frame list) multiset"
  asked_by :: "(string \<times> http_request_info frame list) list"
  answers :: "(http_request_info \<times> string \<times> (http_request_info frame \<times> bool \<times> send_result) list) list"
  running :: bool

type_synonym stage_config = "http_request_info proxy_config \<times> http_request_info worker_config"

definition system_new :: "stage_config list \<Rightarrow> system" where
  "system_new cfs = \<lparr>main_server = server_new,
     tiers = map (\<lambda>(pc, wc). \<lparr>proxy_cf = pc, worker_cf = wc, the_proxy = proxy_new, the_workers = Map.empty\<rparr>) cfs,
     mail = {#}, asked_by = [], answers = [], running = True\<rparr>"

text \<open>A turn of the server with a result, a client's message, both or none.\<close>

definition server_step ::
  "curl \<Rightarrow> (http_request, http_request_info) server_config \<Rightarrow> http_request_info polled \<Rightarrow> system \<Rightarrow> system" where
  "server_step cu cf p y =
     (let s = main_server y;
          (s', res) = serve_turn (http_protocol cu) cf p s;
          told = drop (length (attempts CLIENT (events s))) (attempts CLIENT (events (fst (take_result (http_protocol cu) cf p s))));
          requested = mailed PROXY (events s) (events s')
      in y\<lparr>main_server := s',
           mail := mail y - (case result_in p of None \<Rightarrow> {#} | Some (i, response) \<Rightarrow> {#(Results, [Info i, Bytes response])#}) +
             mset (map (Pair (Asked 0)) requested),
           asked_by := asked_by y @ map (Pair (case request_in p of Some (c # _) \<Rightarrow> c | _ \<Rightarrow> [])) requested,
           answers := answers y @ (case result_in p of None \<Rightarrow> [] | Some (i, response) \<Rightarrow> [(i, response, told)]),
           running := res = Inr ()\<rparr>)"

text \<open>A turn of a proxy: the router socket takes the first frame of what it sends for the worker it goes to.\<close>

fun given :: "nat \<Rightarrow> 'i frame list \<Rightarrow> (place \<times> 'i frame list) multiset" where
  "given k (Bytes a # frames) = {#(Given k a, frames)#}"
| "given k _ = {#}"

definition proxy_step ::
  "nat \<Rightarrow> (string \<times> string) option \<Rightarrow> (http_request_info frame \<times> http_request_info frame list) option \<Rightarrow> system \<Rightarrow> system" where
  "proxy_step k idle task y =
     (let t = tiers y ! k;
          (p, res) = forward_turn (proxy_cf t) (polled_proxy idle task) (the_proxy t)
      in y\<lparr>tiers := (tiers y)[k := t\<lparr>the_proxy := p\<rparr>],
           mail := mail y - (case idle of None \<Rightarrow> {#} | Some (a, hb) \<Rightarrow> {#(Idle k, [Bytes a, Bytes hb])#}) -
             (case task of None \<Rightarrow> {#} | Some (hop, m) \<Rightarrow> {#(Asked k, m)#}) +
             sum_list (map (given k) (mailed DOWNSTREAM (events (the_proxy t)) (events p))),
           running := res = Inr ()\<rparr>)"

text \<open>
  A worker comes and reports, has a turn with a job or without, and goes. What it finds on the interrupt socket and whether the
  process is shutting down may be anything each time. A result that goes past the last stage has nobody to take it.
\<close>

definition posted :: "nat \<Rightarrow> string \<Rightarrow> 'i event list \<Rightarrow> 'i event list \<Rightarrow> (place \<times> 'i frame list) multiset" where
  "posted k a before after =
     mset (map (\<lambda>m. (Idle k, Bytes a # m)) (mailed UPSTREAM before after) @
           map (Pair (Asked (Suc k))) (mailed DOWNSTREAM before after) @ map (Pair Results) (mailed LOOPBACK before after))"

definition join_step :: "nat \<Rightarrow> string \<Rightarrow> string \<Rightarrow> system \<Rightarrow> system" where
  "join_step k a hb y =
     (let t = tiers y ! k; (w, res) = advertise (worker_cf t) (worker_new hb)
      in y\<lparr>tiers := (tiers y)[k := t\<lparr>the_workers := (the_workers t)(a \<mapsto> w)\<rparr>],
           mail := mail y + posted k a [] (events w), running := res = Inr ()\<rparr>)"

definition hearing ::
  "('i event list \<Rightarrow> std_error + u64 list) \<Rightarrow> ('i event list \<Rightarrow> bool) \<Rightarrow> 'i worker_config \<Rightarrow> 'i worker_config" where
  "hearing inb sh wc = wc\<lparr>inbox := inb, shutting := sh\<rparr>"

definition worker_step ::
  "nat \<Rightarrow> string \<Rightarrow> http_request_info turn \<Rightarrow> (http_request_info event list \<Rightarrow> std_error + u64 list) \<Rightarrow>
   (http_request_info event list \<Rightarrow> bool) \<Rightarrow> system \<Rightarrow> system" where
  "worker_step k a wt inb sh y =
     (let t = tiers y ! k; w = note_event Polled (the (the_workers t a));
          (w', res) = work_turn (hearing inb sh (worker_cf t)) wt w
      in y\<lparr>tiers := (tiers y)[k := t\<lparr>the_workers := (the_workers t)(a := if res = Inr True then Some w' else None)\<rparr>],
           mail := mail y - (case work_in wt of None \<Rightarrow> {#} | Some m \<Rightarrow> {#(Given k a, m)#}) + posted k a (events w) (events w'),
           running := (case res of Inl x \<Rightarrow> False | Inr go \<Rightarrow> True)\<rparr>)"

definition leave_step :: "nat \<Rightarrow> string \<Rightarrow> system \<Rightarrow> system" where
  "leave_step k a y = y\<lparr>tiers := (tiers y)[k := (tiers y ! k)\<lparr>the_workers := (the_workers (tiers y ! k))(a := None)\<rparr>]\<rparr>"

text \<open>
  Every way the service can go. Each part takes what is in the mail for it, in any order; mail may be lost. A proxy looks for
  requests only while somebody is idle.
\<close>

inductive system_runs ::
  "curl \<Rightarrow> (http_request, http_request_info) server_config \<Rightarrow> stage_config list \<Rightarrow> system \<Rightarrow> bool"
  for cu cf cfs where
  start: "system_runs cu cf cfs (system_new cfs)"
| serve: "system_runs cu cf cfs y \<Longrightarrow> running y \<Longrightarrow>
    (\<And>i response. result_in p = Some (i, response) \<Longrightarrow> (Results, [Info i, Bytes response]) \<in># mail y) \<Longrightarrow>
    system_runs cu cf cfs (server_step cu cf p y)"
| forward: "system_runs cu cf cfs y \<Longrightarrow> running y \<Longrightarrow> k < length (tiers y) \<Longrightarrow>
    (\<And>a hb. idle = Some (a, hb) \<Longrightarrow> (Idle k, [Bytes a, Bytes hb]) \<in># mail y) \<Longrightarrow>
    (\<And>hop m. task = Some (hop, m) \<Longrightarrow> (Asked k, m) \<in># mail y \<and> expire (the_proxy (tiers y ! k)) = 2) \<Longrightarrow>
    system_runs cu cf cfs (proxy_step k idle task y)"
| join: "system_runs cu cf cfs y \<Longrightarrow> running y \<Longrightarrow> k < length (tiers y) \<Longrightarrow> the_workers (tiers y ! k) a = None \<Longrightarrow>
    system_runs cu cf cfs (join_step k a hb y)"
| work: "system_runs cu cf cfs y \<Longrightarrow> running y \<Longrightarrow> k < length (tiers y) \<Longrightarrow> the_workers (tiers y ! k) a \<noteq> None \<Longrightarrow>
    (\<And>m. work_in wt = Some m \<Longrightarrow> (Given k a, m) \<in># mail y) \<Longrightarrow> system_runs cu cf cfs (worker_step k a wt inb sh y)"
| leave: "system_runs cu cf cfs y \<Longrightarrow> running y \<Longrightarrow> k < length (tiers y) \<Longrightarrow> system_runs cu cf cfs (leave_step k a y)"
| lose: "system_runs cu cf cfs y \<Longrightarrow> running y \<Longrightarrow> system_runs cu cf cfs (y\<lparr>mail := mail y - {#x#}\<rparr>)"

section \<open>Accounts\<close>

text \<open>
  What a message stands for: the key of its request and what the work functions that are still to come will make of it. Every request
  that is asked enters the books once, and what is in the mail or has been answered is never more than that.
\<close>

type_synonym account = "(u64 \<times> (http_request_info \<times> string) option) multiset"

fun worth :: "http_work list \<Rightarrow> place \<times> http_request_info frame list \<Rightarrow> account" where
  "worth ws (Asked k, Info i # ms) = {#(http_key i, chain (drop k ws) ms i)#}"
| "worth ws (Given k a, Info i # ms) = {#(http_key i, chain (drop k ws) ms i)#}"
| "worth ws (Results, [Info i, Bytes s]) = {#(http_key i, Some (i, s))#}"
| "worth ws _ = {#}"

definition books :: "http_work list \<Rightarrow> (place \<times> http_request_info frame list) multiset \<Rightarrow> account" where
  "books ws M = \<Sum>\<^sub># (image_mset (worth ws) M)"

fun addressed :: "place \<times> http_request_info frame list \<Rightarrow> bool" where
  "addressed (Idle k, m) = True"
| "addressed (Results, m) = (\<exists>i s. m = [Info i, Bytes s])"
| "addressed (p, m) = (\<exists>i ms. m = Info i # ms)"

definition moves :: "http_work list \<Rightarrow> (place \<times> http_request_info frame list) multiset \<Rightarrow>
   (place \<times> http_request_info frame list) multiset \<Rightarrow> bool" where
  "moves ws M M' \<longleftrightarrow> books ws M' \<subseteq># books ws M \<and> ((\<forall>x \<in># M. addressed x) \<longrightarrow> (\<forall>x \<in># M'. addressed x))"

lemma books_simps [simp]:
  "books ws {#} = {#}" "books ws (add_mset x M) = worth ws x + books ws M" "books ws (M + N) = books ws M + books ws N"
  by (simp_all add: books_def)

lemma books_reports [simp]: "books ws (image_mset (\<lambda>m. (Idle k, g m)) N) = {#}"
  by (induction N) simp_all

lemma books_remove: "x \<in># M \<Longrightarrow> books ws M = worth ws x + books ws (M - {#x#})"
  by (metis insert_DiffM books_simps(2))

lemma books_mono: "books ws (M - N) \<subseteq># books ws M"
proof -
  obtain K where "M = (M - N) + K" using diff_subset_eq_self [of M N] by (auto simp: mset_subset_eq_exists_conv)
  then show ?thesis by (metis books_simps(3) mset_subset_eq_add_left)
qed

lemma moves_refl [simp]: "moves ws M M"
  by (simp add: moves_def)

lemma moves_trans: "moves ws M M1 \<Longrightarrow> moves ws M1 M2 \<Longrightarrow> moves ws M M2"
  unfolding moves_def by (meson subset_mset.order_trans)

lemma moves_lose: "moves ws M (M - N)"
  by (auto simp: moves_def books_mono dest: in_diffD)

lemma moves_add: "books ws N = {#} \<Longrightarrow> \<forall>x \<in># N. addressed x \<Longrightarrow> moves ws M (M + N)"
  by (auto simp: moves_def)

lemma moves_swap:
  assumes "x \<in># M" "books ws N \<subseteq># worth ws x" "addressed x \<Longrightarrow> \<forall>z \<in># N. addressed z"
  shows "moves ws M (M - {#x#} + N)"
proof -
  have "books ws (M - {#x#} + N) \<subseteq># books ws M"
    unfolding books_remove [OF assms(1)] books_simps(3) by (subst add.commute) (intro subset_mset.add_mono assms(2) subset_mset.order_refl)
  moreover have "\<forall>z \<in># M - {#x#} + N. addressed z" if "\<forall>z \<in># M. addressed z"
    unfolding union_iff ball_Un set_mset_union using assms(1,3) that in_diffD [of _ M "{#x#}"] by blast
  ultimately show ?thesis by (simp add: moves_def)
qed

text \<open>
  The tiers keep their configurations, their proxies keep their invariant, and nobody that goes on has left a message open.
\<close>

definition tier_ok :: "'i tier \<Rightarrow> bool" where
  "tier_ok t \<longleftrightarrow> proxy_inv (the_proxy t) \<and> closed DOWNSTREAM (events (the_proxy t)) \<and> (\<forall>w \<in> ran (the_workers t). all_closed w)"

definition tiers_ok :: "stage_config list \<Rightarrow> http_request_info tier list \<Rightarrow> bool" where
  "tiers_ok cfs ts \<longleftrightarrow> map (\<lambda>t. (proxy_cf t, worker_cf t)) ts = cfs \<and> (\<forall>t \<in> set ts. tier_ok t)"

definition stage_works :: "stage_config list \<Rightarrow> http_work list" where
  "stage_works cfs = map (\<lambda>(pc, wc). work_function wc) cfs"

lemma tiers_ok_update:
  assumes "tiers_ok cfs ts" "k < length ts" "proxy_cf t = proxy_cf (ts ! k)" "worker_cf t = worker_cf (ts ! k)" "tier_ok t"
  shows "tiers_ok cfs (ts[k := t])"
proof -
  have "map (\<lambda>t. (proxy_cf t, worker_cf t)) (ts[k := t]) = map (\<lambda>t. (proxy_cf t, worker_cf t)) ts"
    using assms(2-4) by (simp add: map_update list_update_same_conv)
  then show ?thesis using assms(1,5) by (auto simp: tiers_ok_def dest!: set_update_subset_insert [THEN subsetD])
qed

lemma tiers_ok_nth:
  assumes "tiers_ok cfs ts" "k < length ts"
  shows "(proxy_cf (ts ! k), worker_cf (ts ! k)) \<in> set cfs" "tier_ok (ts ! k)"
    "drop k (stage_works cfs) = work_function (worker_cf (ts ! k)) # drop (Suc k) (stage_works cfs)"
proof -
  have cfs: "cfs = map (\<lambda>t. (proxy_cf t, worker_cf t)) ts" using assms(1) by (simp add: tiers_ok_def)
  show "(proxy_cf (ts ! k), worker_cf (ts ! k)) \<in> set cfs" "tier_ok (ts ! k)"
    using assms by (auto simp: tiers_ok_def)
  show "drop k (stage_works cfs) = work_function (worker_cf (ts ! k)) # drop (Suc k) (stage_works cfs)"
    using assms(2) Cons_nth_drop_Suc [of k "stage_works cfs"] by (simp add: cfs stage_works_def)
qed

text \<open>The turns of a proxy and of a worker, as moves.\<close>

lemma proxy_step_moves:
  assumes "tiers_ok cfs (tiers y)" "k < length (tiers y)" "polite (proxy_cf (tiers y ! k))" "\<forall>x \<in># mail y. addressed x"
    and "\<And>hop m. task = Some (hop, m) \<Longrightarrow> (Asked k, m) \<in># mail y \<and> expire (the_proxy (tiers y ! k)) = 2"
  shows "moves ws (mail y) (mail (proxy_step k idle task y)) \<and> tiers_ok cfs (tiers (proxy_step k idle task y))"
proof -
  let ?t = "tiers y ! k"
  let ?p = "fst (forward_turn (proxy_cf ?t) (polled_proxy idle task) (the_proxy ?t))"
  let ?I = "case idle of None \<Rightarrow> {#} | Some (a, hb) \<Rightarrow> {#(Idle k, [Bytes a, Bytes hb])#}"
  let ?M = "mail y - ?I"
  have guard: "m \<noteq> [] \<and> expire (the_proxy ?t) = 2" if "task = Some (hop, m)" for hop m using assms(4,5) that by fastforce
  have t: "proxy_inv (the_proxy ?t)" "closed DOWNSTREAM (events (the_proxy ?t))" "\<forall>w \<in> ran (the_workers ?t). all_closed w"
    using tiers_ok_nth(2) [OF assms(1,2)] by (simp_all add: tier_ok_def)
  have "proxy_inv ?p \<and> closed DOWNSTREAM (events ?p) \<and> (\<exists>a. mailed DOWNSTREAM (events (the_proxy ?t)) (events ?p) = (case task of None \<Rightarrow> [] | Some (hop, m) \<Rightarrow> [Bytes a # m]))"
    by (rule proxy_turn_mail [OF assms(3) t(1,2) _ refl], erule guard)
  then obtain a where p: "proxy_inv ?p" "closed DOWNSTREAM (events ?p)"
      "mailed DOWNSTREAM (events (the_proxy ?t)) (events ?p) = (case task of None \<Rightarrow> [] | Some (hop, m) \<Rightarrow> [Bytes a # m])"
    by (elim conjE exE) (rule that)
  obtain q res where q: "forward_turn (proxy_cf ?t) (polled_proxy idle task) (the_proxy ?t) = (q, res)" by fastforce
  have tiers: "tiers (proxy_step k idle task y) = (tiers y)[k := ?t\<lparr>the_proxy := ?p\<rparr>]"
    by (simp add: proxy_step_def q Let_def)
  have "mail (proxy_step k idle task y) = ?M - (case task of None \<Rightarrow> {#} | Some (hop, m) \<Rightarrow> {#(Asked k, m)#}) +
      sum_list (map (given k) (mailed DOWNSTREAM (events (the_proxy ?t)) (events q)))"
    by (simp add: proxy_step_def q Let_def)
  then have mail: "mail (proxy_step k idle task y) = (case task of None \<Rightarrow> ?M | Some (hop, m) \<Rightarrow> ?M - {#(Asked k, m)#} + {#(Given k a, m)#})"
    using p(3) unfolding q by (cases task) (simp_all split: prod.splits)
  have "moves ws ?M (mail (proxy_step k idle task y))"
  proof (cases task)
    case None
    then show ?thesis unfolding mail by simp
  next
    case (Some j)
    obtain hop m where j: "j = (hop, m)" by fastforce
    have m: "(Asked k, m) \<in># mail y" using assms(5) Some j by blast
    then obtain i ms where "m = Info i # ms" using assms(4) by fastforce
    moreover from m have "(Asked k, m) \<in># ?M" by (auto simp: in_diff_count split: option.split)
    moreover have eq: "mail (proxy_step k idle task y) = ?M - {#(Asked k, m)#} + {#(Given k a, m)#}" unfolding mail by (simp add: Some j)
    ultimately show ?thesis unfolding eq by (intro moves_swap) simp_all
  qed
  then have "moves ws (mail y) (mail (proxy_step k idle task y))" using moves_lose moves_trans by blast
  then show ?thesis using tiers_ok_update [OF assms(1,2), of "?t\<lparr>the_proxy := ?p\<rparr>"] p(1,2) t(3) by (simp add: tiers tier_ok_def)
qed

lemma posted_reports:
  assumes "mailed DOWNSTREAM vs vs' = []" "mailed LOOPBACK vs vs' = []"
  shows "books ws (posted k a vs vs') = {#}" "\<forall>x \<in># posted k a vs vs'. addressed x"
  using assms by (auto simp: posted_def)

lemma advertise_mail:
  assumes "w = fst (advertise wc (worker_new hb))"
  shows "mailed DOWNSTREAM [] (events w) = []" "mailed LOOPBACK [] (events w) = []" "all_closed w"
proof -
  have "sent_so_far (\<lambda>_. []) (worker_new hb)" by (simp add: sent_so_far_def worker_new_def)
  moreover have "tolerates UPSTREAM (sent_so_far (\<lambda>_. []))" by (simp add: tolerates_def sent_so_far_def)
  ultimately have "sent_so_far (\<lambda>_. []) w"
    unfolding advertise_def assms by (rule keepsD [OF keeps_catch_std [OF sent_hushed keeps_send], rotated])
  then show "mailed DOWNSTREAM [] (events w) = []" "mailed LOOPBACK [] (events w) = []" "all_closed w"
    by (simp_all add: sent_so_far_def mailed_def all_closed_def closed_def)
qed

lemma join_step_moves:
  assumes "tiers_ok cfs (tiers y)" "k < length (tiers y)"
  shows "moves ws (mail y) (mail (join_step k a hb y)) \<and> tiers_ok cfs (tiers (join_step k a hb y))"
proof -
  obtain w res where w: "advertise (worker_cf (tiers y ! k)) (worker_new hb) = (w, res)" by fastforce
  then have "w = fst (advertise (worker_cf (tiers y ! k)) (worker_new hb))" by simp
  note m = advertise_mail [OF this]
  have "tier_ok ((tiers y ! k)\<lparr>the_workers := (the_workers (tiers y ! k))(a \<mapsto> w)\<rparr>)"
    using tiers_ok_nth(2) [OF assms] m(3) by (auto simp: tier_ok_def ran_def)
  with posted_reports [OF m(1,2)] show ?thesis
    using tiers_ok_update [OF assms] by (simp add: join_step_def w Let_def moves_add)
qed

text \<open>A turn with a job puts at most one message in its place, worth as much.\<close>

lemma worker_posts:
  assumes "reliable wc LOOPBACK" "reliable wc DOWNSTREAM" "keeps_key http_key (work_function wc)"
    and "drop k ws = work_function wc # drop (Suc k) ws" "all_closed w"
    and "work_turn wc \<lparr>work_in = Some (Info i # ms), interrupt_in = b\<rparr> w = (w', res)"
  shows "books ws (posted k a (events w) (events w')) \<subseteq># {#(http_key i, chain (drop k ws) ms i)#} \<and>
    (\<forall>x \<in># posted k a (events w) (events w'). addressed x)"
  using worker_turn_mail [OF assms(1,2,5,6), THEN conjunct2]
proof (elim disjE exE conjE)
  assume "mailed DOWNSTREAM (events w) (events w') = []" "mailed LOOPBACK (events w) (events w') = []"
  from posted_reports [OF this] show ?thesis by simp
next
  fix r i'
  assume r: "work_outcome (work_function wc ms i) = Inr (r, i')" "result_messages r \<noteq> []"
    "mailed DOWNSTREAM (events w) (events w') = (if intermediate r then [Info i' # map Bytes (result_messages r)] else [])"
    "mailed LOOPBACK (events w) (events w') = (if intermediate r then [] else [[Info i', Bytes (hd (result_messages r))]])"
  have "http_key i' = http_key i" using assms(3) r(1) by (auto simp: keeps_key_def)
  then show ?thesis using r by (auto simp: posted_def assms(4))
qed

lemma worker_step_moves:
  assumes "tiers_ok cfs (tiers y)" "k < length (tiers y)" "\<forall>x \<in># mail y. addressed x" "the_workers (tiers y ! k) a \<noteq> None"
    and "reliable wc LOOPBACK" "reliable wc DOWNSTREAM" "keeps_key http_key (work_function wc)" "wc = worker_cf (tiers y ! k)"
    and "\<And>m. work_in wt = Some m \<Longrightarrow> (Given k a, m) \<in># mail y"
  shows "moves (stage_works cfs) (mail y) (mail (worker_step k a wt inb sh y)) \<and> tiers_ok cfs (tiers (worker_step k a wt inb sh y))"
proof -
  let ?t = "tiers y ! k" and ?wc = "hearing inb sh wc" and ?ws = "stage_works cfs"
  let ?w = "note_event Polled (the (the_workers ?t a))"
  have c: "reliable ?wc LOOPBACK" "reliable ?wc DOWNSTREAM" "work_function ?wc = work_function wc"
    using assms(5,6) by (simp_all add: hearing_def reliable_def)
  have t: "tier_ok ?t" by (rule tiers_ok_nth(2) [OF assms(1,2)])
  then have closed_w: "all_closed ?w" using assms(4) by (auto simp: tier_ok_def all_closed_def closed_def ran_def)
  obtain w' res where w: "work_turn ?wc wt ?w = (w', res)" by fastforce
  have tiers: "tiers_ok cfs (tiers (worker_step k a wt inb sh y))" if "all_closed w' \<or> res = Inl Undefined"
  proof -
    have "tier_ok (?t\<lparr>the_workers := (the_workers ?t)(a := if res = Inr True then Some w' else None)\<rparr>)"
      using t that by (auto simp: tier_ok_def ran_def)
    then show ?thesis using tiers_ok_update [OF assms(1,2)] w assms(8) by (simp add: worker_step_def Let_def)
  qed
  have mail: "mail (worker_step k a wt inb sh y) =
      mail y - (case work_in wt of None \<Rightarrow> {#} | Some m \<Rightarrow> {#(Given k a, m)#}) + posted k a (events ?w) (events w')"
    using w assms(8) by (simp add: worker_step_def Let_def)
  show ?thesis
  proof (cases "work_in wt")
    case None
    then have "wt = \<lparr>work_in = None, interrupt_in = interrupt_in wt\<rparr>" by simp
    then have "work_turn ?wc \<lparr>work_in = None, interrupt_in = interrupt_in wt\<rparr> ?w = (w', res)" using w by metis
    note idle = worker_idle_mail [OF this]
    from moves_add [OF posted_reports [OF idle(1,2)]] show ?thesis unfolding mail None using tiers idle(3) closed_w by simp
  next
    case (Some m)
    then have m: "(Given k a, m) \<in># mail y" using assms(9) by blast
    then obtain i ms where i: "m = Info i # ms" using assms(3) by fastforce
    with Some have "wt = \<lparr>work_in = Some (Info i # ms), interrupt_in = interrupt_in wt\<rparr>" by simp
    then have turn: "work_turn ?wc \<lparr>work_in = Some (Info i # ms), interrupt_in = interrupt_in wt\<rparr> ?w = (w', res)" using w by metis
    from worker_posts [OF c(1,2) _ _ closed_w turn, of k ?ws a, unfolded c(3)] assms(7) tiers_ok_nth(3) [OF assms(1,2), folded assms(8)]
    have "books ?ws (posted k a (events ?w) (events w')) \<subseteq># worth ?ws (Given k a, m)" "\<forall>x \<in># posted k a (events ?w) (events w'). addressed x"
      unfolding i worth.simps by blast+
    from moves_swap [OF m this(1)] this(2) tiers worker_turn_mail [OF c(1,2) closed_w turn] show ?thesis by (simp add: mail Some)
  qed
qed

section \<open>The invariant\<close>

fun key_of :: "http_request_info frame list \<Rightarrow> u64 option" where
  "key_of (Info i # ms) = Some (http_key i)"
| "key_of _ = None"

definition asked_for :: "system \<Rightarrow> string \<Rightarrow> u64 \<Rightarrow> bool" where
  "asked_for y c k \<longleftrightarrow> (\<exists>m. (c, m) \<in> set (asked_by y) \<and> key_of m = Some k)"

definition asked_books :: "http_work list \<Rightarrow> system \<Rightarrow> account" where
  "asked_books ws y = books ws (mset (map (\<lambda>(c, m). (Asked 0, m)) (asked_by y)))"

definition answer_books :: "system \<Rightarrow> account" where
  "answer_books y = mset (map (\<lambda>(i, response, told). (http_key i, Some (i, response))) (answers y))"

definition accounted :: "stage_config list \<Rightarrow> system \<Rightarrow> bool" where
  "accounted cfs y \<longleftrightarrow> tiers_ok cfs (tiers y) \<and> (\<forall>x \<in># mail y. addressed x) \<and>
     books (stage_works cfs) (mail y) + answer_books y \<subseteq># asked_books (stage_works cfs) y \<and>
     (\<forall>(c, m) \<in> set (asked_by y). \<exists>i s. m = [Info i, Bytes s]) \<and>
     (\<forall>k c. requests (main_server y) k = Some c \<longrightarrow> asked_for y c k) \<and>
     closed PROXY (events (main_server y)) \<and>
     (\<forall>(i, response, told) \<in> set (answers y). told = [] \<or> (\<exists>c. asked_for y c (http_key i) \<and> set told \<subseteq> frames_for c response))"

lemma accounted_move:
  assumes "accounted cfs y" "moves (stage_works cfs) (mail y) (mail y') \<and> tiers_ok cfs (tiers y')"
    and "main_server y' = main_server y" "asked_by y' = asked_by y" "answers y' = answers y"
  shows "accounted cfs y'"
proof -
  have "books (stage_works cfs) (mail y') + answer_books y' \<subseteq># books (stage_works cfs) (mail y) + answer_books y"
    using assms(2,5) by (simp add: moves_def answer_books_def)
  then show ?thesis
    using assms subset_mset.order_trans unfolding accounted_def asked_books_def asked_for_def moves_def by auto
qed

lemma accounted_new: "accounted cfs (system_new cfs)"
  by (simp add: accounted_def system_new_def tiers_ok_def answer_books_def asked_books_def server_new_def proxy_inv_new comp_def
      case_prod_unfold tier_ok_def)

definition sound_service :: "curl \<Rightarrow> (http_request, http_request_info) server_config \<Rightarrow> stage_config list \<Rightarrow> bool" where
  "sound_service cu cf cfs \<longleftrightarrow> writable cu \<and> reliable cf PROXY \<and> health_check_matcher cf = None \<and>
     (\<forall>(pc, wc) \<in> set cfs. polite pc \<and> reliable wc LOOPBACK \<and> reliable wc DOWNSTREAM \<and> keeps_key http_key (work_function wc))"

text \<open>What the server asks enters the books with its worth; what it takes is an answer of the same worth.\<close>

lemma accounted_serve:
  assumes "accounted cfs y" "writable cu" "reliable cf PROXY" "health_check_matcher cf = None"
    and "\<And>i response. result_in p = Some (i, response) \<Longrightarrow> (Results, [Info i, Bytes response]) \<in># mail y"
  shows "accounted cfs (server_step cu cf p y)"
proof -
  let ?s = "main_server y" and ?y = "server_step cu cf p y" and ?ws = "stage_works cfs"
  let ?c = "case request_in p of Some (c # _) \<Rightarrow> c | _ \<Rightarrow> []"
  obtain s' res where s': "serve_turn (http_protocol cu) cf p ?s = (s', res)" by fastforce
  have "adds ?c ?s s'" using adds_serve_turn [OF assms(2-4), of p ?c ?s] by (simp add: s')
  moreover have "closed PROXY (events ?s)" using assms(1) by (simp add: accounted_def)
  ultimately obtain ns where ns: "mailed PROXY (events ?s) (events s') = map (\<lambda>(i, str). [Info i, Bytes str]) ns" "closed PROXY (events s')"
      "\<And>k c. requests s' k = Some c \<Longrightarrow> requests ?s k = Some c \<or> c = ?c \<and> k \<in> (\<lambda>n. http_key (fst n)) ` set ns"
    by (rule adds_mail) blast
  define told where "told = drop (length (attempts CLIENT (events ?s))) (attempts CLIENT (events (fst (take_result (http_protocol cu) cf p ?s))))"
  define R where "R = (case result_in p of None \<Rightarrow> {#} | Some (i, response) \<Rightarrow> {#(Results, [Info i, Bytes response])#})"
  let ?new = "map (\<lambda>(i, str). [Info i, Bytes str]) ns"
  have fields: "tiers ?y = tiers y" "mail ?y = mail y - R + mset (map (Pair (Asked 0)) ?new)" "asked_by ?y = asked_by y @ map (Pair ?c) ?new"
      "answers ?y = answers y @ (case result_in p of None \<Rightarrow> [] | Some (i, response) \<Rightarrow> [(i, response, told)])" "main_server ?y = s'"
    unfolding told_def R_def by (simp_all add: server_step_def s' Let_def ns(1) multiset.map_comp)
  have old: "asked_for ?y c k" if "asked_for y c k" for c k using that fields(3) by (auto simp: asked_for_def)
  have new: "asked_for ?y ?c k" if k: "k \<in> (\<lambda>n. http_key (fst n)) ` set ns" for k
  proof -
    obtain i str where "(i, str) \<in> set ns" "k = http_key i" using k by auto
    then have "(?c, [Info i, Bytes str]) \<in> set (asked_by ?y)" unfolding fields(3) by force
    then show ?thesis using \<open>k = http_key i\<close> unfolding asked_for_def by (intro exI [of _ "[Info i, Bytes str]"]) simp
  qed
  have known: "asked_for y c k" if "requests ?s k = Some c" for k c using assms(1) that by (simp add: accounted_def)
  have R: "books ?ws (mail y - R) + answer_books ?y = books ?ws (mail y) + answer_books y"
  proof (cases "result_in p")
    case None
    then show ?thesis by (simp add: R_def answer_books_def fields(4))
  next
    case (Some ir)
    then show ?thesis using books_remove [OF assms(5), of "fst ir" "snd ir"]
      by (cases ir) (simp add: R_def answer_books_def fields(4))
  qed
  have N: "books ?ws (mset (map (\<lambda>(c, m). (Asked 0, m)) (map (Pair ?c) ?new))) = books ?ws (mset (map (Pair (Asked 0)) ?new))"
    by (simp add: multiset.map_comp comp_def)
  show ?thesis
    unfolding accounted_def
  proof (intro conjI)
    show "tiers_ok cfs (tiers ?y)" using assms(1) fields(1) by (simp add: accounted_def)
    show "\<forall>x \<in># mail ?y. addressed x"
      using assms(1) unfolding fields(2) by (auto simp: accounted_def dest!: in_diffD)
    have "books ?ws (mail y - R) + answer_books ?y + books ?ws (mset (map (Pair (Asked 0)) ?new)) \<subseteq>#
        asked_books ?ws y + books ?ws (mset (map (Pair (Asked 0)) ?new))"
      using assms(1) by (simp add: R accounted_def)
    then show "books ?ws (mail ?y) + answer_books ?y \<subseteq># asked_books ?ws ?y"
      using N unfolding fields(2) asked_books_def fields(3) map_append mset_append books_simps(3) by (simp add: ac_simps)
    show "\<forall>(c, m) \<in> set (asked_by ?y). \<exists>i s. m = [Info i, Bytes s]"
      using assms(1) unfolding fields(3) by (auto simp: accounted_def)
    show "\<forall>k c. requests (main_server ?y) k = Some c \<longrightarrow> asked_for ?y c k"
      unfolding fields(5) using ns(3) known old new by blast
    show "closed PROXY (events (main_server ?y))" unfolding fields(5) by (rule ns(2))
    let ?fine = "\<lambda>(i, response, told). told = [] \<or> (\<exists>c. asked_for ?y c (http_key i) \<and> set told \<subseteq> frames_for c response)"
    have "\<forall>q \<in> set (answers y). ?fine q" using assms(1) old unfolding accounted_def by fast
    moreover have "?fine (i, response, told)" if got: "result_in p = Some (i, response)" for i response
    proof (cases "told = []")
      case False
      then obtain c where "requests ?s (http_key i) = Some c" "set told \<subseteq> frames_for c response"
        using take_result_tells [OF told_def] got by (auto simp: http_protocol_simps)
      then show ?thesis using old [OF known] by blast
    qed simp
    ultimately show "\<forall>q \<in> set (answers ?y). ?fine q" unfolding fields(4) by (cases "result_in p") auto
  qed
qed

lemma system_accounted:
  assumes "system_runs cu cf cfs y" "sound_service cu cf cfs"
  shows "accounted cfs y"
  using assms(1)
proof induction
  case start
  show ?case by (rule accounted_new)
next
  case (serve y p)
  from serve(4,3) assms(2) show ?case by (intro accounted_serve) (simp_all add: sound_service_def)
next
  case (forward y k idle task)
  from forward.IH have t: "tiers_ok cfs (tiers y)" "\<forall>x \<in># mail y. addressed x" by (simp_all add: accounted_def)
  then have "polite (proxy_cf (tiers y ! k))" using assms(2) tiers_ok_nth(1) [OF t(1) forward(3)] by (auto simp: sound_service_def)
  from proxy_step_moves [OF t(1) forward(3) this t(2), of task] forward(5)
  show ?case by (intro accounted_move [OF forward.IH]) (auto simp: proxy_step_def Let_def case_prod_unfold)
next
  case (join y k a hb)
  then have "tiers_ok cfs (tiers y)" by (simp add: accounted_def)
  from join_step_moves [OF this join(3)] show ?case
    by (intro accounted_move [OF join.IH]) (simp_all add: join_step_def Let_def case_prod_unfold)
next
  case (work y k a wt inb sh)
  from work.IH have t: "tiers_ok cfs (tiers y)" "\<forall>x \<in># mail y. addressed x" by (simp_all add: accounted_def)
  have "reliable (worker_cf (tiers y ! k)) LOOPBACK" "reliable (worker_cf (tiers y ! k)) DOWNSTREAM"
      "keeps_key http_key (work_function (worker_cf (tiers y ! k)))"
    using assms(2) tiers_ok_nth(1) [OF t(1) work(3)] by (auto simp: sound_service_def)
  from worker_step_moves [OF t(1) work(3) t(2) work(4) this refl work(5)] show ?case
    by (intro accounted_move [OF work.IH]) (simp_all add: worker_step_def Let_def case_prod_unfold)
next
  case (leave y k a)
  then have t: "tiers_ok cfs (tiers y)" by (simp add: accounted_def)
  have "tier_ok ((tiers y ! k)\<lparr>the_workers := (the_workers (tiers y ! k))(a := None)\<rparr>)"
    using tiers_ok_nth(2) [OF t leave(3)] by (auto simp: tier_ok_def ran_def)
  then have "tiers_ok cfs (tiers (leave_step k a y))" using tiers_ok_update [OF t leave(3)] by (simp add: leave_step_def)
  then show ?case by (intro accounted_move [OF leave.IH]) (simp_all add: leave_step_def)
next
  case (lose y x)
  then show ?case by (intro accounted_move [OF lose.IH]) (simp_all add: accounted_def moves_lose)
qed

lemma mset_subset_eq_distinct:
  assumes "mset xs \<subseteq># mset ys" "distinct ys"
  shows "distinct xs"
proof -
  obtain zs where "mset ys = mset (xs @ zs)" using assms(1) by (metis ex_mset mset_append mset_subset_eq_exists_conv)
  then show ?thesis using assms(2) mset_eq_imp_distinct_iff by fastforce
qed

text \<open>The books as lists: what was asked and what was answered, each with its key.\<close>

definition ledger :: "http_work list \<Rightarrow> system \<Rightarrow> (u64 \<times> (http_request_info \<times> string) option) list" where
  "ledger ws y = map (\<lambda>(c, m). case m of Info i # ms \<Rightarrow> (http_key i, chain ws ms i)) (asked_by y)"

lemma ledger_books:
  assumes "accounted cfs y"
  shows "asked_books (stage_works cfs) y = mset (ledger (stage_works cfs) y)"
    "map (\<lambda>(c, m). key_of m) (asked_by y) = map Some (map fst (ledger (stage_works cfs) y))"
proof -
  have "\<forall>(c, m) \<in> set as. \<exists>i s. m = [Info i, Bytes s] \<Longrightarrow>
      books ws (mset (map (\<lambda>(c, m). (Asked 0, m)) as)) = mset (map (\<lambda>(c, m). case m of Info i # ms \<Rightarrow> (http_key i, chain ws ms i)) as) \<and>
      map (\<lambda>(c, m). key_of m) as = map Some (map fst (map (\<lambda>(c, m). case m of Info i # ms \<Rightarrow> (http_key i, chain ws ms i)) as))"
    for as ws by (induction as) auto
  with assms show "asked_books (stage_works cfs) y = mset (ledger (stage_works cfs) y)"
    "map (\<lambda>(c, m). key_of m) (asked_by y) = map Some (map fst (ledger (stage_works cfs) y))"
    by (auto simp: accounted_def asked_books_def ledger_def)
qed

lemma answers_in_ledger:
  assumes "accounted cfs y" "A = map (\<lambda>(i, response, told). (http_key i, Some (i, response))) (answers y)"
  shows "mset A \<subseteq># mset (ledger (stage_works cfs) y)"
proof -
  have "books (stage_works cfs) (mail y) + answer_books y \<subseteq># mset (ledger (stage_works cfs) y)"
    using assms(1) ledger_books(1) [OF assms(1)] by (simp add: accounted_def)
  from subset_mset.order_trans [OF mset_subset_eq_add_right this] show ?thesis by (simp only: assms(2) answer_books_def)
qed

lemma answered_key_asked:
  assumes "accounted cfs y" "(http_key i, Some (i, response)) \<in> set (ledger (stage_works cfs) y)"
  obtains c i0 str where "(c, [Info i0, Bytes str]) \<in> set (asked_by y)" "http_key i0 = http_key i"
    "chain (stage_works cfs) [Bytes str] i0 = Some (i, response)"
proof -
  obtain c m where m: "(c, m) \<in> set (asked_by y)"
      "(http_key i, Some (i, response)) = (case m of Info i # ms \<Rightarrow> (http_key i, chain (stage_works cfs) ms i))"
    using assms(2) unfolding ledger_def by auto
  moreover obtain i0 str where "m = [Info i0, Bytes str]" using assms(1) m(1) unfolding accounted_def by blast
  ultimately show thesis using that by auto
qed

lemma one_asker:
  assumes "distinct (map (\<lambda>(c, m). key_of m) (asked_by y))" "asked_for y c k" "(c', m) \<in> set (asked_by y)" "key_of m = Some k"
  shows "c' = c"
proof -
  obtain m' where "(c, m') \<in> set (asked_by y)" "key_of m' = Some k" using assms(2) by (auto simp: asked_for_def)
  then show ?thesis using inj_onD [OF conjunct2 [OF assms(1) [unfolded distinct_map]], of "(c', m)" "(c, m')"] assms(3,4) by simp
qed

section \<open>Properties\<close>

text \<open>
  C2. Every part of the service at work at the same time, in any order of their turns, with any number of stages and workers
  that come and go, whatever clients send, workers hear on the interrupt socket and mail is lost: as long as no two requests have
  the same key, a result that the server takes is what the work functions of the stages make of a request that it was asked, all
  that it tells anybody on taking the result goes to the connection that asked that request, and is the result or the end of
  the connection, and no request has two results.
\<close>

theorem answers_reach_askers:
  assumes "system_runs cu cf cfs y" and "sound_service cu cf cfs" and "distinct (map (\<lambda>(c, m). key_of m) (asked_by y))"
  shows "distinct (map (\<lambda>(i, response, told). http_key i) (answers y)) \<and>
    (\<forall>(i, response, told) \<in> set (answers y). \<exists>c i0 str. (c, [Info i0, Bytes str]) \<in> set (asked_by y) \<and>
       http_key i0 = http_key i \<and> chain (map (\<lambda>(pc, wc). work_function wc) cfs) [Bytes str] i0 = Some (i, response) \<and>
       set told \<subseteq> frames_for c response)"
proof -
  let ?ws = "stage_works cfs"
  note inv = system_accounted [OF assms(1,2)]
  define A where "A = map (\<lambda>(i, response, told). (http_key i, Some (i, response))) (answers y)"
  have "mset A \<subseteq># mset (ledger ?ws y)" by (rule answers_in_ledger [OF inv A_def])
  then have sub: "mset (map fst A) \<subseteq># mset (map fst (ledger ?ws y))" "set A \<subseteq> set (ledger ?ws y)"
    by (simp_all add: image_mset_subseteq_mono set_mset_mono flip: set_mset_mset)
  have "distinct (map fst (ledger ?ws y))"
    using assms(3) unfolding ledger_books(2) [OF inv] by (rule distinct_map [THEN iffD1, THEN conjunct1])
  with sub(1) have "distinct (map fst A)" by (rule mset_subset_eq_distinct)
  moreover have "map fst A = map (\<lambda>(i, response, told). http_key i) (answers y)" by (simp add: A_def comp_def case_prod_unfold)
  moreover have "\<exists>c i0 str. (c, [Info i0, Bytes str]) \<in> set (asked_by y) \<and>
       http_key i0 = http_key i \<and> chain ?ws [Bytes str] i0 = Some (i, response) \<and>
       set told \<subseteq> frames_for c response" if a: "(i, response, told) \<in> set (answers y)" for i response told
  proof -
    have "(http_key i, Some (i, response)) \<in> set (ledger ?ws y)" using a sub(2) by (force simp: A_def)
    then obtain c i0 str where m: "(c, [Info i0, Bytes str]) \<in> set (asked_by y)" "http_key i0 = http_key i"
        "chain ?ws [Bytes str] i0 = Some (i, response)"
      by (rule answered_key_asked [OF inv])
    have "c' = c" if "asked_for y c' (http_key i)" for c' using one_asker [OF assms(3) that m(1)] m(2) by simp
    then have "set told \<subseteq> frames_for c response" using inv a unfolding accounted_def by fastforce
    then show ?thesis using m by blast
  qed
  ultimately show ?thesis unfolding stage_works_def by fastforce
qed

section \<open>A run\<close>

text \<open>A service with one stage and one worker, in which everybody takes turns until a client has its answer.\<close>

abbreviation echo_stage :: "stage_config list" where
  "echo_stage \<equiv> [(plain_proxy, echo_worker)]"

definition echo_state where
  "echo_state s p w M as ans = \<lparr>main_server = s,
     tiers = [\<lparr>proxy_cf = plain_proxy, worker_cf = echo_worker, the_proxy = p, the_workers = [''w'' \<mapsto> w]\<rparr>],
     mail = M, asked_by = as, answers = ans, running = True\<rparr>"

lemma echo_join:
  "join_step 0 ''w'' [] (system_new echo_stage) =
     echo_state server_new proxy_new (fst (advertise echo_worker (worker_new []))) {#(Idle 0, [Bytes ''w'', Bytes []])#} [] []"
  by (simp add: join_step_def system_new_def echo_state_def advertise_def catch_std_def send_def echo_worker_def worker_new_def
      note_event_def posted_def mailed_def)

lemma echo_forward:
  assumes "forward_turn plain_proxy (polled_proxy idle task) p = (p', Inr ())"
  shows "proxy_step 0 idle task (echo_state s p w M as ans) =
    echo_state s p' w (M - (case idle of None \<Rightarrow> {#} | Some (a, hb) \<Rightarrow> {#(Idle 0, [Bytes a, Bytes hb])#}) -
      (case task of None \<Rightarrow> {#} | Some (hop, m) \<Rightarrow> {#(Asked 0, m)#}) +
      sum_list (map (given 0) (mailed DOWNSTREAM (events p) (events p')))) as ans"
  using assms by (simp add: proxy_step_def echo_state_def)

lemma echo_serve:
  assumes "serve_turn http0 cf p s = (s', Inr ())"
  shows "server_step plain_curl cf p (echo_state s q w M as ans) =
    echo_state s' q w (M - (case result_in p of None \<Rightarrow> {#} | Some (i, response) \<Rightarrow> {#(Results, [Info i, Bytes response])#}) +
        mset (map (Pair (Asked 0)) (mailed PROXY (events s) (events s'))))
      (as @ map (Pair (case request_in p of Some (c # _) \<Rightarrow> c | _ \<Rightarrow> [])) (mailed PROXY (events s) (events s')))
      (ans @ (case result_in p of None \<Rightarrow> [] | Some (i, response) \<Rightarrow>
        [(i, response, drop (length (attempts CLIENT (events s))) (attempts CLIENT (events (fst (take_result http0 cf p s)))))]))"
  using assms by (simp add: server_step_def echo_state_def Let_def)

definition arrives :: "string list \<Rightarrow> http_request_info polled" where
  "arrives m = \<lparr>result_in = None, request_in = Some m\<rparr>"

lemma echo_connect: "serve_turn http0 plain_config (arrives [''A'', []]) server_new = (connected\<lparr>events := [Polled]\<rparr>, Inr ())"
  by (simp add: serve_turn_def take_result_def take_request_def catch_std_def server_eval handle_timeouts_def server_new_def
      connected_state arrives_def)

lemma echo_ask:
  "serve_turn http0 plain_config (arrives [''A'', get_root]) (connected\<lparr>events := [Polled]\<rparr>) =
    (asked\<lparr>events := [Polled, Polled, Attempt PROXY (Info (req_to_info 1000 root_request 0)) True Sent, Attempt PROXY (Bytes root_bytes) False Sent]\<rparr>, Inr ())"
  by (simp add: serve_turn_def take_result_def take_request_def catch_std_def server_eval handle_timeouts_def drop_dead_def
      connected_state asked_def arrives_def http_from_stream get_root_parsed root_request_sent Let_def)
    (simp add: root_info stamp_def)

lemma echo_chain: "chain [echo_work] [Bytes str] i =
   (let (reply, i') = rsp_from_info (rsp_make 200 ''OK'' str [] ''HTTP/1.1'') i in Some (i', rsp_to_string reply))"
  by (simp add: echo_work_def answer_def split: prod.split)

lemma echo_work_step:
  assumes "interrupts w = {}" and ch: "chain [echo_work] [Bytes str] i = Some (i', response)"
    and "closed UPSTREAM (events w)" "closed LOOPBACK (events w)"
  shows "\<exists>w'. worker_step 0 ''w'' \<lparr>work_in = Some [Info i, Bytes str], interrupt_in = False\<rparr> (\<lambda>_. Inr []) (\<lambda>_. False) (echo_state s p w M as ans) =
    echo_state s p w' (M - {#(Given 0 ''w'', [Info i, Bytes str])#} + {#(Idle 0, [Bytes ''w'', Bytes []]), (Results, [Info i', Bytes response])#}) as ans"
proof -
  let ?t = "\<lparr>work_in = Some [Info i, Bytes str], interrupt_in = False\<rparr> :: http_request_info turn" and ?w = "note_event Polled w"
  let ?res = "\<lparr>intermediate = False, result_messages = [response], result_heart_beat = []\<rparr>"
  have out: "work_outcome (work_function echo_worker [Bytes str] i) = Inr (?res, i')"
    using ch unfolding echo_chain by (simp add: echo_work_def answer_def echo_worker_calm(5) split: prod.splits)
  obtain w' where w': "work_turn echo_worker ?t ?w = (w', Inr True)"
      "attempts UPSTREAM (events w') = attempts UPSTREAM (events ?w) @ attempts UPSTREAM (sent_frames UPSTREAM [Bytes []])"
      "attempts DOWNSTREAM (events w') = attempts DOWNSTREAM (events ?w)"
      "attempts LOOPBACK (events w') = attempts LOOPBACK (events ?w) @ attempts LOOPBACK (sent_frames LOOPBACK [Info i', Bytes response])"
    using work_turn_delivers_keys [where K = UNIV and cf = echo_worker and t = ?t and s = ?w, OF echo_worker_calm(1) subset_UNIV _
        echo_worker_calm(2) echo_worker_calm(3,3,3) _ out] assms(1)
    by auto
  have c: "closed UPSTREAM (events ?w)" "closed LOOPBACK (events ?w)" using assms(3,4) by (simp_all add: closed_def)
  have "mailed UPSTREAM (events ?w) (events w') = [[Bytes []]]" by (rule mailed_sent [OF w'(2) _ c(1)]) simp
  moreover have "mailed DOWNSTREAM (events ?w) (events w') = []" by (rule mailed_same [OF w'(3)])
  moreover have "mailed LOOPBACK (events ?w) (events w') = [[Info i', Bytes response]]" by (rule mailed_sent [OF w'(4) _ c(2)]) simp
  ultimately have "posted 0 ''w'' (events ?w) (events w') = {#(Idle 0, [Bytes ''w'', Bytes []]), (Results, [Info i', Bytes response])#}"
    by (simp add: posted_def)
  moreover have "hearing (\<lambda>_. Inr []) (\<lambda>_. False) echo_worker = echo_worker" by (simp add: hearing_def echo_worker_def)
  ultimately show ?thesis using w'(1) by (intro exI [of _ w']) (simp add: worker_step_def echo_state_def Let_def)
qed

lemma echo_service_sound: "sound_service plain_curl plain_config echo_stage"
proof -
  have "writable plain_curl" by (simp add: writable_def plain_curl_def)
  moreover have "polite (plain_proxy :: http_request_info proxy_config)" by (simp add: polite_def plain_proxy_fair)
  ultimately show ?thesis using works_keep(1) [OF code_blind_key(1)] echo_worker_calm(3,5) by (simp add: sound_service_def reliable_def)
qed

lemma echo_proxy_runs:
  fixes m :: "http_request_info frame list"
  assumes "m \<noteq> []"
  shows "\<exists>p p'. forward_turn plain_proxy (polled_proxy (Some (''w'', [])) None) proxy_new = (p, Inr ()) \<and> events p = [Polled] \<and> expire p = 2 \<and>
    forward_turn plain_proxy (polled_proxy None (Some (hop, m))) p = (p', Inr ()) \<and> mailed DOWNSTREAM (events p) (events p') = [Bytes ''w'' # m]"
proof -
  let ?f = "polled_proxy (Some (''w'', [])) None :: http_request_info forwarded" and ?g = "polled_proxy None (Some (hop, m))"
  have s: "sound_turn ?f" "sound_turn ?g" using assms by (auto simp: sound_turn_def polled_proxy_def neq_Nil_conv)
  note spec = forward_turn_spec [OF _ plain_proxy_fair(2) _ plain_proxy_fair(3)]
  from spec [OF proxy_inv_new s(1)] obtain p where p: "forward_turn plain_proxy ?f proxy_new = (p, Inr ())" "proxy_inv p"
      "idle_workers p = [(''w'', [])]" "events p = [Polled]"
    by (auto simp: plain_proxy_fair(4) idle_after_def advertise_idle_def polled_proxy_def)
  from spec [OF p(2) s(2)] obtain p' where p': "forward_turn plain_proxy ?g p = (p', Inr ())"
      "events p' = events p @ Polled # sent_frames DOWNSTREAM (Bytes ''w'' # m)"
    by (auto simp: plain_proxy_fair(4) p(3) idle_after_def polled_proxy_def)
  have "mailed DOWNSTREAM (events p) (events p') = [Bytes ''w'' # m]"
    by (rule mailed_sent) (simp_all add: p'(2) p(4) closed_def del: attempts_sent sent_frames.simps)
  moreover have "expire p = 2" using p(3) by (auto simp: expire_def idle_workers_def)
  ultimately show ?thesis using p p'(1) by blast
qed

text \<open>The server takes the answer.\<close>

lemma echo_taken:
  assumes "http_key i = http_key (req_to_info 1000 root_request 0)" "\<not> http_keep_alive i"
    and "s = asked\<lparr>events := vs\<rparr>"
  shows "drop (length (attempts CLIENT vs)) (attempts CLIENT (events (fst (take_result http0 plain_config
      \<lparr>result_in = Some (i, response), request_in = None\<rparr> s)))) =
    [(Bytes ''A'', True, Sent), (Bytes response, False, Sent), (Bytes ''A'', True, Sent), (Bytes [], False, Sent)]"
proof -
  let ?s = "note_event Polled s" and ?cf = "plain_config :: (http_request, http_request_info) server_config"
  have rel: "reliable ?cf sk" for sk by (simp add: reliable_def)
  have "requests ?s (http_key i) = Some ''A''" "sessions ?s ''A'' \<noteq> None"
    using assms(1,3) by (simp_all add: note_event_def asked_state) (simp add: root_info http_key_def stamp_def)
  from dequeue_reliable [OF rel this, of plain_curl response] assms(2)
  obtain s' where s': "dequeue http0 ?cf i response ?s = (s', Inr True)"
      "attempts CLIENT (events s') = attempts CLIENT (events ?s) @
        [(Bytes ''A'', True, Sent), (Bytes response, False, Sent), (Bytes ''A'', True, Sent), (Bytes [], False, Sent)]"
    by auto
  have "fst (take_result http0 ?cf \<lparr>result_in = Some (i, response), request_in = None\<rparr> s) = s'"
    by (simp add: take_result_def bnd_def modify_def catch_std_def s'(1))
  then show ?thesis using s'(2) assms(3) by (simp add: note_event_def)
qed

lemma echo_last:
  assumes "http_key i = http_key (req_to_info 1000 root_request 0)" "\<not> http_keep_alive i" "s = asked\<lparr>events := vs\<rparr>"
  shows "attempts PROXY (events (fst (serve_turn http0 plain_config \<lparr>result_in = Some (i, response), request_in = None\<rparr> s))) = attempts PROXY vs"
proof -
  have k: "http_key i = id_time_key 0 1000" using assms(1) by (simp add: root_info http_key_def stamp_def)
  show ?thesis
    using assms(2,3) k
    by (simp add: serve_turn_def take_result_def take_request_def catch_std_def server_eval handle_timeouts_def drop_dead_def
        dequeue_def close_session_def asked_state http_protocol_simps req_state_defs root_info stamp_def)
qed

theorem answers_reach_askers_witness:
  "\<exists>y i response. system_runs plain_curl plain_config echo_stage y \<and>
     asked_by y = [(''A'', [Info (req_to_info 1000 root_request 0), Bytes root_bytes])] \<and>
     answers y = [(i, response, [(Bytes ''A'', True, Sent), (Bytes response, False, Sent), (Bytes ''A'', True, Sent), (Bytes [], False, Sent)])] \<and>
     chain [echo_work] [Bytes root_bytes] (req_to_info 1000 root_request 0) = Some (i, response)"
proof -
  let ?runs = "system_runs plain_curl plain_config echo_stage" and ?i = "req_to_info 1000 root_request 0"
  let ?w = "fst (advertise echo_worker (worker_new []))" and ?m = "[Info ?i, Bytes root_bytes]"
  let ?c = "connected\<lparr>events := [Polled]\<rparr>"
  let ?vs = "[Polled, Polled, Attempt PROXY (Info ?i) True Sent, Attempt PROXY (Bytes root_bytes) False Sent]"
  let ?a = "asked\<lparr>events := ?vs\<rparr>"
  obtain i response where ch: "chain [echo_work] [Bytes root_bytes] ?i = Some (i, response)"
    unfolding echo_chain by (cases "rsp_from_info (rsp_make 200 ''OK'' root_bytes [] ''HTTP/1.1'') ?i") simp
  obtain p p' where p: "forward_turn plain_proxy (polled_proxy (Some (''w'', [])) None) proxy_new = (p, Inr ())" "events p = [Polled]"
      "expire p = 2" "forward_turn plain_proxy (polled_proxy None (Some (Bytes ''S'', ?m))) p = (p', Inr ())"
      "mailed DOWNSTREAM (events p) (events p') = [Bytes ''w'' # ?m]"
    using echo_proxy_runs [of ?m "Bytes ''S''"] by blast
  have "?runs (echo_state server_new proxy_new ?w {#(Idle 0, [Bytes ''w'', Bytes []])#} [] [])"
    using system_runs.join [OF system_runs.start, of echo_stage 0 "''w''" plain_curl plain_config "[]"] unfolding echo_join
    by (simp add: system_new_def)
  from system_runs.forward [OF this, of 0 "Some (''w'', [])" None]
  have "?runs (echo_state server_new p ?w {#} [] [])"
    unfolding echo_forward [OF p(1)] by (simp add: echo_state_def p(2) mailed_def)
  from system_runs.serve [OF this, of "arrives [''A'', []]"]
  have "?runs (echo_state ?c p ?w {#} [] [])"
    unfolding echo_serve [OF echo_connect] by (simp add: echo_state_def arrives_def server_new_def mailed_def)
  from system_runs.serve [OF this, of "arrives [''A'', get_root]"]
  have "?runs (echo_state ?a p ?w {#(Asked 0, ?m)#} [(''A'', ?m)] [])"
    unfolding echo_serve [OF echo_ask] by (simp add: echo_state_def arrives_def mailed_def)
  from system_runs.forward [OF this, of 0 None "Some (Bytes ''S'', ?m)"]
  have "?runs (echo_state ?a p' ?w {#(Given 0 ''w'', ?m)#} [(''A'', ?m)] [])"
    unfolding echo_forward [OF p(4)] by (simp add: echo_state_def p(3,5))
  from system_runs.work [OF this, of 0 "''w''" "\<lparr>work_in = Some ?m, interrupt_in = False\<rparr>" "\<lambda>_. Inr []" "\<lambda>_. False"]
  have "?runs (worker_step 0 ''w'' \<lparr>work_in = Some ?m, interrupt_in = False\<rparr> (\<lambda>_. Inr []) (\<lambda>_. False)
      (echo_state ?a p' ?w {#(Given 0 ''w'', ?m)#} [(''A'', ?m)] []))"
    by (simp add: echo_state_def)
  then obtain w' where "?runs (echo_state ?a p' w' {#(Idle 0, [Bytes ''w'', Bytes []]), (Results, [Info i, Bytes response])#} [(''A'', ?m)] [])"
  proof -
    assume run: "?runs (worker_step 0 ''w'' \<lparr>work_in = Some ?m, interrupt_in = False\<rparr> (\<lambda>_. Inr []) (\<lambda>_. False)
      (echo_state ?a p' ?w {#(Given 0 ''w'', ?m)#} [(''A'', ?m)] []))"
    have "interrupts ?w = {}" "closed UPSTREAM (events ?w)" "closed LOOPBACK (events ?w)"
    by (simp_all add: advertise_def catch_std_def send_def echo_worker_def worker_new_def note_event_def closed_def)
    from echo_work_step [OF this(1) ch this(2,3), of ?a p' "{#(Given 0 ''w'', ?m)#}" "[(''A'', ?m)]" "[]"]
    show thesis using that run by auto
  qed
  then obtain M where M: "?runs (echo_state ?a p' w' M [(''A'', ?m)] [])" "(Results, [Info i, Bytes response]) \<in># M" by fastforce
  let ?p = "\<lparr>result_in = Some (i, response), request_in = None\<rparr>"
  let ?y = "server_step plain_curl plain_config ?p (echo_state ?a p' w' M [(''A'', ?m)] [])"
  have y: "?runs ?y" using system_runs.serve [OF M(1), of ?p] M(2) by (simp add: echo_state_def)
  have k: "http_key i = http_key ?i" "\<not> http_keep_alive i"
    using chain_key [OF _ ch, of http_key] chain_key [OF _ ch, of http_keep_alive] works_keep(1) [OF code_blind_key(1)]
      works_keep(1) [OF code_blind_key(2)] by (simp_all add: root_info http_keep_alive_def)
  have asked: "asked_by ?y = [(''A'', ?m)]"
    using mailed_same [OF echo_last [OF k refl]] by (simp add: server_step_def echo_state_def Let_def case_prod_unfold)
  have answers: "answers ?y = [(i, response, [(Bytes ''A'', True, Sent), (Bytes response, False, Sent), (Bytes ''A'', True, Sent), (Bytes [], False, Sent)])]"
    using echo_taken [OF k refl, of ?vs response] by (simp add: server_step_def echo_state_def Let_def case_prod_unfold)
  have "distinct (map (\<lambda>(c, m). key_of m) (asked_by ?y))" by (simp add: asked)
  from answers_reach_askers [OF y echo_service_sound this] have "chain [echo_work] [Bytes root_bytes] ?i = Some (i, response)"
    unfolding asked answers by (simp add: echo_worker_calm(5) del: chain.simps)
  then show ?thesis using y asked answers by blast
qed

end
