(* ===== verification/Spec2Isabelle.thy ===== *)
theory Spec2Isabelle
  imports Netstring Http_Limits Pipeline Client Beacon_History Resources Daemons Server_Clock System
begin

text \<open>
  \<^bold>\<open>prime_server\<close> is a C++ library for asynchronous web services on top of zmq. A service is a chain of
  parts that talk through sockets, each run by a loop of its own:

  \<^item> a \<^emph>\<open>server\<close> (\<open>server_t\<close>) accepts byte streams from clients on a stream socket, cuts them into
    requests with the parser of a protocol (HTTP or netstrings), gives each request an id, remembers it
    and passes it on to a proxy; results come back on a loopback socket and are sent to the client
    that is waiting; requests that are abandoned, time out or are answered early are announced on an
    interrupt socket;
  \<^item> a \<^emph>\<open>proxy\<close> (\<open>proxy_t\<close>) holds the idle workers of one stage with their heartbeats and hands each
    request to one of them, in turn or by the application's choose function;
  \<^item> a \<^emph>\<open>worker\<close> (\<open>worker_t\<close>) reports to its proxy as idle, runs the application's work function on
    a job, drops jobs that have been interrupted, and sends a result to the next proxy or back to the server;
  \<^item> a \<^emph>\<open>client\<close> (\<open>client_t\<close>, \<open>http_client_t\<close>, \<open>netstring_client_t\<close>) sends batches of requests and
    collects whole responses out of the byte stream that comes back;
  \<^item> a \<^emph>\<open>beacon\<close> (\<open>beacon_t\<close>) announces a service on the local network and keeps the list of those
    that have announced themselves;
  \<^item> the \<^emph>\<open>programs\<close> under \<open>src/src\<close> are work functions (files, echo, prime numbers) and main functions
    that wire the parts together.
\<close>

section \<open>What is modelled where\<close>

text \<open>
  \<^item> \<open>Prelude\<close>: machine types, the functions of the C++ standard library that the sources use on strings
    and numbers (\<open>std::to_string\<close>, \<open>std::stoul\<close>, \<open>tolower\<close>, arithmetic of \<open>size_t\<close> by \<open>size_add\<close> and
    \<open>size_sub\<close>, which wrap), and the collection \<open>eval_simps\<close> for concrete runs.
  \<^item> \<open>Streaming\<close>: the contract between a stream socket, which may cut and join what was written, and a
    parser. The locale \<open>chunked_parser\<close> derives from one law (a call on \<open>d @ d'\<close> is a call on \<open>d\<close> and
    then one on \<open>d'\<close>) that the packets do not matter; \<open>byte_refined\<close> gives the same from a machine that
    takes one byte at a time.
  \<^item> \<open>Netstring\<close> (\<open>netstring_protocol.cpp\<close>): \<open>ns_from_stream\<close>, \<open>ns_to_string\<close>, the canned errors and the
    client's \<open>ns_stream_responses\<close>. \<open>byte_refined\<close> is interpreted on the parser.
  \<^item> \<open>Http_Entity\<close>, \<open>Http_Response\<close>, \<open>Http_Query\<close>, \<open>Http_Request\<close> (\<open>http_protocol.cpp\<close>): the
    case-insensitive headers, \<open>consume_until\<close>, the state machines \<open>rsp_from_stream\<close> and
    \<open>req_from_stream\<close>, the serialisers, \<open>split_path_query\<close>, and the request info with its key.
    The locale \<open>http_parser\<close> states what the two loops share and is interpreted on both.
    \<open>Http_Roundtrip\<close> has what is written being read back, \<open>Http_Limits\<close> the limit on request sizes.
  \<^item> \<open>Http_Client\<close>: \<open>http_client_t::stream_responses\<close>, which finds the end of a response with two
    matchers of its own instead of the parser of \<open>http_response_t\<close>.
  \<^item> \<open>Sockets\<close> (\<open>zmq_helpers.cpp\<close>): \<open>send\<close>, \<open>send_all\<close>, \<open>recv\<close>, \<open>recv_all\<close> with their failures,
    the events a component leaves behind, and the calculus of what an action keeps of the state.
    \<open>Wiring\<close> has the making, tuning, binding and connecting of sockets and the constructors of client,
    server, proxy and worker as sequences of such calls; the library's answer to a call is a function of
    the calls before it.
  \<^item> \<open>Resources\<close> (\<open>zmq_helpers.hpp\<close>, \<open>zmq_helpers.cpp\<close>): \<open>context_t\<close>, \<open>socket_t\<close> and \<open>message_t\<close> as owners, with the
    use counts of their shared pointers and the calls the deleters make; the step relation \<open>owners\<close> is everything
    that constructors, copies and destructors can do. The locale \<open>hashed_key\<close> is what an \<open>unordered_map\<close> asks of its
    keys, interpreted on messages.
  \<^item> \<open>Server\<close> (\<open>server_t\<close> of \<open>prime_server.cpp\<close>): the record \<open>server\<close> has the members \<open>sessions\<close>,
    \<open>requests\<close>, \<open>request_history\<close> and \<open>request_id\<close>; \<open>handle_request\<close>, \<open>enqueue\<close>, \<open>dequeue\<close>,
    \<open>handle_timeouts\<close> and a turn of \<open>serve\<close> are definitions over any protocol. The template arguments
    are a record \<open>protocol\<close>; the locale \<open>server_protocol\<close> is its contract, interpreted on
    \<open>netstring_protocol\<close> and \<open>http_protocol\<close>. \<open>Server_Invariants\<close> has the step relation, the reachable
    states and the locale \<open>server_invariant\<close>, \<open>Server_Wire\<close> what the sockets see, \<open>Server_Clock\<close> the order of
    the history in time.
  \<^item> \<open>Proxy\<close> (\<open>proxy_t\<close>): the list of heartbeats as nodes with addresses, and the two maps between
    workers and nodes; \<open>forward_turn\<close> and \<open>forward\<close>. The locale \<open>idle_pool\<close> is the queue of idle workers.
  \<^item> \<open>Worker\<close> (\<open>worker_t\<close>): \<open>work\<close>, \<open>advertise\<close>, \<open>handle_interrupt\<close> and the culling of the interrupt history.
    A work function is a tree: it ends, throws, or calls the interrupt function and goes on.
  \<^item> \<open>Client\<close> (\<open>client_t::batch\<close>): over any \<open>stream_responses\<close> that keeps the laws of the locale
    \<open>response_client\<close>, interpreted on both clients.
  \<^item> \<open>Beacon\<close> (\<open>beacon_t\<close>): the announcement frame, \<open>update\<close> and \<open>random_port\<close>. \<open>Beacon_History\<close> has the constructor, the
    commands to the actor and sequences of calls.
  \<^item> \<open>Shutdown\<close> (\<open>quiescable\<close> of \<open>prime_server.cpp\<close>): the flags and the thread that sets them, as the step relation
    \<open>process_runs\<close> over signals and the passing of time, the Windows handler, and the loops of server and proxy with
    the flag they look at. The locale \<open>turn_loop\<close> is interpreted on both.
  \<^item> \<open>Programs\<close> (\<open>http_util.cpp\<close>, \<open>prime_filed.cpp\<close>, \<open>prime_workerd.cpp\<close>, \<open>prime_echod.cpp\<close>, \<open>art.cpp\<close>,
    \<open>prime_serverd.cpp\<close>): the work functions. \<open>Daemons\<close> has the seven main functions, with \<open>prime_httpd.cpp\<close> and
    \<open>prime_proxyd.cpp\<close>: the arguments they read and the parts they make.
  \<^item> \<open>Pipeline\<close>: server, proxy and worker put together as \<open>prime_echod.cpp\<close> does. \<open>Primes\<close>: the batch of
    \<open>prime_serverd.cpp\<close> from its range to the primes it has found.
  \<^item> \<open>Stages\<close>: any number of stages behind a server, each a proxy with its workers (\<open>tier\<close>), run one after the other as a
    request needs them. \<open>System\<close>: the same parts running at the same time. The state \<open>system\<close> has the server, the
    stages and the mail between them; \<open>system_runs\<close> is every order in which the parts can take turns, with workers that come and
    go and mail that is lost.
\<close>

section \<open>What is shown\<close>

text \<open>
  \<^item> \<^emph>\<open>Parsers and serialisers.\<close> All four parsers of streams give the same results and refusals however
    the stream is cut into packets. What \<open>to_string\<close> writes is read back, for netstrings, HTTP
    requests and HTTP responses, and for a client that collects the responses a server writes. The size
    limits hold, with the cases in which they do not (a wrap-around of \<open>size_t\<close>, a line break cut in
    two) stated as theorems of their own. \<open>split_path_query\<close> equals a reference parse.
  \<^item> \<^emph>\<open>Server.\<close> In every reachable state an outstanding request belongs to a live session and is
    in the history; a request is answered at most once; a disconnect leaves nothing behind; the
    expired requests, and no others, are removed by \<open>handle_timeouts\<close>; every parsed request reaches the
    proxy whole; messages to clients are always an identity and one body. While the clock does not run
    backwards no request outlives its timeout by more than the turn in which it ends. No dangling iterator is used, except
    for two health checks in one packet, which is shown too.
  \<^item> \<^emph>\<open>Proxy.\<close> Heartbeats and maps stay inverse to each other over any sequence of turns; a turn implements
    an abstract queue of idle workers, and without a choose function the first to report is served first.
  \<^item> \<^emph>\<open>Worker.\<close> A result is delivered whole, an interrupted job is dropped, every turn ends with the worker
    reporting as idle unless something that is no standard exception is thrown, and the set of interrupts
    holds nothing but what has been received.
  \<^item> \<^emph>\<open>Client, beacon and programs.\<close> The client hands all responses to the application in order; the beacon
    keeps exactly the services heard of in the last 60 seconds, over any sequence of calls; the path that reaches the
    disk has no double dots; the prime computation ends and answers correctly.
  \<^item> \<^emph>\<open>Life and death.\<close> What the zmq library hands out is given back once, when its last owner is gone, and a
    context not before its sockets. The process shuts down only after \<open>SIGTERM\<close> and the drain time, and the server's loop
    ends at the first turn after that.
  \<^item> \<^emph>\<open>Composition.\<close> A request sent to the echo service comes back to its client as one whole response.
    A batch of the prime service collects exactly the primes of its range, in whatever order and pieces the answers come.
    In the programs that run a whole service every socket meets one that it can talk to. A service of several stages answers a
    request with what its work functions, one after another, make of it, and is then as ready as before. In every run of
    such a service, however the turns of its parts interleave, a result is told to nobody but the connection whose request it
    answers, and no request has two results: each message in the mail is worth one account of key and outcome, and
    no turn makes more of them than the server has opened.
\<close>

section \<open>Conventions\<close>

text \<open>
  \<^bold>\<open>Effects.\<close> An operation of a component is a function from its state to a new state and an
  exception or a value (\<open>action\<close> with \<open>ret\<close>, \<open>raise\<close>, \<open>bnd\<close>, \<open>modify\<close>), and the state is kept when an
  exception is thrown. Frames sent, lines logged and errors printed are appended to the list \<open>events\<close>.

  \<^bold>\<open>Undefined behaviour.\<close> Iterators are keys or addresses of nodes; a lookup through one that has been
  erased gives the exception \<open>Undefined\<close>, which no \<open>catch\<close> clause of the model catches.
  That it does not occur is then a theorem.

  \<^bold>\<open>Parameters.\<close> What the library calls but does not define is an argument of the definitions: what the
  network does with a frame, the clock and the time in a log line (functions of the events so far, so
  that they may change with every call), the two escape functions of libcurl, the disk, the
  allocator (an address no live node has), the messages that arrive, random numbers, whether
  the process is shutting down, and the work, choose and collect functions of the application.
  The compositions rely on two things that zmq documents: the frames up to one without \<open>ZMQ_SNDMORE\<close> make one message, and a
  \<open>ROUTER\<close> puts the sender's identity in front of what it receives and takes the first frame of what it sends for the
  receiver's.
  Hypotheses on them are named (\<open>reliable\<close> for a socket that takes every frame, for instance), and every
  theorem that has one comes with an instance on concrete functions.

  \<^bold>\<open>Loops.\<close> There is no fuel. The loops of the parsers end by the measures given with them, the ones of
  \<open>handle_timeouts\<close>, of the culling of interrupts and of the purging of services run down a list, the
  search for a divisor has the distance of the divisor from the quotient or the number as measure. The loops that run until the process ends
  (\<open>serve\<close>, \<open>forward\<close>, \<open>work\<close>) are recursions over the list of what arrives in each turn, of any
  length; \<open>batch\<close> ends at the latest when nothing more arrives.

  \<^bold>\<open>Containers.\<close> An \<open>unordered_map\<close> that is only looked up is a map; one that is written out is an
  association list in the order of insertion, the order of iteration being unspecified in C++.
\<close>

section \<open>Not modelled\<close>

text \<open>
  \<^item> The insides of zmq and czmq: what a call to them reports is a parameter, what it is told is recorded. That a
    \<open>DEALER\<close> can talk to a \<open>ROUTER\<close> and so on (\<open>compatible\<close>) is their documentation's table.
  \<^item> Threads: in \<open>System\<close> the turns of the loops interleave in every order, but a turn is not interrupted; the
    parts share nothing but sockets, so that only the order of messages within a turn is lost. \<open>Pipeline\<close>, \<open>Primes\<close> and
    \<open>Stages\<close> fix an order. The starting, joining and detaching of threads in the main functions is left out, as is their end.
  \<^item> In \<open>System\<close> that what is requested is eventually answered, for which the schedule would have to be fair and mail not be
    lost, and what happens when a request has the key of an earlier one, which takes 4294967296 requests in between and the
    same time stamp.
  \<^item> That \<open>sleep\<close> may be cut short by another signal, and the memory order of the two flags of \<open>quiescable\<close>.
  \<^item> \<open>reserve\<close>, which changes no container's contents; in \<open>prime_serverd.cpp\<close> its argument is computed with \<open>std::log\<close>.
  \<^item> Logging, a git submodule that is not in the tree; of a log line its text is modelled.
  \<^item> The tests, the Python helpers and the scripts.
\<close>

end
